(* ===== verification/Turbo_Prelude.thy ===== *)
theory Turbo_Prelude
  imports Main "HOL-Library.Word" "HOL-Library.Signed_Division"
begin

section \<open>Shared vocabulary: faults, assertions, raw memory\<close>

text \<open>
  The C++ of TurboNet leaves a function in one of the following ways other than returning:
  an \<open>assert\<close> fails (only in a build without \<open>NDEBUG\<close>), the process calls \<open>abort\<close>, a
  standard container throws \<open>std::length_error\<close>, \<open>std::thread\<close> throws \<open>std::system_error\<close>, or the code runs into undefined behaviour
  (a read or write outside an object, a null dereference, signed overflow). Every fallible
  operation of the development returns a value of \<open>fault + 'a\<close>. The build type is a
  parameter, because \<open>CMakeLists.txt\<close> selects Release (which defines \<open>NDEBUG\<close>) unless told
  otherwise, and a few assertions of the code do work that disappears with them.
\<close>

datatype fault = Assertion_failed | Process_aborted | Undefined_behaviour | Length_error | System_error

datatype build = Debug | Release

type_synonym 'a result = "fault + 'a"

fun bindR :: "'e + 'a \<Rightarrow> ('a \<Rightarrow> 'e + 'b) \<Rightarrow> 'e + 'b" where
  "bindR (Inl e) f = Inl e"
| "bindR (Inr x) f = f x"

definition assertR :: "build \<Rightarrow> bool \<Rightarrow> unit result" where
  "assertR bld c = (if bld = Debug \<and> \<not> c then Inl Assertion_failed else Inr ())"

named_theorems result_simps "rewriting of computations that return a result"

lemma bindR_assoc: "bindR (bindR m f) g = bindR m (\<lambda>x. bindR (f x) g)"
  by (cases m) auto

lemma bindR_Inr_right: "bindR m Inr = m"
  by (cases m) auto

lemma bindR_eq_Inr_iff: "bindR m f = Inr y \<longleftrightarrow> (\<exists>x. m = Inr x \<and> f x = Inr y)"
  by (cases m) auto

lemma bindR_eq_Inl_iff: "bindR m f = Inl e \<longleftrightarrow> m = Inl e \<or> (\<exists>x. m = Inr x \<and> f x = Inl e)"
  by (cases m) auto

lemma assertR_holds [simp]: "c \<Longrightarrow> assertR bld c = Inr ()"
  by (simp add: assertR_def)

lemma assertR_release [simp]: "assertR Release c = Inr ()"
  by (simp add: assertR_def)

lemma assertR_debug_fails [simp]: "\<not> c \<Longrightarrow> assertR Debug c = Inl Assertion_failed"
  by (simp add: assertR_def)

lemma assertR_eq_Inr_iff: "assertR bld c = Inr u \<longleftrightarrow> (bld = Debug \<longrightarrow> c)"
  by (auto simp: assertR_def)

declare bindR_eq_Inr_iff [result_simps] bindR_eq_Inl_iff [result_simps]
  assertR_eq_Inr_iff [result_simps]

subsection \<open>Raw memory: segments, stores and loads\<close>

text \<open>
  A block of memory is a list of bytes. \<open>segment m i j\<close> is what a reader of the half-open
  range from \<open>i\<close> to \<open>j\<close> sees, \<open>poke i xs m\<close> is the block after \<open>xs\<close> has been written
  at offset \<open>i\<close>. The checked forms fault when the range leaves the block.
\<close>

abbreviation NUL :: char where
  "NUL \<equiv> CHR 0x00"

definition segment :: "'a list \<Rightarrow> nat \<Rightarrow> nat \<Rightarrow> 'a list" where
  "segment m i j = take (j - i) (drop i m)"

definition poke :: "nat \<Rightarrow> 'a list \<Rightarrow> 'a list \<Rightarrow> 'a list" where
  "poke i xs m = take i m @ xs @ drop (i + length xs) m"

definition storeR :: "nat \<Rightarrow> 'a list \<Rightarrow> 'a list \<Rightarrow> 'a list result" where
  "storeR i xs m = (if i + length xs \<le> length m then Inr (poke i xs m) else Inl Undefined_behaviour)"

definition loadR :: "nat \<Rightarrow> nat \<Rightarrow> 'a list \<Rightarrow> 'a list result" where
  "loadR i n m = (if i + n \<le> length m then Inr (segment m i (i + n)) else Inl Undefined_behaviour)"

named_theorems memory_simps "segments of blocks after stores"

lemma length_poke [simp]: "i + length xs \<le> length m \<Longrightarrow> length (poke i xs m) = length m"
  by (simp add: poke_def)

lemma length_segment [simp]: "j \<le> length m \<Longrightarrow> length (segment m i j) = j - i"
  by (simp add: segment_def)

lemma segment_empty [simp]: "j \<le> i \<Longrightarrow> segment m i j = []"
  by (simp add: segment_def)

lemma segment_append: "i \<le> k \<Longrightarrow> k \<le> j \<Longrightarrow> segment m i k @ segment m k j = segment m i j"
proof -
  assume "i \<le> k" and "k \<le> j"
  then obtain a b where k: "k = i + a" and j: "j = i + a + b"
    by (metis le_Suc_ex)
  show ?thesis
    by (simp add: segment_def k j take_add add.commute)
qed

lemma segment_poke_at [memory_simps]:
  "i + length xs \<le> length m \<Longrightarrow> segment (poke i xs m) i (i + length xs) = xs"
  by (simp add: segment_def poke_def)

lemma segment_poke_before [memory_simps]:
  "j \<le> i \<Longrightarrow> i \<le> length m \<Longrightarrow> segment (poke i xs m) k j = segment m k j"
  by (simp add: segment_def poke_def drop_take)

lemma segment_poke_after [memory_simps]:
  "i + length xs \<le> k \<Longrightarrow> i \<le> length m \<Longrightarrow> segment (poke i xs m) k j = segment m k j"
  by (simp add: segment_def poke_def)

lemma take_poke [memory_simps]:
  "i \<le> length m \<Longrightarrow> take (i + length xs) (poke i xs m) = take i m @ xs"
  by (simp add: poke_def)

lemma take_poke_prefix:
  "i \<le> length m \<Longrightarrow> take (i + length xs) (poke i (xs @ ys) m) = take i m @ xs"
  by (simp add: poke_def)

lemma take_segment: "take n (segment m i j) = segment m i (i + min n (j - i))"
  by (simp add: segment_def min.commute)

lemma drop_segment: "drop n (segment m i j) = segment m (i + n) j"
  by (simp add: segment_def drop_take add.commute)

lemma segment_append_block:
  "j \<le> length m \<Longrightarrow> segment (m @ ys) i j = segment m i j"
  by (simp add: segment_def)

lemma nth_segment [simp]: "j \<le> length m \<Longrightarrow> k < j - i \<Longrightarrow> segment m i j ! k = m ! (i + k)"
  by (simp add: segment_def)

lemma storeR_ok [simp]: "i + length xs \<le> length m \<Longrightarrow> storeR i xs m = Inr (poke i xs m)"
  by (simp add: storeR_def)

lemma loadR_ok [simp]: "i + n \<le> length m \<Longrightarrow> loadR i n m = Inr (segment m i (i + n))"
  by (simp add: loadR_def)

lemma loadR_outside [simp]: "length m < i + n \<Longrightarrow> loadR i n m = Inl Undefined_behaviour"
  by (simp add: loadR_def)

subsection \<open>Machine words\<close>

text \<open>
  \<open>size_t\<close> is 64 bits wide on the supported platform, \<open>int\<close> 32 bits. Differences of
  ordered words read as natural numbers without wrap-around.
\<close>

type_synonym size_t = "64 word"
type_synonym cint = "32 word"

named_theorems word_nat "words read as natural numbers"

lemma unat_sub_le [word_nat]: "unat b \<le> unat a \<Longrightarrow> unat (a - b) = unat a - unat (b :: 'a :: len word)"
  by (simp add: unat_sub word_le_nat_alt)

lemma unat_add_less [word_nat]:
  "unat a + unat b < 2 ^ 64 \<Longrightarrow> unat (a + b) = unat a + unat (b :: size_t)"
  by (simp add: unat_word_ariths)

lemma unat_of_nat_size_t [word_nat]: "n < 2 ^ 64 \<Longrightarrow> unat (of_nat n :: size_t) = n"
  by (simp add: unat_of_nat take_bit_nat_eq_self)

lemma unat_size_t_less: "unat (a :: size_t) < 2 ^ 64"
  using unsigned_less [of a] by simp

end
