(* ===== verification/Turbo_Numerals.thy ===== *)
theory Turbo_Numerals
  imports Turbo_Prelude
begin

section \<open>Positional numerals\<close>

text \<open>
  Several parts of the program print integers: \<open>LogStream::FormatInteger\<close>, the pointer
  overload of \<open>operator<<\<close>, \<open>std::to_string\<close> and the \<open>%d\<close> family of \<open>snprintf\<close>. The
  reference rendering is \<open>render_nat\<close>, most significant digit first; \<open>parse_nat\<close> reads a
  numeral back. The locale \<open>digit_system\<close> states what the two need of a digit alphabet.
\<close>

fun render_nat :: "nat \<Rightarrow> (nat \<Rightarrow> char) \<Rightarrow> nat \<Rightarrow> string" where
  "render_nat base enc n =
     (if base < 2 \<or> n < base then [enc n]
      else render_nat base enc (n div base) @ [enc (n mod base)])"

declare render_nat.simps [simp del]

definition parse_digit :: "nat \<Rightarrow> (char \<Rightarrow> nat option) \<Rightarrow> nat option \<Rightarrow> char \<Rightarrow> nat option" where
  "parse_digit base dec acc c =
     (case acc of None \<Rightarrow> None
      | Some a \<Rightarrow> (case dec c of None \<Rightarrow> None | Some d \<Rightarrow> Some (a * base + d)))"

definition parse_nat :: "nat \<Rightarrow> (char \<Rightarrow> nat option) \<Rightarrow> string \<Rightarrow> nat option" where
  "parse_nat base dec s = foldl (parse_digit base dec) (Some 0) s"

lemma parse_digit_Some: "dec c = Some d \<Longrightarrow> parse_digit base dec (Some a) c = Some (a * base + d)"
  by (simp add: parse_digit_def)

lemma parse_nat_snoc: "parse_nat base dec (s @ [c]) = parse_digit base dec (parse_nat base dec s) c"
  by (simp add: parse_nat_def)

lemma render_nat_nonempty: "render_nat base enc n \<noteq> []"
  by (subst render_nat.simps) simp

lemma length_render_nat:
  "2 \<le> base \<Longrightarrow> n < base ^ Suc k \<Longrightarrow> length (render_nat base enc n) \<le> Suc k"
proof (induction k arbitrary: n)
  case 0
  then show ?case by (subst render_nat.simps) simp
next
  case (Suc k)
  have "n div base < base ^ Suc k"
    using Suc.prems by (simp add: less_mult_imp_div_less mult.commute)
  then have "length (render_nat base enc (n div base)) \<le> Suc k"
    using Suc.IH Suc.prems(1) by blast
  then show ?case by (subst render_nat.simps) simp
qed

text \<open>The digits an alphabet offers, and what reading them back has to give.\<close>

locale digit_system =
  fixes base :: nat and enc :: "nat \<Rightarrow> char" and dec :: "char \<Rightarrow> nat option"
  assumes base_ge_2: "2 \<le> base"
    and dec_enc: "d < base \<Longrightarrow> dec (enc d) = Some d"
begin

lemma render_nat_rec:
  "render_nat base enc n =
     (if n < base then [enc n] else render_nat base enc (n div base) @ [enc (n mod base)])"
  using base_ge_2 by (subst render_nat.simps) simp

lemma parse_render: "parse_nat base dec (render_nat base enc n) = Some n"
proof (induction n rule: less_induct)
  case (less n)
  show ?case
  proof (cases "n < base")
    case True
    then show ?thesis
      by (subst render_nat_rec) (simp add: parse_nat_def parse_digit_Some dec_enc)
  next
    case False
    have "n mod base < base" and "n div base < n"
      using False base_ge_2 by auto
    then show ?thesis
      using False less.IH
      by (subst render_nat_rec) (simp add: parse_nat_snoc parse_digit_Some dec_enc)
  qed
qed

lemma render_inj: "render_nat base enc m = render_nat base enc n \<Longrightarrow> m = n"
  using parse_render by (metis option.inject)

lemma render_digits: "c \<in> set (render_nat base enc n) \<Longrightarrow> \<exists>d < base. c = enc d"
proof (induction n rule: less_induct)
  case (less n)
  show ?case
  proof (cases "n < base")
    case True
    with less.prems show ?thesis by (subst (asm) render_nat_rec) auto
  next
    case False
    have "n mod base < base" and "n div base < n"
      using False base_ge_2 by auto
    with False less show ?thesis by (subst (asm) (2) render_nat_rec) auto
  qed
qed

lemma render_no_leading_zero: "0 < n \<Longrightarrow> hd (render_nat base enc n) \<noteq> enc 0"
proof (induction n rule: less_induct)
  case (less n)
  show ?case
  proof (cases "n < base")
    case True
    have "dec (enc n) \<noteq> dec (enc 0)"
      using True less.prems base_ge_2 by (simp add: dec_enc)
    with True show ?thesis by (subst render_nat_rec) auto
  next
    case False
    have "n div base < n" "0 < n div base"
      using False base_ge_2 by (auto simp: div_greater_zero_iff)
    with False less.IH show ?thesis
      by (subst render_nat_rec) (simp add: render_nat_nonempty)
  qed
qed

end

subsection \<open>Decimal\<close>

definition dec_digit :: "nat \<Rightarrow> char" where
  "dec_digit d = ''0123456789'' ! d"

definition dec_value :: "char \<Rightarrow> nat option" where
  "dec_value c =
     (if 48 \<le> (of_char c :: nat) \<and> (of_char c :: nat) \<le> 57 then Some (of_char c - 48) else None)"

lemma less_10_cases:
  "d < (10 :: nat) \<Longrightarrow> d = 0 \<or> d = 1 \<or> d = 2 \<or> d = 3 \<or> d = 4 \<or> d = 5 \<or> d = 6 \<or> d = 7 \<or> d = 8 \<or> d = 9"
  by arith

interpretation decimal: digit_system 10 dec_digit dec_value
proof unfold_locales
  fix d :: nat
  assume "d < 10"
  then show "dec_value (dec_digit d) = Some d"
    using less_10_cases [of d] by (auto simp: dec_digit_def dec_value_def)
qed simp

definition dec_nat :: "nat \<Rightarrow> string" where
  "dec_nat n = render_nat 10 dec_digit n"

text \<open>What \<open>std::to_string\<close> and \<open>%d\<close> print for a signed integer.\<close>

definition dec_int :: "int \<Rightarrow> string" where
  "dec_int v = (if v < 0 then ''-'' else []) @ dec_nat (nat \<bar>v\<bar>)"

definition parse_int :: "string \<Rightarrow> int option" where
  "parse_int s =
     (case s of [] \<Rightarrow> None
      | c # t \<Rightarrow> if c = CHR ''-'' then map_option (\<lambda>n. - int n) (parse_nat 10 dec_value t)
                else map_option int (parse_nat 10 dec_value s))"

lemma dec_digit_not_minus: "d < 10 \<Longrightarrow> dec_digit d \<noteq> CHR ''-''"
  using less_10_cases [of d] by (auto simp: dec_digit_def)

lemma dec_nat_hd_not_minus: "hd (dec_nat n) \<noteq> CHR ''-''"
  using decimal.render_digits [of "hd (dec_nat n)" n]
  by (auto simp: dec_nat_def render_nat_nonempty dest: dec_digit_not_minus)

lemma parse_dec_nat: "parse_nat 10 dec_value (dec_nat n) = Some n"
  by (simp add: dec_nat_def decimal.parse_render)

lemma parse_dec_int: "parse_int (dec_int v) = Some v"
proof -
  obtain c t where ds: "dec_nat (nat \<bar>v\<bar>) = c # t"
    by (metis dec_nat_def render_nat_nonempty neq_Nil_conv)
  then have "c \<noteq> CHR ''-''"
    using dec_nat_hd_not_minus [of "nat \<bar>v\<bar>"] by simp
  with ds show ?thesis
    using parse_dec_nat [of "nat \<bar>v\<bar>"] by (auto simp: parse_int_def dec_int_def)
qed

lemma length_dec_nat: "n < 10 ^ Suc k \<Longrightarrow> length (dec_nat n) \<le> Suc k"
  by (simp add: dec_nat_def length_render_nat)

lemma length_dec_int:
  "\<bar>v\<bar> < 10 ^ Suc k \<Longrightarrow> length (dec_int v) \<le> Suc (Suc k)"
  using length_dec_nat [of "nat \<bar>v\<bar>" k] by (auto simp: dec_int_def nat_less_iff)

text \<open>
  \<open>printf\<close> with the flag 0 and a width: the digits are padded with zeros after the sign.
\<close>

definition dec_padded :: "nat \<Rightarrow> int \<Rightarrow> string" where
  "dec_padded w v =
     (let ds = dec_nat (nat \<bar>v\<bar>); sg = (if v < 0 then ''-'' else [])
      in sg @ replicate (w - (length sg + length ds)) (CHR ''0'') @ ds)"

lemma length_dec_padded:
  "0 \<le> v \<Longrightarrow> v < 10 ^ Suc k \<Longrightarrow> length (dec_padded (Suc k) v) = Suc k"
  using length_dec_nat [of "nat v" k] by (simp add: dec_padded_def Let_def nat_less_iff)

lemma parse_nat_replicate_zero:
  "parse_nat 10 dec_value (replicate n (CHR ''0'') @ s) = parse_nat 10 dec_value s"
proof -
  have "foldl (parse_digit 10 dec_value) (Some 0) (replicate n (CHR ''0'')) = Some 0"
    by (induction n) (auto simp: parse_digit_def dec_value_def)
  then show ?thesis by (simp add: parse_nat_def)
qed

lemma parse_dec_padded: "0 \<le> v \<Longrightarrow> parse_nat 10 dec_value (dec_padded w v) = Some (nat v)"
  by (simp add: dec_padded_def Let_def parse_nat_replicate_zero parse_dec_nat)

text \<open>\<open>snprintf\<close> into a buffer of \<open>n\<close> bytes keeps at most \<open>n - 1\<close> characters.\<close>

definition snprintf_text :: "nat \<Rightarrow> string \<Rightarrow> string" where
  "snprintf_text n s = take (n - 1) s"

lemma snprintf_text_fits [simp]: "length s < n \<Longrightarrow> snprintf_text n s = s"
  by (simp add: snprintf_text_def)

end
