(* ===== verification/Turbo_Steps.thy ===== *)
theory Turbo_Steps
  imports Turbo_Prelude
begin

section \<open>Step systems and their invariants\<close>

text \<open>
  The concurrent parts of the program are step relations: one rule per atomic action of a
  thread. \<open>reach init step\<close> holds of the states some interleaving can produce. The locale
  \<open>invariant_system\<close> is the contract a component discharges for its own machine; the
  lemmas proved in it carry the invariant to every reachable state and along every run.
\<close>

inductive reach :: "('s \<Rightarrow> bool) \<Rightarrow> ('s \<Rightarrow> 's \<Rightarrow> bool) \<Rightarrow> 's \<Rightarrow> bool"
  for init :: "'s \<Rightarrow> bool" and step :: "'s \<Rightarrow> 's \<Rightarrow> bool" where
  reach_init: "init s \<Longrightarrow> reach init step s"
| reach_step: "reach init step s \<Longrightarrow> step s t \<Longrightarrow> reach init step t"

lemma reach_trans: "step\<^sup>*\<^sup>* s t \<Longrightarrow> reach init step s \<Longrightarrow> reach init step t"
  by (induction rule: rtranclp_induct) (auto intro: reach_step)

locale invariant_system =
  fixes init :: "'s \<Rightarrow> bool" and step :: "'s \<Rightarrow> 's \<Rightarrow> bool" and inv :: "'s \<Rightarrow> bool"
  assumes inv_init: "init s \<Longrightarrow> inv s"
    and inv_step: "inv s \<Longrightarrow> step s t \<Longrightarrow> inv t"
begin

lemma reach_inv: "reach init step s \<Longrightarrow> inv s"
  by (induction rule: reach.induct) (auto intro: inv_init inv_step)

lemma run_inv: "step\<^sup>*\<^sup>* s t \<Longrightarrow> inv s \<Longrightarrow> inv t"
  by (induction rule: rtranclp_induct) (auto intro: inv_step)

end

text \<open>
  A quantity that no step takes in the wrong direction: what holds of it in one state holds
  along every run that starts there.
\<close>

locale monotone_system = invariant_system +
  fixes level :: "'s \<Rightarrow> int"
  assumes level_step: "inv s \<Longrightarrow> step s t \<Longrightarrow> level t \<le> level s"
begin

lemma run_level: "step\<^sup>*\<^sup>* s t \<Longrightarrow> inv s \<Longrightarrow> level t \<le> level s"
proof (induction rule: rtranclp_induct)
  case (step t u)
  then have "inv t" by (blast intro: run_inv)
  with step show ?case using level_step by fastforce
qed simp

end

end
