(* ===== verification/Base_Timestamp.thy ===== *)
theory Base_Timestamp
  imports Turbo_Numerals
begin

section \<open>base/timestamp: points in time\<close>

text \<open>
  \<open>turbo::Timestamp\<close> (\<open>src/base/timestamp.h\<close>, \<open>src/base/timestamp.cpp\<close>) wraps a duration of
  \<open>std::chrono::system_clock\<close>: a signed 64-bit count of nanoseconds since the epoch. The
  comparison operators it does not define itself come from the two templates of
  \<open>src/base/public_define.h\<close>. The clock, \<open>localtime\<close> and the product of a \<open>double\<close> with
  an integer are parameters.
\<close>

definition kMicroSecondsPerSecond :: int where
  "kMicroSecondsPerSecond = 1000 * 1000"

definition kNanoSecondsPerSecond :: int where
  "kNanoSecondsPerSecond = 1000 * 1000 * 1000"

definition int64 :: "int \<Rightarrow> bool" where
  "int64 v \<longleftrightarrow> - (2 ^ 63) \<le> v \<and> v < 2 ^ 63"

datatype Timestamp = Timestamp (TimeSinceEpoch: int)

definition Timestamp_new :: Timestamp where
  "Timestamp_new = Timestamp 0"

definition Timestamp_Now :: "int \<Rightarrow> Timestamp" where
  "Timestamp_Now system_clock_now = Timestamp system_clock_now"

text \<open>\<open>std::chrono::duration_cast\<close> divides and truncates towards zero.\<close>

definition duration_cast :: "int \<Rightarrow> int \<Rightarrow> int" where
  "duration_cast period ns = ns sdiv period"

definition TimeSinceEpochDays :: "Timestamp \<Rightarrow> int" where
  "TimeSinceEpochDays t = duration_cast (86400 * 1000000000) (TimeSinceEpoch t)"

definition TimeSinceEpochSeconds :: "Timestamp \<Rightarrow> int" where
  "TimeSinceEpochSeconds t = duration_cast 1000000000 (TimeSinceEpoch t)"

definition TimeSinceEpochMicroSeconds :: "Timestamp \<Rightarrow> int" where
  "TimeSinceEpochMicroSeconds t = duration_cast 1000 (TimeSinceEpoch t)"

definition Timestamp_ToString :: "Timestamp \<Rightarrow> string" where
  "Timestamp_ToString t =
     (let seconds = TimeSinceEpochSeconds t; microseconds = TimeSinceEpochMicroSeconds t
      in snprintf_text (32 - 1)
           (dec_int seconds @ ''.'' @ dec_padded 6 (microseconds smod kMicroSecondsPerSecond)))"

text \<open>The broken-down local time, and \<open>%4d\<close>, which pads with blanks on the left.\<close>

record tm =
  tm_year :: int
  tm_mon :: int
  tm_mday :: int
  tm_hour :: int
  tm_min :: int
  tm_sec :: int

definition blank_padded :: "nat \<Rightarrow> int \<Rightarrow> string" where
  "blank_padded w v = replicate (w - length (dec_int v)) (CHR '' '') @ dec_int v"

definition format_date :: "tm \<Rightarrow> string" where
  "format_date lt =
     blank_padded 4 (tm_year lt + 1900) @ ''-'' @ dec_padded 2 (tm_mon lt + 1) @ ''-'' @
     dec_padded 2 (tm_mday lt) @ '' '' @ dec_padded 2 (tm_hour lt) @ '':'' @
     dec_padded 2 (tm_min lt) @ '':'' @ dec_padded 2 (tm_sec lt)"

definition ToFormatString :: "(int \<Rightarrow> tm option) \<Rightarrow> bool \<Rightarrow> Timestamp \<Rightarrow> string result" where
  "ToFormatString localtime show_microseconds t =
     (case localtime (TimeSinceEpochSeconds t) of
        None \<Rightarrow> Inl Undefined_behaviour
      | Some local_time \<Rightarrow>
          if show_microseconds
          then Inr (snprintf_text 64 (format_date local_time @ ''.'' @
                 dec_padded 6 (TimeSinceEpochMicroSeconds t smod kMicroSecondsPerSecond)))
          else Inr (snprintf_text 64 (format_date local_time)))"

text \<open>\<open>to_micros s\<close> is the value of the cast of \<open>seconds * kMicroSecondsPerSecond\<close>.\<close>

definition AddTime :: "('d \<Rightarrow> int) \<Rightarrow> Timestamp \<Rightarrow> 'd \<Rightarrow> Timestamp result" where
  "AddTime to_micros timestamp seconds =
     (let delta = to_micros seconds; ns = delta * 1000; sum = TimeSinceEpoch timestamp + ns
      in if int64 ns \<and> int64 sum then Inr (Timestamp sum) else Inl Undefined_behaviour)"

subsection \<open>Comparison operators\<close>

definition Timestamp_less :: "Timestamp \<Rightarrow> Timestamp \<Rightarrow> bool" where
  "Timestamp_less lhs rhs \<longleftrightarrow> TimeSinceEpoch lhs < TimeSinceEpoch rhs"

definition Timestamp_equal :: "Timestamp \<Rightarrow> Timestamp \<Rightarrow> bool" where
  "Timestamp_equal lhs rhs \<longleftrightarrow> TimeSinceEpoch lhs = TimeSinceEpoch rhs"

text \<open>The templates: each operator in terms of the one the derived class must provide.\<close>

definition operator_ne :: "('a \<Rightarrow> 'a \<Rightarrow> bool) \<Rightarrow> 'a \<Rightarrow> 'a \<Rightarrow> bool" where
  "operator_ne eq lhs rhs \<longleftrightarrow> \<not> eq lhs rhs"

definition operator_gt :: "('a \<Rightarrow> 'a \<Rightarrow> bool) \<Rightarrow> 'a \<Rightarrow> 'a \<Rightarrow> bool" where
  "operator_gt lt lhs rhs \<longleftrightarrow> lt rhs lhs"

definition operator_le :: "('a \<Rightarrow> 'a \<Rightarrow> bool) \<Rightarrow> 'a \<Rightarrow> 'a \<Rightarrow> bool" where
  "operator_le lt lhs rhs \<longleftrightarrow> \<not> lt rhs lhs"

definition operator_ge :: "('a \<Rightarrow> 'a \<Rightarrow> bool) \<Rightarrow> 'a \<Rightarrow> 'a \<Rightarrow> bool" where
  "operator_ge lt lhs rhs \<longleftrightarrow> \<not> lt lhs rhs"

text \<open>What the templates ask of a derived class, and what their users get.\<close>

locale comparable =
  fixes eq :: "'a \<Rightarrow> 'a \<Rightarrow> bool" and lt :: "'a \<Rightarrow> 'a \<Rightarrow> bool"
  assumes lt_irrefl: "\<not> lt a a"
    and lt_trans: "lt a b \<Longrightarrow> lt b c \<Longrightarrow> lt a c"
    and lt_eq: "\<not> lt a b \<Longrightarrow> \<not> lt b a \<Longrightarrow> eq a b"
    and eq_subst: "eq a b \<Longrightarrow> a = b"
begin

lemma le_iff: "operator_le lt a b \<longleftrightarrow> lt a b \<or> a = b"
  using lt_irrefl lt_trans lt_eq eq_subst unfolding operator_le_def by metis

lemma le_refl: "operator_le lt a a"
  by (simp add: le_iff)

lemma le_trans: "operator_le lt a b \<Longrightarrow> operator_le lt b c \<Longrightarrow> operator_le lt a c"
  using lt_trans by (auto simp: le_iff)

lemma le_antisym: "operator_le lt a b \<Longrightarrow> operator_le lt b a \<Longrightarrow> a = b"
  using lt_trans lt_irrefl by (auto simp: le_iff)

lemma le_total: "operator_le lt a b \<or> operator_le lt b a"
  using lt_irrefl lt_trans unfolding operator_le_def by metis

lemma lt_iff_le_not_le: "lt a b \<longleftrightarrow> operator_le lt a b \<and> \<not> operator_le lt b a"
  using lt_irrefl lt_trans unfolding operator_le_def by metis

lemma ge_iff_le: "operator_ge lt a b \<longleftrightarrow> operator_le lt b a"
  by (simp add: operator_ge_def operator_le_def)

lemma gt_iff_not_le: "operator_gt lt a b \<longleftrightarrow> \<not> operator_le lt a b"
  by (simp add: operator_gt_def operator_le_def)

end

interpretation timestamp_order: comparable Timestamp_equal Timestamp_less
  by unfold_locales (auto simp: Timestamp_less_def Timestamp_equal_def Timestamp.expand)

instantiation Timestamp :: linorder
begin

definition less_eq_Timestamp :: "Timestamp \<Rightarrow> Timestamp \<Rightarrow> bool" where
  "less_eq_Timestamp = operator_le Timestamp_less"

definition less_Timestamp :: "Timestamp \<Rightarrow> Timestamp \<Rightarrow> bool" where
  "less_Timestamp = Timestamp_less"

instance
proof
  fix x y z :: Timestamp
  show "(x < y) = (x \<le> y \<and> \<not> y \<le> x)"
    unfolding less_eq_Timestamp_def less_Timestamp_def by (rule timestamp_order.lt_iff_le_not_le)
  show "x \<le> x"
    unfolding less_eq_Timestamp_def by (rule timestamp_order.le_refl)
  show "x \<le> y \<Longrightarrow> y \<le> z \<Longrightarrow> x \<le> z"
    unfolding less_eq_Timestamp_def by (rule timestamp_order.le_trans)
  show "x \<le> y \<Longrightarrow> y \<le> x \<Longrightarrow> x = y"
    unfolding less_eq_Timestamp_def by (rule timestamp_order.le_antisym)
  show "x \<le> y \<or> y \<le> x"
    unfolding less_eq_Timestamp_def by (rule timestamp_order.le_total)
qed

end

subsection \<open>Lemmas\<close>

lemma sdiv_nonneg: "0 \<le> a \<Longrightarrow> 0 < b \<Longrightarrow> a sdiv b = a div (b :: int)"
  by (cases "a = 0") (simp_all add: signed_divide_int_def)

lemma smod_nonneg: "0 \<le> a \<Longrightarrow> 0 < b \<Longrightarrow> a smod b = a mod (b :: int)"
  by (cases "a = 0") (simp_all add: signed_modulo_int_def sdiv_nonneg minus_div_mult_eq_mod)

lemma micros_split:
  assumes "0 \<le> TimeSinceEpoch t"
  shows "0 \<le> TimeSinceEpochSeconds t" and "0 \<le> TimeSinceEpochMicroSeconds t"
    and "TimeSinceEpochMicroSeconds t smod kMicroSecondsPerSecond
         = TimeSinceEpochMicroSeconds t mod 1000000"
    and "TimeSinceEpochSeconds t = TimeSinceEpochMicroSeconds t div 1000000"
  using assms
  by (simp_all add: TimeSinceEpochSeconds_def TimeSinceEpochMicroSeconds_def duration_cast_def
      sdiv_nonneg smod_nonneg kMicroSecondsPerSecond_def zdiv_zmult2_eq [symmetric])

lemma parse_digits_only:
  "c \<in> set (dec_nat n) \<Longrightarrow> c \<noteq> CHR ''.''"
  using decimal.render_digits [of c n] less_10_cases by (fastforce simp: dec_nat_def dec_digit_def)

lemma dec_padded_nonneg:
  "0 \<le> v \<Longrightarrow> dec_padded w v = replicate (w - length (dec_nat (nat v))) (CHR ''0'') @ dec_nat (nat v)"
  by (simp add: dec_padded_def Let_def)

lemma seconds_bound:
  assumes "0 \<le> TimeSinceEpoch t" and "int64 (TimeSinceEpoch t)"
  shows "TimeSinceEpochSeconds t < 10 ^ Suc 9"
  using assms by (simp add: TimeSinceEpochSeconds_def duration_cast_def sdiv_nonneg int64_def)

text \<open>Reading \<open>ToString\<close> back: the digits before the dot are seconds, those after it microseconds.\<close>

definition parse_timestamp :: "string \<Rightarrow> int option" where
  "parse_timestamp s =
     (case (parse_nat 10 dec_value (takeWhile (\<lambda>c. c \<noteq> CHR ''.'') s),
            parse_nat 10 dec_value (tl (dropWhile (\<lambda>c. c \<noteq> CHR ''.'') s))) of
        (Some a, Some b) \<Rightarrow> Some (int a * 1000000 + int b)
      | _ \<Rightarrow> None)"

lemma ToString_text:
  assumes "0 \<le> TimeSinceEpoch t" and "int64 (TimeSinceEpoch t)"
  shows "Timestamp_ToString t = dec_nat (nat (TimeSinceEpochSeconds t)) @ ''.'' @
           dec_padded 6 (TimeSinceEpochMicroSeconds t mod 1000000)"
proof -
  have "length (dec_nat (nat (TimeSinceEpochSeconds t))) \<le> 10"
    using seconds_bound [OF assms] micros_split(1) [OF assms(1)]
      length_dec_nat [of "nat (TimeSinceEpochSeconds t)" 9] by (simp add: nat_less_iff)
  moreover have "length (dec_padded 6 (TimeSinceEpochMicroSeconds t mod 1000000)) = 6"
    using length_dec_padded [of "TimeSinceEpochMicroSeconds t mod 1000000" 5] by simp
  ultimately show ?thesis
    using micros_split [OF assms(1)] by (simp add: Timestamp_ToString_def Let_def dec_int_def)
qed

text \<open>C32: \<open>ToString\<close> loses nothing but the nanoseconds: for a time at or after the epoch the text is
  never cut by the 31 bytes given to \<open>snprintf\<close>, and reading the seconds and the six-digit
  fraction back gives the microseconds since the epoch.\<close>

theorem ToString_round_trip:
  assumes "0 \<le> TimeSinceEpoch t" and "int64 (TimeSinceEpoch t)"
  shows "parse_timestamp (Timestamp_ToString t) = Some (TimeSinceEpochMicroSeconds t)"
proof -
  let ?s = "dec_nat (nat (TimeSinceEpochSeconds t))"
  let ?u = "dec_padded 6 (TimeSinceEpochMicroSeconds t mod 1000000)"
  have "takeWhile (\<lambda>c. c \<noteq> CHR ''.'') (?s @ CHR ''.'' # ?u) = ?s"
    and "dropWhile (\<lambda>c. c \<noteq> CHR ''.'') (?s @ CHR ''.'' # ?u) = CHR ''.'' # ?u"
    using parse_digits_only by (auto simp: takeWhile_append2 dropWhile_append2)
  then show ?thesis
    using micros_split [OF assms(1)]
    by (simp add: ToString_text [OF assms] parse_timestamp_def parse_dec_nat parse_dec_padded)
qed

theorem ToString_round_trip_witness:
  "parse_timestamp (Timestamp_ToString (Timestamp 1700000000123456789)) = Some 1700000000123456"
  using ToString_round_trip [of "Timestamp 1700000000123456789"]
  by (simp add: int64_def TimeSinceEpochMicroSeconds_def duration_cast_def)

text \<open>Dates whose year has four digits, as every date the program meets has.\<close>

definition valid_tm :: "tm \<Rightarrow> bool" where
  "valid_tm lt \<longleftrightarrow> 1000 \<le> tm_year lt + 1900 \<and> tm_year lt + 1900 \<le> 9999
     \<and> 0 \<le> tm_mon lt \<and> tm_mon lt \<le> 11 \<and> 1 \<le> tm_mday lt \<and> tm_mday lt \<le> 31
     \<and> 0 \<le> tm_hour lt \<and> tm_hour lt \<le> 23 \<and> 0 \<le> tm_min lt \<and> tm_min lt \<le> 59
     \<and> 0 \<le> tm_sec lt \<and> tm_sec lt \<le> 60"

definition nat_field :: "nat \<Rightarrow> nat \<Rightarrow> string \<Rightarrow> nat option" where
  "nat_field i n s = parse_nat 10 dec_value (take n (drop i s))"

lemma length_dec_nat_ge: "10 ^ k \<le> n \<Longrightarrow> Suc k \<le> length (dec_nat n)"
proof (induction k arbitrary: n)
  case 0
  show ?case by (simp add: dec_nat_def render_nat_nonempty Suc_leI)
next
  case (Suc k)
  have "10 * 1 \<le> 10 * (10 :: nat) ^ k"
    by (rule mult_le_mono2) simp
  also have "\<dots> \<le> n"
    using Suc.prems by simp
  finally have "\<not> n < 10"
    by simp
  moreover have "10 ^ k \<le> n div 10"
    using Suc.prems by (simp add: less_eq_div_iff_mult_less_eq mult.commute)
  ultimately show ?case
    using Suc.IH [of "n div 10"] decimal.render_nat_rec [of n] by (simp add: dec_nat_def)
qed

lemma blank_padded_4:
  assumes "1000 \<le> v" and "v \<le> 9999"
  shows "blank_padded 4 v = dec_nat (nat v)" and "length (dec_nat (nat v)) = 4"
proof -
  show "length (dec_nat (nat v)) = 4"
    using assms length_dec_nat [of "nat v" 3] length_dec_nat_ge [of 3 "nat v"]
    by (simp add: nat_less_iff)
  with assms show "blank_padded 4 v = dec_nat (nat v)"
    by (simp add: blank_padded_def dec_int_def)
qed

lemma two_digits: "0 \<le> v \<Longrightarrow> v \<le> 99 \<Longrightarrow> length (dec_padded 2 v) = 2"
  using length_dec_padded [of v 1] by (simp add: numeral_2_eq_2)

lemma format_date_fields:
  assumes "valid_tm lt"
  shows "length (format_date lt) = 19"
    and "nat_field 0 4 (format_date lt) = Some (nat (tm_year lt + 1900))"
    and "nat_field 5 2 (format_date lt) = Some (nat (tm_mon lt + 1))"
    and "nat_field 8 2 (format_date lt) = Some (nat (tm_mday lt))"
    and "nat_field 11 2 (format_date lt) = Some (nat (tm_hour lt))"
    and "nat_field 14 2 (format_date lt) = Some (nat (tm_min lt))"
    and "nat_field 17 2 (format_date lt) = Some (nat (tm_sec lt))"
  using assms
  by (simp_all add: valid_tm_def format_date_def blank_padded_4 two_digits nat_field_def
      parse_dec_nat parse_dec_padded)

text \<open>The date text has a fixed layout. For a local time with a four-digit year,
  \<open>ToFormatString\<close> gives exactly 19 characters from which year, month, day, hour, minute and
  second are read back at columns 0, 5, 8, 11, 14 and 17, and the long form adds a dot and the six
  digits of the microseconds; neither is cut by the 64 bytes of the buffer.\<close>

theorem ToFormatString_layout:
  assumes local: "localtime (TimeSinceEpochSeconds t) = Some lt" and valid: "valid_tm lt"
    and epoch: "0 \<le> TimeSinceEpoch t"
  shows "\<exists>s. ToFormatString localtime False t = Inr s \<and> length s = 19
     \<and> nat_field 0 4 s = Some (nat (tm_year lt + 1900)) \<and> nat_field 5 2 s = Some (nat (tm_mon lt + 1))
     \<and> nat_field 8 2 s = Some (nat (tm_mday lt)) \<and> nat_field 11 2 s = Some (nat (tm_hour lt))
     \<and> nat_field 14 2 s = Some (nat (tm_min lt)) \<and> nat_field 17 2 s = Some (nat (tm_sec lt))
     \<and> (\<exists>u. ToFormatString localtime True t = Inr (s @ ''.'' @ u) \<and> length u = 6
          \<and> parse_nat 10 dec_value u = Some (nat (TimeSinceEpochMicroSeconds t mod 1000000)))"
proof -
  let ?u = "dec_padded 6 (TimeSinceEpochMicroSeconds t mod 1000000)"
  have u: "length ?u = 6"
    using length_dec_padded [of "TimeSinceEpochMicroSeconds t mod 1000000" 5] by simp
  have "ToFormatString localtime True t = Inr (format_date lt @ ''.'' @ ?u)"
    using local u format_date_fields(1) [OF valid]
    by (simp add: ToFormatString_def micros_split [OF epoch])
  moreover have "ToFormatString localtime False t = Inr (format_date lt)"
    using local format_date_fields(1) [OF valid] by (simp add: ToFormatString_def)
  ultimately show ?thesis
    using u format_date_fields [OF valid] by (auto simp: parse_dec_padded)
qed

theorem ToFormatString_layout_witness:
  "\<exists>s. ToFormatString (\<lambda>_. Some \<lparr>tm_year = 123, tm_mon = 10, tm_mday = 14, tm_hour = 22, tm_min = 13,
       tm_sec = 20\<rparr>) False (Timestamp 1700000000000000000) = Inr s \<and> length s = 19
     \<and> nat_field 0 4 s = Some 2023 \<and> nat_field 14 2 s = Some 13"
  using ToFormatString_layout [where t = "Timestamp 1700000000000000000" and
      localtime = "\<lambda>_. Some \<lparr>tm_year = 123, tm_mon = 10, tm_mday = 14, tm_hour = 22, tm_min = 13,
       tm_sec = 20\<rparr>"]
  by (auto simp: valid_tm_def)

end
