(* ===== verification/Base_CurrentThread.thy ===== *)
theory Base_CurrentThread
  imports Turbo_Numerals
begin

section \<open>base/current\_thread: the cached thread id\<close>

text \<open>
  The thread-local variables of \<open>src/base/current_thread.h\<close> and \<open>current_thread.cpp\<close>. The
  result of the system call \<open>gettid\<close> is a parameter; the kernel numbers threads from 1.
\<close>

record CurrentThread =
  t_cached_tid :: int
  t_tid_string :: string
  t_tid_string_length :: nat
  t_thread_name :: string

definition CurrentThread_init :: CurrentThread where
  "CurrentThread_init =
     \<lparr>t_cached_tid = 0, t_tid_string = [], t_tid_string_length = 0, t_thread_name = ''unknown''\<rparr>"

definition ConstructTid :: "int \<Rightarrow> CurrentThread \<Rightarrow> CurrentThread" where
  "ConstructTid gettid th =
     (if t_cached_tid th = 0
      then let tid = gettid; s = dec_int tid
           in th\<lparr>t_cached_tid := tid, t_tid_string := s, t_tid_string_length := length s\<rparr>
      else th)"

definition CachedTid :: "int \<Rightarrow> CurrentThread \<Rightarrow> int \<times> CurrentThread" where
  "CachedTid gettid th =
     (let th' = (if t_cached_tid th = 0 then ConstructTid gettid th else th)
      in (t_cached_tid th', th'))"

definition TidString :: "CurrentThread \<Rightarrow> string" where
  [simp]: "TidString th = t_tid_string th"

definition TidStringLength :: "CurrentThread \<Rightarrow> nat" where
  [simp]: "TidStringLength th = t_tid_string_length th"

definition ThreadName :: "CurrentThread \<Rightarrow> string" where
  [simp]: "ThreadName th = t_thread_name th"

text \<open>The cache is either empty or agrees with the kernel.\<close>

definition tid_cache_ok :: "int \<Rightarrow> CurrentThread \<Rightarrow> bool" where
  "tid_cache_ok gettid th \<longleftrightarrow> 0 < gettid
     \<and> (t_cached_tid th = 0 \<or> t_cached_tid th = gettid \<and> t_tid_string th = dec_int gettid
          \<and> t_tid_string_length th = length (dec_int gettid))"

lemma tid_cache_init: "0 < gettid \<Longrightarrow> tid_cache_ok gettid CurrentThread_init"
  by (simp add: tid_cache_ok_def CurrentThread_init_def)

lemma CachedTid_spec:
  assumes "tid_cache_ok gettid th"
  shows "fst (CachedTid gettid th) = gettid"
    and "t_tid_string (snd (CachedTid gettid th)) = dec_int gettid"
    and "t_tid_string_length (snd (CachedTid gettid th)) = length (dec_int gettid)"
    and "tid_cache_ok gettid (snd (CachedTid gettid th))"
    and "t_thread_name (snd (CachedTid gettid th)) = t_thread_name th"
  using assms by (auto simp: CachedTid_def ConstructTid_def tid_cache_ok_def Let_def)

end
