(* ===== verification/Base_Condition.thy ===== *)
theory Base_Condition
  imports Turbo_Steps
begin

section \<open>base/mutex, base/condition: locking, waiting and waking\<close>

text \<open>
  \<open>MutexLock\<close> (\<open>src/base/mutex.h\<close>, \<open>src/base/mutex.cpp\<close>) is a \<open>std::mutex\<close> with a field \<open>holder_\<close> that
  names the thread inside; \<open>Condition\<close> (\<open>src/base/condition.h\<close>, \<open>src/base/condition.cpp\<close>) gives the
  mutex up while a thread waits and hides the holder meanwhile with an \<open>UnAssignGuard\<close>. Threads are
  numbered by their cached thread id, which is never 0. One rule of the machine is one access to
  shared state, so threads interleave between locking the mutex and recording the holder, between
  dropping the holder and blocking, and so on. Who calls what and when is left open. A blocked thread
  may wake at any time, as \<open>std::condition_variable\<close> allows, and the time limit of \<open>WaitForSeconds\<close>
  may expire at any moment.

  The member \<open>lock_\<close> is not modelled. It is one \<open>std::unique_lock\<close> that all waiters share, made with
  \<open>std::adopt_lock\<close> when no thread owns the mutex, which the standard forbids; its flag is never
  read by the waits of the standard library in use, which go to the mutex behind it, and the
  destructor only releases it. A wait is therefore one on that mutex.
\<close>

subsection \<open>MutexLock\<close>

type_synonym tid = nat

record MutexLock =
  mutex_owner :: "tid option"
  mutex_holder :: tid

definition MutexLock_new :: MutexLock where
  "MutexLock_new = \<lparr>mutex_owner = None, mutex_holder = 0\<rparr>"

definition MutexLock_destroy :: "build \<Rightarrow> MutexLock \<Rightarrow> unit result" where
  "MutexLock_destroy bld m = assertR bld (mutex_holder m = 0)"

definition AssignHolder :: "tid \<Rightarrow> MutexLock \<Rightarrow> MutexLock" where
  "AssignHolder t m = m\<lparr>mutex_holder := t\<rparr>"

definition UnAssignHolder :: "MutexLock \<Rightarrow> MutexLock" where
  "UnAssignHolder m = m\<lparr>mutex_holder := 0\<rparr>"

definition IsLockedByThisThread :: "tid \<Rightarrow> MutexLock \<Rightarrow> bool" where
  "IsLockedByThisThread t m \<longleftrightarrow> mutex_holder m = t"

definition AssertLocked :: "build \<Rightarrow> tid \<Rightarrow> MutexLock \<Rightarrow> unit result" where
  "AssertLocked bld t m = assertR bld (IsLockedByThisThread t m)"

text \<open>\<open>std::mutex::lock\<close> is possible when nobody owns the mutex; \<open>unlock\<close> gives it back.\<close>

definition std_lock :: "tid \<Rightarrow> MutexLock \<Rightarrow> MutexLock option" where
  "std_lock t m = (if mutex_owner m = None then Some (m\<lparr>mutex_owner := Some t\<rparr>) else None)"

definition std_unlock :: "MutexLock \<Rightarrow> MutexLock" where
  "std_unlock m = m\<lparr>mutex_owner := None\<rparr>"

text \<open>What \<open>Lock\<close> and \<open>UnLock\<close> do when no other thread comes between, and the two guards.\<close>

definition MutexLock_Lock :: "tid \<Rightarrow> MutexLock \<Rightarrow> MutexLock option" where
  "MutexLock_Lock t m = map_option (AssignHolder t) (std_lock t m)"

definition MutexLock_UnLock :: "MutexLock \<Rightarrow> MutexLock" where
  "MutexLock_UnLock m = std_unlock (UnAssignHolder m)"

definition MutexLockGuard_new :: "tid \<Rightarrow> MutexLock \<Rightarrow> MutexLock option" where
  "MutexLockGuard_new t m = MutexLock_Lock t m"

definition MutexLockGuard_destroy :: "MutexLock \<Rightarrow> MutexLock" where
  "MutexLockGuard_destroy m = MutexLock_UnLock m"

definition UnAssignGuard_new :: "MutexLock \<Rightarrow> MutexLock" where
  [simp]: "UnAssignGuard_new m = UnAssignHolder m"

definition UnAssignGuard_destroy :: "tid \<Rightarrow> MutexLock \<Rightarrow> MutexLock" where
  [simp]: "UnAssignGuard_destroy t m = AssignHolder t m"

subsection \<open>Condition\<close>

datatype wait_kind = Untimed | Timed

text \<open>
  \<open>wait_answer\<close> is what the last wait of a thread returned: true for a timeout. Where a thread is: without the mutex; in the constructor of the guard (\<open>C_locked\<close>); in the guarded
  block; in a wait before it blocks, blocked, awake with the reason,
  and holding the mutex again; in the destructor of the guard.
\<close>

datatype cond_pc = C_out | C_locked | C_inside | C_unassigned wait_kind | C_blocked wait_kind
  | C_awake bool | C_relocked bool | C_unlocking

record Condition =
  cond_mutex :: MutexLock
  cond_pc :: "tid \<Rightarrow> cond_pc"
  cond_faults :: "tid set"
  wait_answer :: "tid \<Rightarrow> bool option"

definition Condition_new :: Condition where
  "Condition_new = \<lparr>cond_mutex = MutexLock_new, cond_pc = (\<lambda>_. C_out), cond_faults = {}, wait_answer = (\<lambda>_. None)\<rparr>"

definition c_goto :: "tid \<Rightarrow> cond_pc \<Rightarrow> Condition \<Rightarrow> Condition" where
  "c_goto t p s = s\<lparr>cond_pc := (cond_pc s)(t := p)\<rparr>"

text \<open>The beginning of \<open>Wait\<close> and of \<open>WaitForSeconds\<close>: the assertion, then the \<open>UnAssignGuard\<close>.\<close>

definition Condition_wait :: "build \<Rightarrow> wait_kind \<Rightarrow> tid \<Rightarrow> Condition \<Rightarrow> Condition" where
  "Condition_wait bld w t s =
     (case AssertLocked bld t (cond_mutex s) of
        Inl _ \<Rightarrow> s\<lparr>cond_faults := insert t (cond_faults s)\<rparr>
      | Inr _ \<Rightarrow> c_goto t (C_unassigned w) (s\<lparr>cond_mutex := UnAssignGuard_new (cond_mutex s)\<rparr>))"

definition Condition_NotifyAll :: "Condition \<Rightarrow> Condition" where
  "Condition_NotifyAll s =
     s\<lparr>cond_pc := (\<lambda>t. case cond_pc s t of C_blocked w \<Rightarrow> C_awake False | p \<Rightarrow> p)\<rparr>"

text \<open>\<open>notify_one\<close> wakes one blocked thread, of the scheduler's choice, when there is one.\<close>

inductive Condition_Notify :: "Condition \<Rightarrow> Condition \<Rightarrow> bool" where
  notify_some: "cond_pc s u = C_blocked w \<Longrightarrow> Condition_Notify s (c_goto u (C_awake False) s)"
| notify_none: "(\<And>u w. cond_pc s u \<noteq> C_blocked w) \<Longrightarrow> Condition_Notify s s"

inductive cond_act :: "build \<Rightarrow> tid \<Rightarrow> Condition \<Rightarrow> Condition \<Rightarrow> bool" for bld :: build and t :: tid where
  guard_lock: "0 < t \<Longrightarrow> cond_pc s t = C_out \<Longrightarrow> std_lock t (cond_mutex s) = Some m
    \<Longrightarrow> cond_act bld t s (c_goto t C_locked (s\<lparr>cond_mutex := m\<rparr>))"
| guard_assign: "cond_pc s t = C_locked
    \<Longrightarrow> cond_act bld t s (c_goto t C_inside (s\<lparr>cond_mutex := AssignHolder t (cond_mutex s)\<rparr>))"
| guard_unassign: "cond_pc s t = C_inside
    \<Longrightarrow> cond_act bld t s (c_goto t C_unlocking (s\<lparr>cond_mutex := UnAssignHolder (cond_mutex s)\<rparr>))"
| guard_unlock: "cond_pc s t = C_unlocking
    \<Longrightarrow> cond_act bld t s (c_goto t C_out (s\<lparr>cond_mutex := std_unlock (cond_mutex s)\<rparr>))"
| call_wait: "cond_pc s t = C_inside \<Longrightarrow> cond_act bld t s (Condition_wait bld w t s)"
| wait_block: "cond_pc s t = C_unassigned w
    \<Longrightarrow> cond_act bld t s (c_goto t (C_blocked w) (s\<lparr>cond_mutex := std_unlock (cond_mutex s)\<rparr>))"
| wait_spurious: "cond_pc s t = C_blocked w \<Longrightarrow> cond_act bld t s (c_goto t (C_awake False) s)"
| wait_timeout: "cond_pc s t = C_blocked Timed \<Longrightarrow> cond_act bld t s (c_goto t (C_awake True) s)"
| wait_relock: "cond_pc s t = C_awake r \<Longrightarrow> std_lock t (cond_mutex s) = Some m
    \<Longrightarrow> cond_act bld t s (c_goto t (C_relocked r) (s\<lparr>cond_mutex := m\<rparr>))"
| wait_reassign: "cond_pc s t = C_relocked r
    \<Longrightarrow> cond_act bld t s (c_goto t C_inside (s\<lparr>cond_mutex := UnAssignGuard_destroy t (cond_mutex s),
          wait_answer := (wait_answer s)(t := Some r)\<rparr>))"
| call_notify: "cond_pc s t = C_inside \<Longrightarrow> Condition_Notify s s' \<Longrightarrow> cond_act bld t s s'"
| call_notify_free: "cond_pc s t = C_out \<Longrightarrow> Condition_Notify s s' \<Longrightarrow> cond_act bld t s s'"
| call_notify_all: "cond_pc s t = C_inside \<or> cond_pc s t = C_out \<Longrightarrow> cond_act bld t s (Condition_NotifyAll s)"

definition cond_step :: "build \<Rightarrow> Condition \<Rightarrow> Condition \<Rightarrow> bool" where
  "cond_step bld s s' \<longleftrightarrow> (\<exists>t. cond_act bld t s s')"

text \<open>Left alone, a thread that makes or drops a guard does what \<open>Lock\<close> and \<open>UnLock\<close> do.\<close>

lemma guard_block:
  "0 < t \<Longrightarrow> cond_pc s t = C_out \<Longrightarrow> MutexLockGuard_new t (cond_mutex s) = Some m
    \<Longrightarrow> (cond_step bld)\<^sup>*\<^sup>* s (c_goto t C_inside (s\<lparr>cond_mutex := m\<rparr>))"
  "cond_pc s t = C_inside
    \<Longrightarrow> (cond_step bld)\<^sup>*\<^sup>* s (c_goto t C_out (s\<lparr>cond_mutex := MutexLockGuard_destroy (cond_mutex s)\<rparr>))"
proof -
  assume t: "0 < t" "cond_pc s t = C_out" and "MutexLockGuard_new t (cond_mutex s) = Some m"
  then obtain m0 where m: "std_lock t (cond_mutex s) = Some m0" "m = AssignHolder t m0"
    by (auto simp: MutexLockGuard_new_def MutexLock_Lock_def)
  let ?u = "c_goto t C_locked (s\<lparr>cond_mutex := m0\<rparr>)"
  have "cond_act bld t s ?u" by (rule guard_lock [OF t m(1)])
  moreover have "cond_act bld t ?u (c_goto t C_inside (?u\<lparr>cond_mutex := AssignHolder t (cond_mutex ?u)\<rparr>))"
    by (rule guard_assign) (simp add: c_goto_def)
  moreover have "c_goto t C_inside (?u\<lparr>cond_mutex := AssignHolder t (cond_mutex ?u)\<rparr>) = c_goto t C_inside (s\<lparr>cond_mutex := m\<rparr>)"
    by (simp add: c_goto_def m(2))
  ultimately show "(cond_step bld)\<^sup>*\<^sup>* s (c_goto t C_inside (s\<lparr>cond_mutex := m\<rparr>))"
    by (metis cond_step_def converse_rtranclp_into_rtranclp r_into_rtranclp)
next
  assume t: "cond_pc s t = C_inside"
  let ?u = "c_goto t C_unlocking (s\<lparr>cond_mutex := UnAssignHolder (cond_mutex s)\<rparr>)"
  have "cond_act bld t s ?u" by (rule guard_unassign [OF t])
  moreover have "cond_act bld t ?u (c_goto t C_out (?u\<lparr>cond_mutex := std_unlock (cond_mutex ?u)\<rparr>))"
    by (rule guard_unlock) (simp add: c_goto_def)
  moreover have "c_goto t C_out (?u\<lparr>cond_mutex := std_unlock (cond_mutex ?u)\<rparr>)
      = c_goto t C_out (s\<lparr>cond_mutex := MutexLockGuard_destroy (cond_mutex s)\<rparr>)"
    by (simp add: c_goto_def MutexLockGuard_destroy_def MutexLock_UnLock_def)
  ultimately show "(cond_step bld)\<^sup>*\<^sup>* s (c_goto t C_out (s\<lparr>cond_mutex := MutexLockGuard_destroy (cond_mutex s)\<rparr>))"
    by (metis cond_step_def converse_rtranclp_into_rtranclp r_into_rtranclp)
qed

definition cond_init :: "Condition \<Rightarrow> bool" where
  "cond_init s \<longleftrightarrow> s = Condition_new"

subsection \<open>The invariant\<close>

fun c_owning :: "cond_pc \<Rightarrow> bool" where
  "c_owning C_locked = True"
| "c_owning C_inside = True"
| "c_owning (C_unassigned w) = True"
| "c_owning (C_relocked r) = True"
| "c_owning C_unlocking = True"
| "c_owning _ = False"

fun c_recorded :: "cond_pc \<Rightarrow> bool" where
  "c_recorded C_inside = True"
| "c_recorded _ = False"

definition cond_inv :: "Condition \<Rightarrow> bool" where
  "cond_inv s \<longleftrightarrow> cond_pc s 0 = C_out
     \<and> (\<forall>t. c_owning (cond_pc s t) \<longleftrightarrow> mutex_owner (cond_mutex s) = Some t)
     \<and> (\<forall>t. 0 < t \<longrightarrow> (c_recorded (cond_pc s t) \<longleftrightarrow> mutex_holder (cond_mutex s) = t))
     \<and> cond_faults s = {}"

lemmas cond_ops = c_goto_def std_lock_def std_unlock_def AssignHolder_def UnAssignHolder_def

lemma c_recorded_owning: "c_recorded p \<Longrightarrow> c_owning p"
  by (cases p) simp_all

text \<open>A thread that has the mutex is no one else's holder.\<close>

lemma cond_inv_held:
  assumes "cond_inv s" and "c_owning (cond_pc s t)"
  shows "0 < t" and "mutex_owner (cond_mutex s) = Some t"
    and "\<And>u. u \<noteq> t \<Longrightarrow> 0 < u \<Longrightarrow> mutex_holder (cond_mutex s) \<noteq> u"
proof -
  show "0 < t" using assms by (cases t) (auto simp: cond_inv_def)
  show o: "mutex_owner (cond_mutex s) = Some t" using assms by (simp add: cond_inv_def)
  show "mutex_holder (cond_mutex s) \<noteq> u" if "u \<noteq> t" "0 < u" for u
    using assms(1) o that c_recorded_owning [of "cond_pc s u"] unfolding cond_inv_def by auto
qed

lemma cond_inv_goto:
  assumes inv: "cond_inv s" and pos: "0 < t"
    and own: "c_owning p \<longleftrightarrow> mutex_owner m = Some t"
    and keep: "\<And>u. u \<noteq> t \<Longrightarrow> mutex_owner m = Some u \<longleftrightarrow> mutex_owner (cond_mutex s) = Some u"
    and rec: "c_recorded p \<longleftrightarrow> mutex_holder m = t"
    and hold: "\<And>u. u \<noteq> t \<Longrightarrow> 0 < u \<Longrightarrow> mutex_holder m = u \<longleftrightarrow> mutex_holder (cond_mutex s) = u"
  shows "cond_inv (c_goto t p (s\<lparr>cond_mutex := m\<rparr>))"
  using assms unfolding cond_inv_def c_goto_def by auto

lemma cond_inv_move:
  assumes "cond_inv s" and "cond_pc s t \<noteq> C_out" and "c_owning p = c_owning (cond_pc s t)"
    and "c_recorded p = c_recorded (cond_pc s t)"
  shows "cond_inv (c_goto t p s)"
  using assms unfolding cond_inv_def c_goto_def by (auto simp: fun_upd_def)


lemma cond_inv_assign:
  assumes "cond_inv s" and "c_owning (cond_pc s t)" and "c_recorded p"
  shows "cond_inv (c_goto t p (s\<lparr>cond_mutex := AssignHolder t (cond_mutex s)\<rparr>))"
  using assms cond_inv_held [OF assms(1,2)] c_recorded_owning [of p]
  by (intro cond_inv_goto) (auto simp: AssignHolder_def)

lemma cond_inv_unassign:
  assumes "cond_inv s" and "c_owning (cond_pc s t)" and "c_owning p" and "\<not> c_recorded p"
  shows "cond_inv (c_goto t p (s\<lparr>cond_mutex := UnAssignHolder (cond_mutex s)\<rparr>))"
  using assms cond_inv_held [OF assms(1,2)]
  by (intro cond_inv_goto) (auto simp: UnAssignHolder_def)

lemma cond_inv_unlock:
  assumes "cond_inv s" and "c_owning (cond_pc s t)" and "\<not> c_recorded (cond_pc s t)" and "\<not> c_owning p"
  shows "cond_inv (c_goto t p (s\<lparr>cond_mutex := std_unlock (cond_mutex s)\<rparr>))"
proof (rule cond_inv_goto [OF assms(1)])
  show pos: "0 < t" by (rule cond_inv_held(1) [OF assms(1,2)])
  have "mutex_holder (cond_mutex s) \<noteq> t" using assms(1,3) pos by (auto simp: cond_inv_def)
  then show "c_recorded p = (mutex_holder (std_unlock (cond_mutex s)) = t)"
    using assms(4) c_recorded_owning [of p] by (auto simp: std_unlock_def)
qed (use assms(4) cond_inv_held(2) [OF assms(1,2)] in \<open>auto simp: std_unlock_def\<close>)

lemma cond_inv_lock:
  assumes "cond_inv s" and "0 < t" and "\<not> c_owning (cond_pc s t)" and "std_lock t (cond_mutex s) = Some m"
    and "c_owning p" and "\<not> c_recorded p"
  shows "cond_inv (c_goto t p (s\<lparr>cond_mutex := m\<rparr>))"
proof (rule cond_inv_goto [OF assms(1,2)])
  have "mutex_owner (cond_mutex s) = None" and m: "m = (cond_mutex s)\<lparr>mutex_owner := Some t\<rparr>"
    using assms(4) by (auto simp: std_lock_def split: if_splits)
  then show "c_owning p = (mutex_owner m = Some t)"
    and "\<And>u. u \<noteq> t \<Longrightarrow> mutex_owner m = Some u \<longleftrightarrow> mutex_owner (cond_mutex s) = Some u"
    using assms(5) by auto
  have "\<not> c_recorded (cond_pc s t)" using assms(3) c_recorded_owning by blast
  then show "c_recorded p = (mutex_holder m = t)"
    using assms(1,2,6) m by (auto simp: cond_inv_def)
  show "mutex_holder m = u \<longleftrightarrow> mutex_holder (cond_mutex s) = u" for u by (simp add: m)
qed

lemma cond_inv_not_zero: "cond_inv s \<Longrightarrow> cond_pc s t \<noteq> C_out \<Longrightarrow> 0 < t"
  unfolding cond_inv_def by (metis neq0_conv)

lemma cond_inv_locked:
  assumes "cond_inv s" and "cond_pc s t = C_inside"
  shows "AssertLocked bld t (cond_mutex s) = Inr ()"
proof -
  have "0 < t" using assms by (intro cond_inv_not_zero [of s]) auto
  moreover have "c_recorded (cond_pc s t)" using assms(2) by simp
  ultimately have "mutex_holder (cond_mutex s) = t" using assms(1) unfolding cond_inv_def by blast
  then show ?thesis by (simp add: AssertLocked_def IsLockedByThisThread_def)
qed

lemma cond_inv_notify: "Condition_Notify s s' \<Longrightarrow> cond_inv s \<Longrightarrow> cond_inv s'"
  by (erule Condition_Notify.cases) (auto intro: cond_inv_move)

lemma cond_inv_notify_all: "cond_inv s \<Longrightarrow> cond_inv (Condition_NotifyAll s)"
proof -
  have "c_owning (case p of C_blocked w \<Rightarrow> C_awake False | p \<Rightarrow> p) = c_owning p"
    "c_recorded (case p of C_blocked w \<Rightarrow> C_awake False | p \<Rightarrow> p) = c_recorded p" for p
    by (cases p; simp)+
  then show "cond_inv s \<Longrightarrow> cond_inv (Condition_NotifyAll s)" by (simp add: cond_inv_def Condition_NotifyAll_def)
qed

lemma cond_inv_act:
  assumes act: "cond_act bld t s s'" and inv: "cond_inv s"
  shows "cond_inv s'"
  using act
proof cases
  case (call_wait w)
  then show ?thesis using inv
    by (auto simp: Condition_wait_def cond_inv_locked [OF inv call_wait(2)] intro: cond_inv_unassign)
next
  case (wait_reassign r)
  then have "cond_inv (c_goto t C_inside (s\<lparr>cond_mutex := AssignHolder t (cond_mutex s)\<rparr>))"
    using inv by (intro cond_inv_assign) simp_all
  then show ?thesis by (simp add: wait_reassign(1) cond_inv_def c_goto_def)
next
  case (wait_relock r m)
  then show ?thesis using inv cond_inv_not_zero [OF inv, of t] by (auto intro: cond_inv_lock)
qed (use inv in \<open>auto intro: cond_inv_lock cond_inv_assign cond_inv_unassign cond_inv_unlock cond_inv_move
      cond_inv_notify cond_inv_notify_all\<close>)

interpretation cond_runs: invariant_system cond_init "cond_step bld" cond_inv for bld
proof
  show "cond_inv s" if "cond_init s" for s
    using that by (simp add: cond_init_def Condition_new_def MutexLock_new_def cond_inv_def)
qed (auto simp: cond_step_def intro: cond_inv_act)


text \<open>
  C21: With any number of threads locking, waiting with or without a time limit, and notifying, at
  most one has the mutex, \<open>IsLockedByThisThread\<close> answers yes exactly for the thread inside the guarded
  block, also right after a wait, the assertion of \<open>Wait\<close> and \<open>WaitForSeconds\<close> never fails, and the
  mutex may be destroyed when everybody is out.
\<close>

theorem condition_mutual_exclusion:
  assumes "reach cond_init (cond_step bld) s"
  shows "cond_faults s = {}
    \<and> (c_owning (cond_pc s t) \<and> c_owning (cond_pc s u) \<longrightarrow> t = u)
    \<and> (0 < t \<longrightarrow> IsLockedByThisThread t (cond_mutex s) = (cond_pc s t = C_inside))
    \<and> ((\<forall>v. cond_pc s v = C_out) \<longrightarrow> MutexLock_destroy bld (cond_mutex s) = Inr ())"
proof -
  have inv: "cond_inv s" by (rule cond_runs.reach_inv [OF assms])
  have "mutex_holder (cond_mutex s) = 0" if "\<forall>v. cond_pc s v = C_out"
    using inv that unfolding cond_inv_def by (metis neq0_conv c_recorded.simps(2))
  moreover have "c_recorded p \<longleftrightarrow> p = C_inside" for p by (cases p) simp_all
  ultimately show ?thesis
    using inv by (auto simp: cond_inv_def IsLockedByThisThread_def MutexLock_destroy_def)
qed

text \<open>A thread waits with a time limit, which expires, and is back inside the block.\<close>

lemma timed_out: "\<exists>s. reach cond_init (cond_step Debug) s \<and> cond_pc s 3 = C_inside \<and> wait_answer s 3 = Some True"
proof -
  let ?r = "reach cond_init (cond_step Debug)"
  have step: "?r s \<Longrightarrow> cond_act Debug 3 s s' \<Longrightarrow> ?r s'" for s s'
    by (rule reach_step) (auto simp: cond_step_def)
  have r0: "?r Condition_new" by (rule reach_init) (simp add: cond_init_def)
  define s1 where "s1 = c_goto 3 C_locked (Condition_new\<lparr>cond_mutex := \<lparr>mutex_owner = Some 3, mutex_holder = 0\<rparr>\<rparr>)"
  have "cond_act Debug 3 Condition_new s1"
    unfolding s1_def by (rule guard_lock) (simp_all add: Condition_new_def MutexLock_new_def std_lock_def)
  note r1 = step [OF r0 this]
  have f1: "cond_pc s1 3 = C_locked" "cond_mutex s1 = \<lparr>mutex_owner = Some 3, mutex_holder = 0\<rparr>"
    by (simp_all add: s1_def c_goto_def)
  define s2 where "s2 = c_goto 3 C_inside (s1\<lparr>cond_mutex := AssignHolder 3 (cond_mutex s1)\<rparr>)"
  have r2: "?r s2" unfolding s2_def by (rule step [OF r1 guard_assign]) (rule f1)
  have f2: "cond_pc s2 3 = C_inside" "cond_mutex s2 = \<lparr>mutex_owner = Some 3, mutex_holder = 3\<rparr>"
    by (simp_all add: s2_def c_goto_def f1 AssignHolder_def)
  define s3 where "s3 = Condition_wait Debug Timed 3 s2"
  have r3: "?r s3" unfolding s3_def by (rule step [OF r2 call_wait]) (rule f2)
  have f3: "cond_pc s3 3 = C_unassigned Timed" "cond_mutex s3 = \<lparr>mutex_owner = Some 3, mutex_holder = 0\<rparr>"
    by (simp_all add: s3_def Condition_wait_def AssertLocked_def IsLockedByThisThread_def c_goto_def f2 UnAssignHolder_def)
  define s4 where "s4 = c_goto 3 (C_blocked Timed) (s3\<lparr>cond_mutex := std_unlock (cond_mutex s3)\<rparr>)"
  have r4: "?r s4" unfolding s4_def by (rule step [OF r3 wait_block]) (rule f3)
  have f4: "cond_pc s4 3 = C_blocked Timed" "cond_mutex s4 = \<lparr>mutex_owner = None, mutex_holder = 0\<rparr>"
    by (simp_all add: s4_def c_goto_def f3 std_unlock_def)
  define s5 where "s5 = c_goto 3 (C_awake True) s4"
  have r5: "?r s5" unfolding s5_def by (rule step [OF r4 wait_timeout]) (rule f4)
  have f5: "cond_pc s5 3 = C_awake True" "cond_mutex s5 = \<lparr>mutex_owner = None, mutex_holder = 0\<rparr>"
    by (simp_all add: s5_def c_goto_def f4)
  define s6 where "s6 = c_goto 3 (C_relocked True) (s5\<lparr>cond_mutex := \<lparr>mutex_owner = Some 3, mutex_holder = 0\<rparr>\<rparr>)"
  have r6: "?r s6" unfolding s6_def by (rule step [OF r5 wait_relock]) (simp_all add: f5 std_lock_def)
  have f6: "cond_pc s6 3 = C_relocked True" by (simp add: s6_def c_goto_def)
  show ?thesis
    using step [OF r6 wait_reassign [OF f6]] by (intro exI conjI) (assumption, simp_all add: c_goto_def)
qed

theorem condition_mutual_exclusion_witness:
  "\<exists>s. reach cond_init (cond_step Debug) s \<and> IsLockedByThisThread 3 (cond_mutex s) \<and> wait_answer s 3 = Some True"
proof -
  obtain s where s: "reach cond_init (cond_step Debug) s" "cond_pc s 3 = C_inside" "wait_answer s 3 = Some True"
    using timed_out by blast
  from condition_mutual_exclusion [OF s(1), of 3 3] s show ?thesis by auto
qed

end
