(* ===== verification/Base_Sync.thy ===== *)
theory Base_Sync
  imports Base_Condition
begin

section \<open>base/count\_down\_latch: a latch step by step\<close>

text \<open>
  \<open>CountDownLatch\<close> (\<open>src/base/count_down_latch.h\<close>, \<open>src/base/count_down_latch.cpp\<close>) is built from
  a \<open>MutexLock\<close> and a \<open>Condition\<close>. Its machine has the same grain as that of the condition, which it
  refines, and adds the code of its three operations.
\<close>

subsection \<open>The latch\<close>

text \<open>
  Where a thread is: outside; holding the mutex but not yet recorded (\<open>Entering\<close>); recorded, at
  the start of the body of an operation (\<open>Inside\<close>); in \<open>Condition::Wait\<close> with the holder dropped
  (\<open>Unassigned\<close>), blocked, woken, and holding the mutex again (\<open>Relocked\<close>); at the end of the
  operation (\<open>Leaving\<close>, \<open>Unlocking\<close>). The fields from \<open>returned_waits\<close> on record which threads have returned from
  \<open>Wait\<close>, how often \<open>CountDown\<close> ran, and what the last \<open>GetCount\<close> of each thread answered.
\<close>

datatype latch_op = Op_Wait | Op_CountDown | Op_GetCount

datatype pc = Outside | Entering latch_op | Inside latch_op | Unassigned | Blocked | Woken | Relocked
  | Leaving latch_op | Unlocking latch_op

record CountDownLatch =
  latch_mutex :: MutexLock
  latch_count :: int
  latch_pc :: "tid \<Rightarrow> pc"
  latch_faults :: "tid set"
  returned_waits :: "tid set"
  decrements :: nat
  count_answer :: "tid \<Rightarrow> int option"

definition CountDownLatch_new :: "int \<Rightarrow> CountDownLatch" where
  "CountDownLatch_new count = \<lparr>latch_mutex = MutexLock_new, latch_count = count, latch_pc = (\<lambda>_. Outside),
     latch_faults = {}, returned_waits = {}, decrements = 0, count_answer = (\<lambda>_. None)\<rparr>"

definition goto :: "tid \<Rightarrow> pc \<Rightarrow> CountDownLatch \<Rightarrow> CountDownLatch" where
  "goto t p s = s\<lparr>latch_pc := (latch_pc s)(t := p)\<rparr>"

text \<open>\<open>notify_all\<close> wakes every blocked thread.\<close>

definition NotifyAll :: "CountDownLatch \<Rightarrow> CountDownLatch" where
  "NotifyAll s = s\<lparr>latch_pc := (\<lambda>t. if latch_pc s t = Blocked then Woken else latch_pc s t)\<rparr>"

text \<open>The body of \<open>CountDown\<close>, and the test at the head of the loop in \<open>Wait\<close>.\<close>

definition CountDown_body :: "tid \<Rightarrow> CountDownLatch \<Rightarrow> CountDownLatch" where
  "CountDown_body t s =
     (let s1 = s\<lparr>latch_count := latch_count s - 1, decrements := Suc (decrements s)\<rparr>;
          s2 = (if latch_count s1 = 0 then NotifyAll s1 else s1)
      in goto t (Leaving Op_CountDown) s2)"

definition Wait_body :: "build \<Rightarrow> tid \<Rightarrow> CountDownLatch \<Rightarrow> CountDownLatch" where
  "Wait_body bld t s =
     (if latch_count s > 0
      then (case AssertLocked bld t (latch_mutex s) of
              Inl _ \<Rightarrow> s\<lparr>latch_faults := insert t (latch_faults s)\<rparr>
            | Inr _ \<Rightarrow> goto t Unassigned (s\<lparr>latch_mutex := UnAssignHolder (latch_mutex s)\<rparr>))
      else goto t (Leaving Op_Wait) s)"

definition GetCount_body :: "tid \<Rightarrow> CountDownLatch \<Rightarrow> CountDownLatch" where
  "GetCount_body t s = goto t (Leaving Op_GetCount) (s\<lparr>count_answer := (count_answer s)(t := Some (latch_count s))\<rparr>)"

text \<open>\<open>latch_act bld t\<close> is one access by thread \<open>t\<close>.\<close>

inductive latch_act :: "build \<Rightarrow> tid \<Rightarrow> CountDownLatch \<Rightarrow> CountDownLatch \<Rightarrow> bool" for bld :: build and t :: tid where
  act_lock: "0 < t \<Longrightarrow> latch_pc s t = Outside \<Longrightarrow> std_lock t (latch_mutex s) = Some m
    \<Longrightarrow> latch_act bld t s (goto t (Entering oper) (s\<lparr>latch_mutex := m\<rparr>))"
| act_assign: "latch_pc s t = Entering oper
    \<Longrightarrow> latch_act bld t s (goto t (Inside oper) (s\<lparr>latch_mutex := AssignHolder t (latch_mutex s)\<rparr>))"
| act_wait: "latch_pc s t = Inside Op_Wait \<Longrightarrow> latch_act bld t s (Wait_body bld t s)"
| act_count_down: "latch_pc s t = Inside Op_CountDown \<Longrightarrow> latch_act bld t s (CountDown_body t s)"
| act_get_count: "latch_pc s t = Inside Op_GetCount \<Longrightarrow> latch_act bld t s (GetCount_body t s)"
| act_block: "latch_pc s t = Unassigned
    \<Longrightarrow> latch_act bld t s (goto t Blocked (s\<lparr>latch_mutex := std_unlock (latch_mutex s)\<rparr>))"
| act_spurious: "latch_pc s t = Blocked \<Longrightarrow> latch_act bld t s (goto t Woken s)"
| act_relock: "latch_pc s t = Woken \<Longrightarrow> std_lock t (latch_mutex s) = Some m
    \<Longrightarrow> latch_act bld t s (goto t Relocked (s\<lparr>latch_mutex := m\<rparr>))"
| act_reassign: "latch_pc s t = Relocked
    \<Longrightarrow> latch_act bld t s (goto t (Inside Op_Wait) (s\<lparr>latch_mutex := AssignHolder t (latch_mutex s)\<rparr>))"
| act_unassign: "latch_pc s t = Leaving oper
    \<Longrightarrow> latch_act bld t s (goto t (Unlocking oper) (s\<lparr>latch_mutex := UnAssignHolder (latch_mutex s)\<rparr>))"
| act_unlock: "latch_pc s t = Unlocking oper
    \<Longrightarrow> latch_act bld t s (goto t Outside (s\<lparr>latch_mutex := std_unlock (latch_mutex s),
          returned_waits := (if oper = Op_Wait then insert t (returned_waits s) else returned_waits s)\<rparr>))"

inductive_cases latch_actE: "latch_act bld t s s'"

text \<open>A step of any thread, and a step that does not begin a new operation.\<close>

definition latch_step :: "build \<Rightarrow> CountDownLatch \<Rightarrow> CountDownLatch \<Rightarrow> bool" where
  "latch_step bld s s' \<longleftrightarrow> (\<exists>t. latch_act bld t s s')"

definition latch_cont :: "build \<Rightarrow> CountDownLatch \<Rightarrow> CountDownLatch \<Rightarrow> bool" where
  "latch_cont bld s s' \<longleftrightarrow> (\<exists>t. latch_pc s t \<noteq> Outside \<and> latch_act bld t s s')"

lemma latch_stepI: "latch_act bld t s s' \<Longrightarrow> latch_step bld s s'"
  by (auto simp: latch_step_def)

lemma latch_contI: "latch_act bld t s s' \<Longrightarrow> latch_pc s t \<noteq> Outside \<Longrightarrow> latch_cont bld s s'"
  by (auto simp: latch_cont_def)

lemma latch_cont_step: "latch_cont bld s s' \<Longrightarrow> latch_step bld s s'"
  by (auto simp: latch_cont_def latch_step_def)

lemma latch_cont_run: "(latch_cont bld)\<^sup>*\<^sup>* s s' \<Longrightarrow> (latch_step bld)\<^sup>*\<^sup>* s s'"
  by (erule rtranclp_mono [THEN predicate2D, rotated]) (auto intro: latch_cont_step)

subsection \<open>Invariants\<close>

fun owning :: "pc \<Rightarrow> bool" where
  "owning (Entering oper) = True"
| "owning (Inside oper) = True"
| "owning Unassigned = True"
| "owning Relocked = True"
| "owning (Leaving oper) = True"
| "owning (Unlocking oper) = True"
| "owning _ = False"

fun recorded :: "pc \<Rightarrow> bool" where
  "recorded (Inside oper) = True"
| "recorded (Leaving oper) = True"
| "recorded _ = False"

fun must_wait :: "pc \<Rightarrow> bool" where
  "must_wait Unassigned = True"
| "must_wait Blocked = True"
| "must_wait _ = False"

fun done_waiting :: "pc \<Rightarrow> bool" where
  "done_waiting (Leaving oper) = (oper = Op_Wait)"
| "done_waiting (Unlocking oper) = (oper = Op_Wait)"
| "done_waiting _ = False"

definition mutex_inv :: "CountDownLatch \<Rightarrow> bool" where
  "mutex_inv s \<longleftrightarrow> latch_pc s 0 = Outside
     \<and> (\<forall>t. owning (latch_pc s t) \<longleftrightarrow> mutex_owner (latch_mutex s) = Some t)
     \<and> (\<forall>t. 0 < t \<longrightarrow> (recorded (latch_pc s t) \<longleftrightarrow> mutex_holder (latch_mutex s) = t))
     \<and> latch_faults s = {}"

definition count_inv :: "int \<Rightarrow> CountDownLatch \<Rightarrow> bool" where
  "count_inv n s \<longleftrightarrow> latch_count s = n - int (decrements s)
     \<and> (\<forall>t. must_wait (latch_pc s t) \<longrightarrow> 0 < latch_count s)
     \<and> (\<forall>t. done_waiting (latch_pc s t) \<or> t \<in> returned_waits s \<longrightarrow> latch_count s \<le> 0)"

definition latch_init :: "int \<Rightarrow> CountDownLatch \<Rightarrow> bool" where
  "latch_init n s \<longleftrightarrow> s = CountDownLatch_new n"

lemmas latch_ops = goto_def NotifyAll_def CountDown_body_def Wait_body_def std_lock_def std_unlock_def
  AssignHolder_def UnAssignHolder_def AssertLocked_def IsLockedByThisThread_def Let_def

lemma recorded_owning: "recorded p \<Longrightarrow> owning p"
  by (cases p) simp_all

lemma mutex_inv_not_zero: "mutex_inv s \<Longrightarrow> latch_pc s t \<noteq> Outside \<Longrightarrow> 0 < t"
  unfolding mutex_inv_def by (metis neq0_conv)

lemma mutex_inv_pos: "mutex_inv s \<Longrightarrow> owning (latch_pc s t) \<Longrightarrow> 0 < t"
  by (rule mutex_inv_not_zero) auto

lemma mutex_inv_recorded: "mutex_inv s \<Longrightarrow> recorded (latch_pc s t) \<Longrightarrow> mutex_holder (latch_mutex s) = t"
  using mutex_inv_pos [of s t] recorded_owning [of "latch_pc s t"] unfolding mutex_inv_def by blast

lemma mutex_inv_held:
  assumes "mutex_inv s" and "owning (latch_pc s t)"
  shows "mutex_owner (latch_mutex s) = Some t"
  using assms by (simp add: mutex_inv_def)

subsection \<open>The latch is a user of the condition\<close>

text \<open>Which state of the condition a state of the latch is; the count is the user's own.\<close>

fun abs_pc :: "pc \<Rightarrow> cond_pc" where
  "abs_pc Outside = C_out"
| "abs_pc (Entering oper) = C_locked"
| "abs_pc (Inside oper) = C_inside"
| "abs_pc Unassigned = C_unassigned Untimed"
| "abs_pc Blocked = C_blocked Untimed"
| "abs_pc Woken = C_awake False"
| "abs_pc Relocked = C_relocked False"
| "abs_pc (Leaving oper) = C_inside"
| "abs_pc (Unlocking oper) = C_unlocking"

definition sim :: "CountDownLatch \<Rightarrow> Condition \<Rightarrow> bool" where
  "sim s c \<longleftrightarrow> cond_mutex c = latch_mutex s \<and> cond_pc c = (\<lambda>t. abs_pc (latch_pc s t)) \<and> cond_faults c = latch_faults s"

definition to_condition :: "CountDownLatch \<Rightarrow> Condition" where
  "to_condition s = \<lparr>cond_mutex = latch_mutex s, cond_pc = (\<lambda>t. abs_pc (latch_pc s t)),
     cond_faults = latch_faults s, wait_answer = (\<lambda>_. None)\<rparr>"

lemma abs_pc_facts [simp]:
  "c_owning (abs_pc p) = owning p" "c_recorded (abs_pc p) = recorded p" "abs_pc p = C_out \<longleftrightarrow> p = Outside"
  "abs_pc p = C_blocked w \<longleftrightarrow> p = Blocked \<and> w = Untimed"
  by (cases p; auto)+

lemma mutex_inv_sim: "sim s c \<Longrightarrow> mutex_inv s \<longleftrightarrow> cond_inv c"
  by (simp add: sim_def mutex_inv_def cond_inv_def)

lemma sim_to_condition: "sim s (to_condition s)"
  by (simp add: sim_def to_condition_def)

lemma sim_goto:
  "sim s c \<Longrightarrow> sim (goto t p s) (c_goto t (abs_pc p) c)"
  by (auto simp: sim_def goto_def c_goto_def fun_eq_iff)

lemma sim_fields:
  "sim s c \<Longrightarrow> sim (s\<lparr>latch_mutex := m\<rparr>) (c\<lparr>cond_mutex := m\<rparr>)"
  "sim (s\<lparr>latch_count := n\<rparr>) c = sim s c" "sim (s\<lparr>decrements := d\<rparr>) c = sim s c"
  "sim (s\<lparr>returned_waits := r\<rparr>) c = sim s c" "sim s (c\<lparr>wait_answer := w\<rparr>) = sim s c"
  "sim s c \<Longrightarrow> sim (s\<lparr>latch_faults := F\<rparr>) (c\<lparr>cond_faults := F\<rparr>)"
  by (simp_all add: sim_def)

lemma sim_stay: "sim s c \<Longrightarrow> abs_pc p = abs_pc (latch_pc s t) \<Longrightarrow> sim (goto t p s) c"
  by (auto simp: sim_def goto_def fun_eq_iff)

lemma sim_NotifyAll: "sim s c \<Longrightarrow> sim (NotifyAll s) (Condition_NotifyAll c)"
proof -
  have "abs_pc (if p = Blocked then Woken else p) = (case abs_pc p of C_blocked w \<Rightarrow> C_awake False | q \<Rightarrow> q)" for p
    by (cases p) auto
  then show "sim s c \<Longrightarrow> sim (NotifyAll s) (Condition_NotifyAll c)"
    by (simp add: sim_def NotifyAll_def Condition_NotifyAll_def)
qed

text \<open>Every access of the latch is one of the condition, or changes only what is the latch's own.\<close>

lemma latch_act_sim:
  assumes sim: "sim s c" and act: "latch_act bld t s s'"
  shows "\<exists>c'. sim s' c' \<and> (cond_act bld t c c' \<or> c' = c)"
proof -
  have m: "cond_mutex c = latch_mutex s" and pc: "cond_pc c t = abs_pc (latch_pc s t)" for t
    using sim by (simp_all add: sim_def)
  show ?thesis using act
  proof (rule latch_actE)
    fix oper m' assume t: "s' = goto t (Entering oper) (s\<lparr>latch_mutex := m'\<rparr>)" "0 < t" "latch_pc s t = Outside"
      "std_lock t (latch_mutex s) = Some m'"
    have "cond_act bld t c (c_goto t C_locked (c\<lparr>cond_mutex := m'\<rparr>))"
      by (rule guard_lock) (simp_all add: t m pc)
    then show ?thesis using sim_goto [OF sim_fields(1) [OF sim], of t "Entering oper" m'] by (auto simp: t(1))
  next
    fix oper assume t: "s' = goto t (Inside oper) (s\<lparr>latch_mutex := AssignHolder t (latch_mutex s)\<rparr>)" "latch_pc s t = Entering oper"
    have "cond_act bld t c (c_goto t C_inside (c\<lparr>cond_mutex := AssignHolder t (cond_mutex c)\<rparr>))"
      by (rule guard_assign) (simp add: t pc)
    then show ?thesis using sim_goto [OF sim_fields(1) [OF sim], of t "Inside oper" "AssignHolder t (latch_mutex s)"] by (auto simp: t(1) m)
  next
    assume t: "s' = Wait_body bld t s" "latch_pc s t = Inside Op_Wait"
    have act: "cond_act bld t c (Condition_wait bld Untimed t c)" by (rule call_wait) (simp add: t pc)
    show ?thesis
    proof (cases "latch_count s > 0")
      case True
      have "sim s' (Condition_wait bld Untimed t c)"
        using sim_goto [OF sim_fields(1) [OF sim], of t Unassigned "UnAssignHolder (latch_mutex s)"]
          sim_fields(6) [OF sim, of "insert t (latch_faults s)"] sim
        by (auto simp: t(1) True Wait_body_def Condition_wait_def m sim_def [of s c] split: sum.split)
      then show ?thesis using act by blast
    next
      case False
      then have "sim s' c" using sim_stay [OF sim, of "Leaving Op_Wait" t] by (simp add: t Wait_body_def)
      then show ?thesis by blast
    qed
  next
    assume t: "s' = CountDown_body t s" "latch_pc s t = Inside Op_CountDown"
    let ?s1 = "s\<lparr>latch_count := latch_count s - 1, decrements := Suc (decrements s)\<rparr>"
    have s1: "sim ?s1 c" using sim by (simp add: sim_fields)
    show ?thesis
    proof (cases "latch_count s = 1")
      case True
      have "sim s' (Condition_NotifyAll c)"
        using sim_stay [OF sim_NotifyAll [OF s1], of "Leaving Op_CountDown" t]
        by (simp add: t True CountDown_body_def NotifyAll_def Let_def)
      moreover have "cond_act bld t c (Condition_NotifyAll c)" by (rule call_notify_all) (simp add: t pc)
      ultimately show ?thesis by blast
    next
      case False
      have "sim s' c" using sim_stay [OF s1, of "Leaving Op_CountDown" t] False by (simp add: t CountDown_body_def Let_def)
      then show ?thesis by blast
    qed
  next
    assume t: "s' = GetCount_body t s" "latch_pc s t = Inside Op_GetCount"
    then have "sim s' c" using sim_stay [OF sim, of "Leaving Op_GetCount" t] by (simp add: GetCount_body_def sim_def goto_def)
    then show ?thesis by blast
  next
    assume t: "s' = goto t Blocked (s\<lparr>latch_mutex := std_unlock (latch_mutex s)\<rparr>)" "latch_pc s t = Unassigned"
    have "cond_act bld t c (c_goto t (C_blocked Untimed) (c\<lparr>cond_mutex := std_unlock (cond_mutex c)\<rparr>))"
      by (rule wait_block) (simp add: t pc)
    then show ?thesis using sim_goto [OF sim_fields(1) [OF sim], of t Blocked "std_unlock (latch_mutex s)"] by (auto simp: t(1) m)
  next
    assume t: "s' = goto t Woken s" "latch_pc s t = Blocked"
    have "cond_act bld t c (c_goto t (C_awake False) c)" by (rule wait_spurious [of _ _ Untimed]) (simp add: t pc)
    then show ?thesis using sim_goto [OF sim, of t Woken] by (auto simp: t(1))
  next
    fix m' assume t: "s' = goto t Relocked (s\<lparr>latch_mutex := m'\<rparr>)" "latch_pc s t = Woken" "std_lock t (latch_mutex s) = Some m'"
    have "cond_act bld t c (c_goto t (C_relocked False) (c\<lparr>cond_mutex := m'\<rparr>))"
      by (rule wait_relock) (simp_all add: t m pc)
    then show ?thesis using sim_goto [OF sim_fields(1) [OF sim], of t Relocked m'] by (auto simp: t(1))
  next
    assume t: "s' = goto t (Inside Op_Wait) (s\<lparr>latch_mutex := AssignHolder t (latch_mutex s)\<rparr>)" "latch_pc s t = Relocked"
    let ?c = "c_goto t C_inside (c\<lparr>cond_mutex := AssignHolder t (cond_mutex c), wait_answer := (wait_answer c)(t := Some False)\<rparr>)"
    have "cond_act bld t c ?c" using wait_reassign [of c t False bld] by (simp add: t pc)
    moreover have "sim s' ?c"
      using sim_goto [OF sim_fields(1) [OF sim], of t "Inside Op_Wait" "AssignHolder t (latch_mutex s)"]
      by (simp add: t(1) m sim_def c_goto_def)
    ultimately show ?thesis by blast
  next
    fix oper assume t: "s' = goto t (Unlocking oper) (s\<lparr>latch_mutex := UnAssignHolder (latch_mutex s)\<rparr>)" "latch_pc s t = Leaving oper"
    have "cond_act bld t c (c_goto t C_unlocking (c\<lparr>cond_mutex := UnAssignHolder (cond_mutex c)\<rparr>))"
      by (rule guard_unassign) (simp add: t pc)
    then show ?thesis using sim_goto [OF sim_fields(1) [OF sim], of t "Unlocking oper" "UnAssignHolder (latch_mutex s)"] by (auto simp: t(1) m)
  next
    fix oper assume t: "s' = goto t Outside (s\<lparr>latch_mutex := std_unlock (latch_mutex s),
          returned_waits := (if oper = Op_Wait then insert t (returned_waits s) else returned_waits s)\<rparr>)"
      "latch_pc s t = Unlocking oper"
    have "cond_act bld t c (c_goto t C_out (c\<lparr>cond_mutex := std_unlock (cond_mutex c)\<rparr>))"
      by (rule guard_unlock) (simp add: t pc)
    moreover have "sim s' (c_goto t C_out (c\<lparr>cond_mutex := std_unlock (cond_mutex c)\<rparr>))"
      using sim_goto [OF sim_fields(1) [OF sim], of t Outside "std_unlock (latch_mutex s)"]
      by (simp add: t(1) m sim_def goto_def)
    ultimately show ?thesis by blast
  qed
qed

lemma mutex_inv_act: "mutex_inv s \<Longrightarrow> latch_act bld t s s' \<Longrightarrow> mutex_inv s'"
proof -
  assume inv: "mutex_inv s" and act: "latch_act bld t s s'"
  obtain c where c: "sim s' c" "cond_act bld t (to_condition s) c \<or> c = to_condition s"
    using latch_act_sim [OF sim_to_condition act] by blast
  have "cond_inv (to_condition s)" using inv mutex_inv_sim [OF sim_to_condition] by blast
  then have "cond_inv c" using c(2) cond_inv_act by auto
  then show "mutex_inv s'" using mutex_inv_sim [OF c(1)] by blast
qed

subsection \<open>The count\<close>

lemma count_inv_act:
  assumes mutex: "mutex_inv s" and inv: "count_inv n s" and act: "latch_act bld t s s'"
  shows "count_inv n s'"
  using act
proof (rule latch_actE)
  assume t: "s' = Wait_body bld t s" "latch_pc s t = Inside Op_Wait"
  have "IsLockedByThisThread t (latch_mutex s)"
    using mutex_inv_recorded [OF mutex, of t] t(2) by (simp add: IsLockedByThisThread_def)
  then show ?thesis
    using t inv by (auto simp: Wait_body_def AssertLocked_def count_inv_def goto_def)
next
  assume t: "s' = CountDown_body t s" "latch_pc s t = Inside Op_CountDown"
  have pc: "latch_pc s' u = (if u = t then Leaving Op_CountDown
      else if latch_count s = 1 \<and> latch_pc s u = Blocked then Woken else latch_pc s u)" for u
    by (simp add: t(1) CountDown_body_def NotifyAll_def goto_def Let_def)
  have rest: "latch_count s' = latch_count s - 1" "decrements s' = Suc (decrements s)" "returned_waits s' = returned_waits s"
    by (simp_all add: t(1) CountDown_body_def NotifyAll_def goto_def Let_def)
  have un: "latch_pc s u \<noteq> Unassigned" for u
    using mutex_inv_held [OF mutex, of t] mutex_inv_held [OF mutex, of u] t(2) by auto
  have "0 < latch_count s'" if "must_wait (latch_pc s' u)" for u
  proof -
    have "latch_count s \<noteq> 1" "must_wait (latch_pc s u)"
      using that un [of u] by (cases "latch_pc s u"; simp add: pc split: if_splits)+
    then show ?thesis using inv rest by (fastforce simp: count_inv_def)
  qed
  moreover have "latch_count s' \<le> 0" if "done_waiting (latch_pc s' u) \<or> u \<in> returned_waits s'" for u
  proof -
    have "done_waiting (latch_pc s u) \<or> u \<in> returned_waits s"
      using that by (auto simp: pc rest split: if_splits)
    then show ?thesis using inv rest by (auto simp: count_inv_def)
  qed
  ultimately show ?thesis using inv rest by (auto simp: count_inv_def)
next
  fix oper assume t: "s' = goto t Outside (s\<lparr>latch_mutex := std_unlock (latch_mutex s),
          returned_waits := (if oper = Op_Wait then insert t (returned_waits s) else returned_waits s)\<rparr>)"
    and "latch_pc s t = Unlocking oper"
  then have "oper = Op_Wait \<Longrightarrow> latch_count s \<le> 0" using inv unfolding count_inv_def by (metis done_waiting.simps(2))
  then show ?thesis using inv by (auto simp: t(1) count_inv_def goto_def)
next
  assume t: "s' = goto t Blocked (s\<lparr>latch_mutex := std_unlock (latch_mutex s)\<rparr>)" "latch_pc s t = Unassigned"
  then have "0 < latch_count s" using inv unfolding count_inv_def by (metis must_wait.simps(1))
  then show ?thesis using inv by (auto simp: t(1) count_inv_def goto_def)
next
  fix oper assume t: "s' = goto t (Unlocking oper) (s\<lparr>latch_mutex := UnAssignHolder (latch_mutex s)\<rparr>)"
    "latch_pc s t = Leaving oper"
  then have "oper = Op_Wait \<Longrightarrow> latch_count s \<le> 0" using inv unfolding count_inv_def by (metis done_waiting.simps(1))
  then show ?thesis using inv by (auto simp: t(1) count_inv_def goto_def)
qed (use inv in \<open>auto simp: count_inv_def GetCount_body_def goto_def split: if_splits\<close>)

subsection \<open>The latch as an invariant system\<close>

lemma mutex_inv_step: "mutex_inv s \<Longrightarrow> latch_step bld s s' \<Longrightarrow> mutex_inv s'"
  by (auto simp: latch_step_def intro: mutex_inv_act)

lemma count_inv_step: "mutex_inv s \<Longrightarrow> count_inv n s \<Longrightarrow> latch_step bld s s' \<Longrightarrow> count_inv n s'"
  by (auto simp: latch_step_def intro: count_inv_act)

lemma latch_count_step: "latch_step bld s s' \<Longrightarrow> latch_count s' \<le> latch_count s"
  unfolding latch_step_def
  by (elim exE latch_actE)
    (auto simp: Wait_body_def CountDown_body_def GetCount_body_def NotifyAll_def goto_def Let_def split: sum.splits)

interpretation latch_runs: monotone_system "latch_init n" "latch_step bld" "\<lambda>s. mutex_inv s \<and> count_inv n s" latch_count
  for n bld
proof
  show "mutex_inv s \<and> count_inv n s" if "latch_init n s" for s
    using that by (simp add: latch_init_def CountDownLatch_new_def MutexLock_new_def mutex_inv_def count_inv_def)
qed (auto intro: mutex_inv_step count_inv_step latch_count_step)

text \<open>
  What \<open>GetCount\<close> answers was the count at one moment of the call: never more than the latch was made
  for, and never less than the count is afterwards.
\<close>

definition answers_inv :: "int \<Rightarrow> CountDownLatch \<Rightarrow> bool" where
  "answers_inv n s \<longleftrightarrow> latch_count s \<le> n \<and> (\<forall>t c. count_answer s t = Some c \<longrightarrow> latch_count s \<le> c \<and> c \<le> n)"

lemma answers_step: "answers_inv n s \<Longrightarrow> latch_step bld s s' \<Longrightarrow> answers_inv n s'"
  unfolding latch_step_def
  by (elim exE latch_actE)
    (fastforce simp: answers_inv_def Wait_body_def CountDown_body_def GetCount_body_def NotifyAll_def goto_def Let_def
      split: sum.splits if_splits)+

interpretation latch_answers: invariant_system "latch_init n" "latch_step bld" "answers_inv n" for n bld
proof
  show "answers_inv n s" if "latch_init n s" for s
    using that by (simp add: latch_init_def CountDownLatch_new_def answers_inv_def)
qed (rule answers_step)

lemma GetCount_answer:
  "reach (latch_init n) (latch_step bld) s \<Longrightarrow> count_answer s t = Some c \<Longrightarrow> latch_count s \<le> c \<and> c \<le> n"
  using latch_answers.reach_inv [of n bld s] by (simp add: answers_inv_def)

subsection \<open>Progress\<close>

text \<open>
  The thread that has the mutex can always go on until it gives the mutex up, which it does by
  leaving its operation or by blocking in it.
\<close>

fun steps_left :: "pc \<Rightarrow> nat" where
  "steps_left Relocked = 6"
| "steps_left (Entering oper) = 5"
| "steps_left (Inside oper) = 4"
| "steps_left Unassigned = 3"
| "steps_left (Leaving oper) = 2"
| "steps_left (Unlocking oper) = 1"
| "steps_left _ = 0"

definition parked :: "pc \<Rightarrow> bool" where
  "parked p \<longleftrightarrow> p = Outside \<or> p = Blocked"

definition others_wait :: "tid \<Rightarrow> CountDownLatch \<Rightarrow> CountDownLatch \<Rightarrow> bool" where
  "others_wait t s s' \<longleftrightarrow> (\<forall>u. u \<noteq> t \<longrightarrow> latch_pc s' u = latch_pc s u \<or> latch_pc s u = Blocked \<and> latch_pc s' u = Woken)"

lemma others_wait_trans: "others_wait t s s1 \<Longrightarrow> others_wait t s1 s2 \<Longrightarrow> others_wait t s s2"
  unfolding others_wait_def by (metis pc.distinct(33))

lemma owner_act:
  assumes inv: "mutex_inv s" and own: "owning (latch_pc s t)"
  shows "\<exists>s'. latch_act bld t s s' \<and> others_wait t s s'
    \<and> (parked (latch_pc s' t) \<and> mutex_owner (latch_mutex s') = None
       \<or> owning (latch_pc s' t) \<and> steps_left (latch_pc s' t) < steps_left (latch_pc s t))"
proof (cases "latch_pc s t")
  case (Entering oper)
  show ?thesis by (rule exI, rule conjI, rule act_assign [OF Entering]) (simp add: Entering goto_def others_wait_def)
next
  case (Inside oper)
  show ?thesis
  proof (cases oper)
    case Op_Wait
    have "AssertLocked bld t (latch_mutex s) = Inr ()"
      using mutex_inv_recorded [OF inv, of t] by (simp add: Inside AssertLocked_def IsLockedByThisThread_def)
    then have "others_wait t s (Wait_body bld t s)" "owning (latch_pc (Wait_body bld t s) t)
        \<and> steps_left (latch_pc (Wait_body bld t s) t) < steps_left (latch_pc s t)"
      by (simp_all add: Inside Op_Wait Wait_body_def goto_def others_wait_def)
    then show ?thesis using act_wait [OF Inside [unfolded Op_Wait]] by blast
  next
    case Op_CountDown
    show ?thesis by (rule exI, rule conjI, rule act_count_down [OF Inside [unfolded Op_CountDown]])
        (auto simp: Inside Op_CountDown CountDown_body_def NotifyAll_def goto_def others_wait_def Let_def)
  next
    case Op_GetCount
    show ?thesis by (rule exI, rule conjI, rule act_get_count [OF Inside [unfolded Op_GetCount]])
        (simp add: Inside Op_GetCount GetCount_body_def goto_def others_wait_def)
  qed
next
  case Relocked
  show ?thesis by (rule exI, rule conjI, rule act_reassign [OF Relocked]) (simp add: Relocked goto_def others_wait_def)
next
  case (Leaving oper)
  show ?thesis by (rule exI, rule conjI, rule act_unassign [OF Leaving]) (simp add: Leaving goto_def others_wait_def)
next
  case (Unlocking oper)
  show ?thesis by (rule exI, rule conjI, rule act_unlock [OF Unlocking])
      (simp add: Unlocking goto_def std_unlock_def others_wait_def parked_def)
next
  case Unassigned
  show ?thesis by (rule exI, rule conjI, rule act_block [OF Unassigned])
      (simp add: Unassigned goto_def std_unlock_def others_wait_def parked_def)
qed (use own in simp_all)

lemma owner_parks:
  assumes "mutex_inv s" and "owning (latch_pc s t)"
  shows "\<exists>s'. (latch_cont bld)\<^sup>*\<^sup>* s s' \<and> others_wait t s s' \<and> parked (latch_pc s' t) \<and> mutex_owner (latch_mutex s') = None"
  using assms
proof (induction "steps_left (latch_pc s t)" arbitrary: s rule: less_induct)
  case less
  obtain s1 where s1: "latch_act bld t s s1" "others_wait t s s1"
      "parked (latch_pc s1 t) \<and> mutex_owner (latch_mutex s1) = None
       \<or> owning (latch_pc s1 t) \<and> steps_left (latch_pc s1 t) < steps_left (latch_pc s t)"
    using owner_act [OF less.prems, of bld] by blast
  then have cont: "latch_cont bld s s1" using less.prems(2) by (intro latch_contI) auto
  show ?case
  proof (cases "owning (latch_pc s1 t)")
    case False
    then show ?thesis using s1(2,3) cont by blast
  next
    case True
    then have "steps_left (latch_pc s1 t) < steps_left (latch_pc s t)" using s1(3) by (auto simp: parked_def)
    from less.hyps [OF this mutex_inv_act [OF less.prems(1) s1(1)] True]
    show ?thesis using s1(2) cont others_wait_trans by (meson converse_rtranclp_into_rtranclp)
  qed
qed

text \<open>Once the count is down nobody blocks, and everyone leaves.\<close>

lemma everyone_leaves:
  assumes inv: "mutex_inv s" "count_inv n s" and zero: "latch_count s \<le> 0"
  shows "\<exists>s'. (latch_cont bld)\<^sup>*\<^sup>* s s' \<and> latch_pc s' t = Outside"
proof -
  have leaves: "\<exists>s2. (latch_cont bld)\<^sup>*\<^sup>* s1 s2 \<and> others_wait u s1 s2 \<and> latch_pc s2 u = Outside \<and> mutex_owner (latch_mutex s2) = None
      \<and> mutex_inv s2 \<and> count_inv n s2 \<and> latch_count s2 \<le> 0"
    if at: "mutex_inv s1" "count_inv n s1" "latch_count s1 \<le> 0" "owning (latch_pc s1 u)" for s1 u
  proof -
    obtain s2 where s2: "(latch_cont bld)\<^sup>*\<^sup>* s1 s2" "others_wait u s1 s2" "parked (latch_pc s2 u)"
        "mutex_owner (latch_mutex s2) = None" using owner_parks [OF at(1,4)] by blast
    then have run: "mutex_inv s2" "count_inv n s2" "latch_count s2 \<le> 0"
      using latch_runs.run_inv [OF latch_cont_run [OF s2(1)]] latch_runs.run_level [OF latch_cont_run [OF s2(1)]] at
      by fastforce+
    then have "latch_pc s2 u \<noteq> Blocked" unfolding count_inv_def by (metis must_wait.simps(2) not_less)
    then show ?thesis using s2 run by (auto simp: parked_def)
  qed
  obtain s1 where s1: "(latch_cont bld)\<^sup>*\<^sup>* s s1" "latch_pc s1 t = Outside \<or> latch_pc s1 t = latch_pc s t \<or> latch_pc s1 t = Woken"
      "mutex_owner (latch_mutex s1) = None" "mutex_inv s1" "count_inv n s1" "latch_count s1 \<le> 0"
  proof (cases "mutex_owner (latch_mutex s)")
    case (Some u)
    then have "owning (latch_pc s u)" using inv(1) by (simp add: mutex_inv_def)
    from leaves [OF inv zero this] that show ?thesis unfolding others_wait_def by metis
  qed (use that inv zero in blast)
  show ?thesis
  proof (cases "latch_pc s1 t = Woken")
    case True
    let ?s2 = "goto t Relocked (s1\<lparr>latch_mutex := (latch_mutex s1)\<lparr>mutex_owner := Some t\<rparr>\<rparr>)"
    have act: "latch_act bld t s1 ?s2"
      by (rule act_relock [OF True]) (simp add: std_lock_def s1(3))
    then have cont: "latch_cont bld s1 ?s2" using True by (intro latch_contI) auto
    have "latch_count ?s2 \<le> 0" "owning (latch_pc ?s2 t)" using s1(6) by (simp_all add: goto_def)
    from leaves [OF mutex_inv_act [OF s1(4) act] count_inv_act [OF s1(4,5) act] this]
    show ?thesis using s1(1) cont by (meson rtranclp.rtrancl_into_rtrancl rtranclp_trans)
  next
    case False
    have "\<not> must_wait (latch_pc s1 t)" using s1(5,6) unfolding count_inv_def by fastforce
    moreover have "\<not> owning (latch_pc s1 t)" using s1(3,4) by (simp add: mutex_inv_def)
    ultimately have "latch_pc s1 t = Outside" using False by (cases "latch_pc s1 t") simp_all
    then show ?thesis using s1(1) by blast
  qed
qed

subsection \<open>Properties\<close>

text \<open>
  C20: The latch uses the condition by its rules only: whatever threads calling Wait, CountDown and
  GetCount bring about is a state that the machine of \<open>MutexLock\<close> and \<open>Condition\<close> can reach with each
  thread in the same place and the mutex in the same state.
\<close>

theorem latch_refines_condition:
  assumes "reach (latch_init n) (latch_step bld) s"
  shows "\<exists>c. reach cond_init (cond_step bld) c \<and> sim s c"
  using assms
proof (induction rule: reach.induct)
  case (reach_init s)
  then have "sim s Condition_new" by (simp add: latch_init_def CountDownLatch_new_def Condition_new_def sim_def)
  moreover have "reach cond_init (cond_step bld) Condition_new" by (rule reach.reach_init) (simp add: cond_init_def)
  ultimately show ?case by blast
next
  case (reach_step s t)
  then obtain c u where "reach cond_init (cond_step bld) c" "sim s c" "latch_act bld u s t"
    by (auto simp: latch_step_def)
  moreover from this obtain c' where "sim t c'" "cond_act bld u c c' \<or> c' = c" using latch_act_sim by blast
  ultimately have "reach cond_init (cond_step bld) c' \<and> sim t c'"
    using reach.reach_step [of cond_init "cond_step bld" c c'] unfolding cond_step_def by blast
  then show ?case ..
qed

text \<open>
  C9: In every state that threads calling Wait, CountDown and GetCount can reach, with every
  interleaving, at most one thread is between lock and unlock, IsLockedByThisThread answers yes
  exactly for the thread inside (in particular never for one that waits on the condition), and
  the assertion in Condition::Wait has never failed.
\<close>

theorem latch_mutual_exclusion:
  assumes "reach (latch_init n) (latch_step bld) s"
  shows "latch_faults s = {}
    \<and> (owning (latch_pc s t) \<and> owning (latch_pc s u) \<longrightarrow> t = u)
    \<and> (0 < t \<longrightarrow> IsLockedByThisThread t (latch_mutex s) = recorded (latch_pc s t))
    \<and> ((\<forall>v. latch_pc s v = Outside) \<longrightarrow> MutexLock_destroy bld (latch_mutex s) = Inr ())"
proof -
  have inv: "mutex_inv s" using latch_runs.reach_inv [OF assms] by blast
  have "mutex_holder (latch_mutex s) = 0" if "\<forall>v. latch_pc s v = Outside"
    using inv that unfolding mutex_inv_def by (metis neq0_conv recorded.simps(3))
  then show ?thesis
    using inv by (auto simp: mutex_inv_def IsLockedByThisThread_def MutexLock_destroy_def)
qed

text \<open>
  C8: Wait returns only when CountDown has run at least as often as the latch was made for, and
  the count stays down from then on.
\<close>

theorem latch_wait_is_late_enough:
  assumes "reach (latch_init n) (latch_step bld) s" and "t \<in> returned_waits s" and "(latch_step bld)\<^sup>*\<^sup>* s s'"
  shows "n \<le> int (decrements s) \<and> latch_count s = n - int (decrements s) \<and> latch_count s' \<le> latch_count s
    \<and> latch_count s' \<le> 0"
proof -
  have inv: "mutex_inv s \<and> count_inv n s" using latch_runs.reach_inv [OF assms(1)] .
  moreover have "latch_count s' \<le> latch_count s" using latch_runs.run_level [OF assms(3) inv] .
  ultimately show ?thesis using assms(2) by (auto simp: count_inv_def)
qed

text \<open>
  C7: No wake-up is lost. Once CountDown has run as often as the latch was made for, no thread is
  blocked or about to block, and from every such state every thread that is inside an operation
  can run to its end, whatever the others were doing, and without anybody beginning a new one.
\<close>

theorem latch_no_lost_wakeup:
  assumes "reach (latch_init n) (latch_step bld) s" and "n \<le> int (decrements s)"
  shows "\<not> must_wait (latch_pc s t) \<and> (\<exists>s'. (latch_cont bld)\<^sup>*\<^sup>* s s' \<and> latch_pc s' t = Outside)"
proof -
  have inv: "mutex_inv s" "count_inv n s" using latch_runs.reach_inv [OF assms(1)] by blast+
  then have zero: "latch_count s \<le> 0" using assms(2) by (simp add: count_inv_def)
  then have "\<not> must_wait (latch_pc s t)" using inv(2) unfolding count_inv_def by fastforce
  then show ?thesis using everyone_leaves [OF inv zero] by blast
qed

subsection \<open>A concrete run: one thread counts down, then another waits\<close>

definition quiet :: "int \<Rightarrow> CountDownLatch \<Rightarrow> bool" where
  "quiet n s \<longleftrightarrow> reach (latch_init n) (latch_step Debug) s \<and> (\<forall>u. latch_pc s u = Outside) \<and> mutex_owner (latch_mutex s) = None"

lemma quiet_new: "quiet n (CountDownLatch_new n)"
  by (auto simp: quiet_def CountDownLatch_new_def MutexLock_new_def latch_init_def intro!: reach_init)

lemma quiet_enter:
  assumes "quiet n s" and "0 < (t :: tid)"
  shows "\<exists>s'. reach (latch_init n) (latch_step Debug) s' \<and> latch_pc s' = (\<lambda>u. if u = t then Inside oper else Outside)
    \<and> latch_count s' = latch_count s \<and> decrements s' = decrements s \<and> returned_waits s' = returned_waits s"
proof -
  let ?s1 = "goto t (Entering oper) (s\<lparr>latch_mutex := (latch_mutex s)\<lparr>mutex_owner := Some t\<rparr>\<rparr>)"
  have "latch_step Debug s ?s1" using assms by (intro latch_stepI [of _ t] act_lock) (simp_all add: quiet_def std_lock_def)
  then have r1: "reach (latch_init n) (latch_step Debug) ?s1" using assms(1) by (auto simp: quiet_def intro: reach_step)
  have "latch_pc ?s1 t = Entering oper" by (simp add: goto_def)
  note r2 = reach_step [OF r1 latch_stepI [OF act_assign [OF this]]]
  show ?thesis
    by (rule exI, rule conjI, rule r2) (use assms(1) in \<open>auto simp: goto_def quiet_def fun_eq_iff\<close>)
qed

lemma quiet_leave:
  assumes "reach (latch_init n) (latch_step Debug) s" and "latch_pc s = (\<lambda>u. if u = t then Leaving oper else Outside)"
  shows "\<exists>s'. quiet n s' \<and> latch_count s' = latch_count s \<and> decrements s' = decrements s
    \<and> returned_waits s' = (if oper = Op_Wait then insert t (returned_waits s) else returned_waits s)"
proof -
  have "latch_pc s t = Leaving oper" using assms(2) by simp
  note r1 = reach_step [OF assms(1) latch_stepI [OF act_unassign [OF this]]]
  let ?s1 = "goto t (Unlocking oper) (s\<lparr>latch_mutex := UnAssignHolder (latch_mutex s)\<rparr>)"
  have "latch_pc ?s1 t = Unlocking oper" by (simp add: goto_def)
  note r2 = reach_step [OF r1 latch_stepI [OF act_unlock [OF this]]]
  show ?thesis unfolding quiet_def
    by (rule exI, rule conjI, rule conjI, rule r2) (use assms(2) in \<open>auto simp: goto_def std_unlock_def\<close>)
qed

lemma quiet_count_down:
  assumes "quiet n s" and "0 < (t :: tid)"
  shows "\<exists>s'. quiet n s' \<and> latch_count s' = latch_count s - 1 \<and> decrements s' = Suc (decrements s)"
proof -
  obtain s1 where s1: "reach (latch_init n) (latch_step Debug) s1"
      "latch_pc s1 = (\<lambda>u. if u = t then Inside Op_CountDown else Outside)" "latch_count s1 = latch_count s"
      "decrements s1 = decrements s"
    using quiet_enter [OF assms, of Op_CountDown] by blast
  have "latch_pc s1 t = Inside Op_CountDown" using s1(2) by simp
  note r2 = reach_step [OF s1(1) latch_stepI [OF act_count_down [OF this]]]
  have "latch_pc (CountDown_body t s1) = (\<lambda>u. if u = t then Leaving Op_CountDown else Outside)"
    using s1(2) by (auto simp: CountDown_body_def goto_def NotifyAll_def Let_def)
  from quiet_leave [OF r2 this] show ?thesis
    using s1(3,4) by (auto simp: CountDown_body_def goto_def NotifyAll_def Let_def split: if_splits)
qed

lemma quiet_wait:
  assumes "quiet n s" and "0 < (t :: tid)" and "latch_count s \<le> 0"
  shows "\<exists>s'. quiet n s' \<and> decrements s' = decrements s \<and> t \<in> returned_waits s'"
proof -
  obtain s1 where s1: "reach (latch_init n) (latch_step Debug) s1"
      "latch_pc s1 = (\<lambda>u. if u = t then Inside Op_Wait else Outside)" "latch_count s1 = latch_count s"
      "decrements s1 = decrements s"
    using quiet_enter [OF assms(1,2), of Op_Wait] by blast
  have "latch_pc s1 t = Inside Op_Wait" using s1(2) by simp
  note r2 = reach_step [OF s1(1) latch_stepI [OF act_wait [OF this]]]
  have w: "Wait_body Debug t s1 = goto t (Leaving Op_Wait) s1" using s1(3) assms(3) by (simp add: Wait_body_def)
  have "latch_pc (Wait_body Debug t s1) = (\<lambda>u. if u = t then Leaving Op_Wait else Outside)"
    using s1(2) by (auto simp: w goto_def)
  from quiet_leave [OF r2 this] show ?thesis using s1(4) by (auto simp: w goto_def)
qed

lemma counted_and_waited: "\<exists>s. quiet 1 s \<and> decrements s = 1 \<and> 7 \<in> returned_waits s"
proof -
  obtain s1 where s1: "quiet 1 s1" "latch_count s1 = 0" "decrements s1 = 1"
    using quiet_count_down [OF quiet_new, of 8 1] by (auto simp: CountDownLatch_new_def)
  then show ?thesis using quiet_wait [OF s1(1), of 7] by auto
qed

theorem latch_mutual_exclusion_witness:
  "\<exists>s. reach (latch_init 1) (latch_step Debug) s \<and> MutexLock_destroy Debug (latch_mutex s) = Inr ()"
proof -
  obtain s where s: "quiet 1 s" using counted_and_waited by blast
  then have "reach (latch_init 1) (latch_step Debug) s" by (simp add: quiet_def)
  from latch_mutual_exclusion [OF this] this s show ?thesis by (auto simp: quiet_def)
qed

theorem latch_wait_is_late_enough_witness:
  "\<exists>s. reach (latch_init 1) (latch_step Debug) s \<and> 7 \<in> returned_waits s \<and> 1 \<le> int (decrements s)"
proof -
  obtain s where s: "quiet 1 s" "7 \<in> returned_waits s" using counted_and_waited by blast
  then have "reach (latch_init 1) (latch_step Debug) s" by (simp add: quiet_def)
  from latch_wait_is_late_enough [OF this s(2)] this s(2) show ?thesis by blast
qed

theorem latch_no_lost_wakeup_witness:
  "\<exists>s. reach (latch_init 1) (latch_step Debug) s \<and> \<not> must_wait (latch_pc s 7)"
proof -
  obtain s where s: "quiet 1 s" "decrements s = 1" using counted_and_waited by blast
  then have "reach (latch_init 1) (latch_step Debug) s" by (simp add: quiet_def)
  from latch_no_lost_wakeup [OF this] this s(2) show ?thesis by auto
qed


theorem latch_refines_condition_witness:
  "\<exists>s c. reach cond_init (cond_step Debug) c \<and> sim s c \<and> 7 \<in> returned_waits s"
proof -
  obtain s where s: "quiet 1 s" "7 \<in> returned_waits s" using counted_and_waited by blast
  then have "reach (latch_init 1) (latch_step Debug) s" by (simp add: quiet_def)
  from latch_refines_condition [OF this] s(2) show ?thesis by blast
qed

end
