(* ===== verification/Base_Thread.thy ===== *)
theory Base_Thread
  imports Base_Sync Base_CurrentThread "HOL-Library.Word"
begin

section \<open>base/thread: one thread object and the thread it starts\<close>

text \<open>
  \<open>Thread\<close> (\<open>src/base/thread.h\<close>, \<open>src/base/thread.cpp\<close>) starts a \<open>std::thread\<close> and returns from
  \<open>Start\<close> when the new thread has stored its id, which the two agree on through a \<open>CountDownLatch\<close>.
  The machine composes the model of the latch with the code of the thread that owns the object
  (thread id \<open>c\<close>) and that of the new thread (thread id \<open>k\<close>). One step is one access to shared
  state; inside \<open>latch_.Wait()\<close> and \<open>latch_.CountDown()\<close> it is a step of the latch.
\<close>

datatype starter_pc = Not_started | Start_threw | Calling_Wait | In_Wait | Wait_done | Started_ok | In_Join | Joined_ok

datatype child_pc = No_thread | Child_begin | Child_named | Calling_CountDown | In_CountDown | Calling_func
  | Running_func | Func_returned

record Thread =
  started :: bool
  joined :: bool
  std_thread :: "bool option"
  thread_tid :: int
  thread_name :: string
  thread_latch :: CountDownLatch
  starter :: starter_pc
  child :: child_pc
  child_locals :: CurrentThread
  destroyed :: bool
  thread_fault :: "fault option"

text \<open>
  \<open>std_thread\<close> is the pointer \<open>thread_\<close>: null, or whether the \<open>std::thread\<close> it owns is joinable.
\<close>

subsection \<open>Construction\<close>

definition SetDefaultName :: "32 word \<Rightarrow> string \<Rightarrow> 32 word \<times> string" where
  "SetDefaultName num_created name =
     (let num = num_created + 1
      in (num, if name = [] then ''Thread'' @ dec_int (sint num) else name))"

definition Thread_new :: "32 word \<Rightarrow> string \<Rightarrow> 32 word \<times> Thread" where
  "Thread_new num_created name =
     (let (num, default_name) = SetDefaultName num_created name
      in (num, \<lparr>started = False, joined = False, std_thread = None, thread_tid = 0, thread_name = default_name,
            thread_latch = CountDownLatch_new 1, starter = Not_started, child = No_thread,
            child_locals = CurrentThread_init, destroyed = False, thread_fault = None\<rparr>))"

text \<open>\<open>num_created_\<close> starts at 0.\<close>

definition num_created_init :: "32 word" where
  "num_created_init = 0"

definition NumCreated :: "32 word \<Rightarrow> int" where
  "NumCreated num_created = sint num_created"

definition Thread_Started :: "Thread \<Rightarrow> bool" where
  [simp]: "Thread_Started s = started s"

definition Thread_Tid :: "Thread \<Rightarrow> int" where
  [simp]: "Thread_Tid s = thread_tid s"

definition Thread_Name :: "Thread \<Rightarrow> string" where
  [simp]: "Thread_Name s = thread_name s"

subsection \<open>The owner of the object\<close>

text \<open>
  \<open>Start\<close> up to the call of \<open>latch_.Wait()\<close>. The constructor of \<open>std::thread\<close> may throw; otherwise
  the new object replaces the old one, and destroying a \<open>std::thread\<close> that is still joinable ends
  the process. A \<open>std::thread\<close> that was just constructed is joinable, so the branch that takes
  \<open>started_\<close> back is not reached.
\<close>

definition Start_begin :: "build \<Rightarrow> bool \<Rightarrow> Thread \<Rightarrow> Thread result" where
  "Start_begin bld created s =
     bindR (assertR bld (\<not> started s)) (\<lambda>_.
       let s1 = s\<lparr>started := True\<rparr> in
       if \<not> created then Inr (s1\<lparr>starter := Start_threw\<rparr>)
       else if std_thread s1 = Some True then Inl Process_aborted
       else Inr (s1\<lparr>std_thread := Some True, child := Child_begin, child_locals := CurrentThread_init,
                   starter := Calling_Wait\<rparr>))"

definition Start_end :: "build \<Rightarrow> Thread \<Rightarrow> Thread result" where
  "Start_end bld s = bindR (assertR bld (0 < thread_tid s)) (\<lambda>_. Inr (s\<lparr>starter := Started_ok\<rparr>))"

definition Join_begin :: "build \<Rightarrow> Thread \<Rightarrow> Thread result" where
  "Join_begin bld s =
     bindR (assertR bld (started s \<and> \<not> joined s)) (\<lambda>_.
       case std_thread s of
         None \<Rightarrow> Inl Undefined_behaviour
       | Some joinable \<Rightarrow> if joinable then Inr (s\<lparr>joined := True, starter := In_Join\<rparr>) else Inl System_error)"

definition Join_end :: "Thread \<Rightarrow> Thread" where
  "Join_end s = s\<lparr>std_thread := Some False, starter := Joined_ok\<rparr>"

text \<open>The destructor, with those of \<open>thread_\<close> and of the latch's mutex.\<close>

definition Thread_destroy :: "build \<Rightarrow> Thread \<Rightarrow> Thread result" where
  "Thread_destroy bld s =
     bindR (if started s \<and> \<not> joined s
            then (case std_thread s of
                    None \<Rightarrow> Inl Undefined_behaviour
                  | Some joinable \<Rightarrow> if joinable then Inr (s\<lparr>std_thread := Some False\<rparr>) else Inl System_error)
            else Inr s) (\<lambda>s1.
     bindR (MutexLock_destroy bld (latch_mutex (thread_latch s1))) (\<lambda>_.
       if std_thread s1 = Some True then Inl Process_aborted else Inr (s1\<lparr>destroyed := True\<rparr>)))"

subsection \<open>The new thread\<close>

definition child_store_tid :: "tid \<Rightarrow> Thread \<Rightarrow> Thread" where
  "child_store_tid k s =
     (let (tid, locals) = CachedTid (int k) (child_locals s)
      in s\<lparr>thread_tid := tid, child_locals := locals, child := Child_named\<rparr>)"

definition child_store_name :: "Thread \<Rightarrow> Thread" where
  "child_store_name s =
     s\<lparr>child_locals := (child_locals s)\<lparr>t_thread_name := Thread_Name s\<rparr>, child := Calling_CountDown\<rparr>"

text \<open>\<open>func_\<close> is a member of the object.\<close>

definition child_call_func :: "Thread \<Rightarrow> Thread result" where
  "child_call_func s = (if destroyed s then Inl Undefined_behaviour else Inr (s\<lparr>child := Running_func\<rparr>))"

definition child_return :: "Thread \<Rightarrow> Thread" where
  "child_return s = s\<lparr>child_locals := (child_locals s)\<lparr>t_thread_name := ''finished''\<rparr>, child := Func_returned\<rparr>"

text \<open>An exception from \<open>func_\<close> is reported and ends the process.\<close>

definition child_throw :: "Thread \<Rightarrow> Thread result" where
  "child_throw s = Inl Process_aborted"

subsection \<open>Steps\<close>

definition after_act :: "Thread result \<Rightarrow> Thread \<Rightarrow> Thread" where
  "after_act r s = (case r of Inl e \<Rightarrow> s\<lparr>thread_fault := Some e\<rparr> | Inr s' \<Rightarrow> s')"

definition enter_latch :: "tid \<Rightarrow> latch_op \<Rightarrow> MutexLock \<Rightarrow> CountDownLatch \<Rightarrow> CountDownLatch" where
  "enter_latch t oper m l = goto t (Entering oper) (l\<lparr>latch_mutex := m\<rparr>)"

inductive thread_act :: "build \<Rightarrow> tid \<Rightarrow> tid \<Rightarrow> Thread \<Rightarrow> Thread \<Rightarrow> bool" for bld :: build and c :: tid and k :: tid where
  own_start: "starter s = Not_started \<Longrightarrow> \<not> destroyed s
    \<Longrightarrow> thread_act bld c k s (after_act (Start_begin bld created s) s)"
| own_call_wait: "starter s = Calling_Wait \<Longrightarrow> std_lock c (latch_mutex (thread_latch s)) = Some m
    \<Longrightarrow> thread_act bld c k s (s\<lparr>thread_latch := enter_latch c Op_Wait m (thread_latch s), starter := In_Wait\<rparr>)"
| own_wait: "starter s = In_Wait \<Longrightarrow> latch_act bld c (thread_latch s) l
    \<Longrightarrow> thread_act bld c k s (s\<lparr>thread_latch := l, starter := (if latch_pc l c = Outside then Wait_done else In_Wait)\<rparr>)"
| own_check: "starter s = Wait_done \<Longrightarrow> thread_act bld c k s (after_act (Start_end bld s) s)"
| own_join: "starter s = Started_ok \<Longrightarrow> \<not> destroyed s \<Longrightarrow> thread_act bld c k s (after_act (Join_begin bld s) s)"
| own_joined: "starter s = In_Join \<Longrightarrow> child s = Func_returned \<Longrightarrow> thread_act bld c k s (Join_end s)"
| own_destroy: "starter s \<in> {Not_started, Start_threw, Started_ok, Joined_ok} \<Longrightarrow> \<not> destroyed s
    \<Longrightarrow> thread_act bld c k s (after_act (Thread_destroy bld s) s)"
| new_tid: "child s = Child_begin \<Longrightarrow> thread_act bld c k s (child_store_tid k s)"
| new_name: "child s = Child_named \<Longrightarrow> thread_act bld c k s (child_store_name s)"
| new_call_count: "child s = Calling_CountDown \<Longrightarrow> std_lock k (latch_mutex (thread_latch s)) = Some m
    \<Longrightarrow> thread_act bld c k s (s\<lparr>thread_latch := enter_latch k Op_CountDown m (thread_latch s), child := In_CountDown\<rparr>)"
| new_count: "child s = In_CountDown \<Longrightarrow> latch_act bld k (thread_latch s) l
    \<Longrightarrow> thread_act bld c k s (s\<lparr>thread_latch := l, child := (if latch_pc l k = Outside then Calling_func else In_CountDown)\<rparr>)"
| new_call: "child s = Calling_func \<Longrightarrow> thread_act bld c k s (after_act (child_call_func s) s)"
| new_return: "child s = Running_func \<Longrightarrow> thread_act bld c k s (child_return s)"
| new_throw: "child s = Running_func \<Longrightarrow> thread_act bld c k s (after_act (child_throw s) s)"

text \<open>After a fault the process makes no further steps.\<close>

definition thread_step :: "build \<Rightarrow> tid \<Rightarrow> tid \<Rightarrow> Thread \<Rightarrow> Thread \<Rightarrow> bool" where
  "thread_step bld c k s s' \<longleftrightarrow> thread_fault s = None \<and> thread_act bld c k s s'"

definition thread_init :: "32 word \<Rightarrow> string \<Rightarrow> Thread \<Rightarrow> bool" where
  "thread_init num name s \<longleftrightarrow> s = snd (Thread_new num name)"

subsection \<open>The invariant\<close>

fun wait_pc :: "pc \<Rightarrow> bool" where
  "wait_pc (Entering oper) = (oper = Op_Wait)"
| "wait_pc (Inside oper) = (oper = Op_Wait)"
| "wait_pc (Leaving oper) = (oper = Op_Wait)"
| "wait_pc (Unlocking oper) = (oper = Op_Wait)"
| "wait_pc Outside = False"
| "wait_pc _ = True"

fun count_pc :: "pc \<Rightarrow> nat \<Rightarrow> bool" where
  "count_pc (Entering oper) n = (oper = Op_CountDown \<and> n = 0)"
| "count_pc (Inside oper) n = (oper = Op_CountDown \<and> n = 0)"
| "count_pc (Leaving oper) n = (oper = Op_CountDown \<and> n = 1)"
| "count_pc (Unlocking oper) n = (oper = Op_CountDown \<and> n = 1)"
| "count_pc _ n = False"

definition past_count :: "child_pc \<Rightarrow> bool" where
  "past_count p \<longleftrightarrow> p = Calling_func \<or> p = Running_func \<or> p = Func_returned"

definition past_wait :: "starter_pc \<Rightarrow> bool" where
  "past_wait p \<longleftrightarrow> p = Wait_done \<or> p = Started_ok \<or> p = In_Join \<or> p = Joined_ok"

definition not_begun :: "starter_pc \<Rightarrow> bool" where
  "not_begun p \<longleftrightarrow> p = Not_started \<or> p = Start_threw"

definition calls_inv :: "tid \<Rightarrow> tid \<Rightarrow> CountDownLatch \<Rightarrow> starter_pc \<Rightarrow> child_pc \<Rightarrow> bool" where
  "calls_inv c k l o_pc n_pc \<longleftrightarrow> mutex_inv l \<and> count_inv 1 l
     \<and> (\<forall>u. u \<noteq> c \<and> u \<noteq> k \<longrightarrow> latch_pc l u = Outside)
     \<and> (if o_pc = In_Wait then wait_pc (latch_pc l c) else latch_pc l c = Outside)
     \<and> (if n_pc = In_CountDown then count_pc (latch_pc l k) (decrements l)
        else latch_pc l k = Outside \<and> decrements l = (if past_count n_pc then 1 else 0))
     \<and> (past_wait o_pc \<or> done_waiting (latch_pc l c) \<longrightarrow> past_count n_pc)
     \<and> (not_begun o_pc \<longleftrightarrow> n_pc = No_thread)"

definition object_inv :: "tid \<Rightarrow> Thread \<Rightarrow> bool" where
  "object_inv k s \<longleftrightarrow> started s = (starter s \<noteq> Not_started)
     \<and> joined s = (starter s = In_Join \<or> starter s = Joined_ok)
     \<and> (starter s = Joined_ok \<longrightarrow> child s = Func_returned)
     \<and> (\<not> destroyed s \<longrightarrow> std_thread s = (if not_begun (starter s) then None else Some (starter s \<noteq> Joined_ok)))
     \<and> thread_tid s = (if child s = No_thread \<or> child s = Child_begin then 0 else int k)
     \<and> (child s = Child_begin \<longrightarrow> t_cached_tid (child_locals s) = 0)
     \<and> (destroyed s \<longrightarrow> starter s = Not_started \<or> starter s = Started_ok \<or> starter s = Joined_ok)"

definition fault_inv :: "Thread \<Rightarrow> bool" where
  "fault_inv s \<longleftrightarrow> (case thread_fault s of
       None \<Rightarrow> True
     | Some Undefined_behaviour \<Rightarrow> starter s = Start_threw \<or> destroyed s \<and> \<not> joined s \<and> child s = Calling_func
     | Some Process_aborted \<Rightarrow> child s = Running_func
     | _ \<Rightarrow> False)"

definition thread_inv :: "tid \<Rightarrow> tid \<Rightarrow> Thread \<Rightarrow> bool" where
  "thread_inv c k s \<longleftrightarrow> calls_inv c k (thread_latch s) (starter s) (child s) \<and> object_inv k s \<and> fault_inv s"

lemma latch_act_other:
  "latch_act bld t l l' \<Longrightarrow> u \<noteq> t \<Longrightarrow> latch_pc l' u = latch_pc l u \<or> latch_pc l u = Blocked \<and> latch_pc l' u = Woken"
  by (erule latch_actE)
    (auto simp: goto_def Wait_body_def CountDown_body_def GetCount_body_def NotifyAll_def Let_def split: sum.splits)

lemma latch_act_wait:
  assumes "latch_act bld t l l'" and "wait_pc (latch_pc l t)" and "mutex_inv l"
  shows "(wait_pc (latch_pc l' t) \<or> latch_pc l' t = Outside) \<and> decrements l' = decrements l
    \<and> (latch_pc l' t = Outside \<longrightarrow> done_waiting (latch_pc l t))
    \<and> (done_waiting (latch_pc l' t) \<longrightarrow> done_waiting (latch_pc l t) \<or> latch_count l \<le> 0 \<and> owning (latch_pc l t))"
  using assms(1)
proof (rule latch_actE)
  assume t: "l' = Wait_body bld t l" "latch_pc l t = Inside Op_Wait"
  then have "IsLockedByThisThread t (latch_mutex l)"
    using mutex_inv_recorded [OF assms(3), of t] by (simp add: IsLockedByThisThread_def)
  then show ?thesis using t by (auto simp: Wait_body_def AssertLocked_def goto_def)
qed (use assms(2) in \<open>auto simp: goto_def split: if_splits\<close>)

lemma latch_act_count:
  assumes "latch_act bld t l l'" and "count_pc (latch_pc l t) (decrements l)"
  shows "if latch_pc l' t = Outside then decrements l' = 1 else count_pc (latch_pc l' t) (decrements l')"
  using assms(1)
  by (rule latch_actE) (use assms(2) in \<open>auto simp: goto_def CountDown_body_def NotifyAll_def Let_def split: if_splits\<close>)


lemma enter_latch_act: "0 < t \<Longrightarrow> latch_pc l t = Outside \<Longrightarrow> std_lock t (latch_mutex l) = Some m
    \<Longrightarrow> latch_act bld t l (enter_latch t oper m l)"
  unfolding enter_latch_def by (rule act_lock)

lemma enter_latch_fields [simp]:
  "latch_pc (enter_latch t oper m l) = (latch_pc l)(t := Entering oper)" "decrements (enter_latch t oper m l) = decrements l"
  by (simp_all add: enter_latch_def goto_def)

text \<open>How the calls of the latch move the invariant.\<close>

lemma calls_enter_wait:
  assumes "calls_inv c k l Calling_Wait p" and "0 < c" and "c \<noteq> k" and "std_lock c (latch_mutex l) = Some m"
  shows "calls_inv c k (enter_latch c Op_Wait m l) In_Wait p"
proof -
  have inv: "mutex_inv l" "count_inv 1 l" and out: "latch_pc l c = Outside" using assms(1) by (simp_all add: calls_inv_def)
  have act: "latch_act Debug c l (enter_latch c Op_Wait m l)" by (rule enter_latch_act [OF assms(2) out assms(4)])
  from mutex_inv_act [OF inv(1) act] count_inv_act [OF inv act] show ?thesis
    using assms(1,3) by (auto simp: calls_inv_def not_begun_def past_wait_def)
qed

lemma calls_enter_count:
  assumes "calls_inv c k l p Calling_CountDown" and "0 < k" and "c \<noteq> k" and "std_lock k (latch_mutex l) = Some m"
  shows "calls_inv c k (enter_latch k Op_CountDown m l) p In_CountDown"
proof -
  have inv: "mutex_inv l" "count_inv 1 l" and out: "latch_pc l k = Outside" using assms(1) by (simp_all add: calls_inv_def)
  have act: "latch_act Debug k l (enter_latch k Op_CountDown m l)" by (rule enter_latch_act [OF assms(2) out assms(4)])
  from mutex_inv_act [OF inv(1) act] count_inv_act [OF inv act] show ?thesis
    using assms(1,3) by (auto simp: calls_inv_def past_count_def split: if_splits)
qed

lemma calls_wait:
  assumes inv: "calls_inv c k l In_Wait p" and "c \<noteq> k" and act: "latch_act bld c l l'"
  shows "calls_inv c k l' (if latch_pc l' c = Outside then Wait_done else In_Wait) p"
proof -
  have latch: "mutex_inv l" "count_inv 1 l" "wait_pc (latch_pc l c)" using inv by (simp_all add: calls_inv_def)
  note step = latch_act_wait [OF act latch(3,1)]
  have k: "latch_pc l k \<noteq> Blocked" using inv by (auto simp: calls_inv_def split: if_splits)
  have others: "latch_pc l' u = latch_pc l u" if "u \<noteq> c" for u
    using latch_act_other [OF act that] k inv that by (cases "u = k") (auto simp: calls_inv_def)
  have "past_count p" if "done_waiting (latch_pc l' c) \<or> latch_pc l' c = Outside"
  proof (cases "done_waiting (latch_pc l c)")
    case True
    then show ?thesis using inv by (simp add: calls_inv_def)
  next
    case False
    then have "latch_count l \<le> 0" "owning (latch_pc l c)" using step that by auto
    then have "decrements l \<noteq> 0" "\<not> owning (latch_pc l k)"
      using latch(1,2) assms(2) by (auto simp: count_inv_def mutex_inv_def)
    then show ?thesis using inv by (cases "latch_pc l k") (auto simp: calls_inv_def split: if_splits)
  qed
  then show ?thesis
    using inv assms(2) step others mutex_inv_act [OF latch(1) act] count_inv_act [OF latch(1,2) act]
    by (auto simp: calls_inv_def not_begun_def past_wait_def)
qed

lemma calls_count:
  assumes inv: "calls_inv c k l p In_CountDown" and "c \<noteq> k" and act: "latch_act bld k l l'"
  shows "calls_inv c k l' p (if latch_pc l' k = Outside then Calling_func else In_CountDown)"
proof -
  have latch: "mutex_inv l" "count_inv 1 l" "count_pc (latch_pc l k) (decrements l)" using inv by (simp_all add: calls_inv_def)
  note step = latch_act_count [OF act latch(3)]
  have others: "latch_pc l' u = latch_pc l u \<or> latch_pc l u = Blocked \<and> latch_pc l' u = Woken" if "u \<noteq> k" for u
    by (rule latch_act_other [OF act that])
  then have out: "latch_pc l' u = Outside" if "u \<noteq> c" "u \<noteq> k" for u
    using inv that by (fastforce simp: calls_inv_def)
  have "wait_pc (latch_pc l' c) = wait_pc (latch_pc l c)" "latch_pc l' c = Outside \<longleftrightarrow> latch_pc l c = Outside"
    "done_waiting (latch_pc l' c) = done_waiting (latch_pc l c)"
    using others [of c] assms(2) by auto
  then show ?thesis
    using inv assms(2) step out mutex_inv_act [OF latch(1) act] count_inv_act [OF latch(1,2) act]
    by (auto simp: calls_inv_def past_count_def)
qed

lemmas thread_ops = Start_begin_def Start_end_def Join_begin_def Join_end_def Thread_destroy_def child_store_tid_def
  child_store_name_def child_call_func_def child_return_def child_throw_def after_act_def Let_def

lemma holder_free: "mutex_inv l \<Longrightarrow> \<forall>u. latch_pc l u = Outside \<Longrightarrow> MutexLock_destroy bld (latch_mutex l) = Inr ()"
  unfolding mutex_inv_def MutexLock_destroy_def assertR_def by (metis neq0_conv recorded.simps(3))


lemma calls_quiet:
  assumes "calls_inv c k l o_pc p" and "o_pc \<in> {Not_started, Start_threw, Started_ok, Joined_ok}"
  shows "\<forall>u. latch_pc l u = Outside"
proof
  fix u
  have "p \<noteq> In_CountDown" using assms by (auto simp: calls_inv_def past_wait_def past_count_def not_begun_def)
  then show "latch_pc l u = Outside"
    using assms by (cases "u = c"; cases "u = k") (auto simp: calls_inv_def)
qed

lemma latch_mutex_free:
  assumes inv: "thread_inv c k s" and at: "starter s \<in> {Not_started, Start_threw, Started_ok, Joined_ok}"
  shows "MutexLock_destroy bld (latch_mutex (thread_latch s)) = Inr ()"
proof (rule holder_free)
  have calls: "calls_inv c k (thread_latch s) (starter s) (child s)" using inv by (simp add: thread_inv_def)
  then show "mutex_inv (thread_latch s)" by (simp add: calls_inv_def)
  show "\<forall>u. latch_pc (thread_latch s) u = Outside" by (rule calls_quiet [OF calls at])
qed

lemma thread_inv_destroy:
  assumes inv: "thread_inv c k s" and at: "starter s \<in> {Not_started, Start_threw, Started_ok, Joined_ok}"
    and live: "\<not> destroyed s" "thread_fault s = None"
  shows "thread_inv c k (after_act (Thread_destroy bld s) s)"
proof -
  have "MutexLock_destroy bld (latch_mutex (thread_latch s)) = Inr ()" by (rule latch_mutex_free [OF inv at])
  then have free: "MutexLock_destroy bld (latch_mutex (thread_latch (s\<lparr>std_thread := x\<rparr>))) = Inr ()" for x by simp
  have fields: "started s = (starter s \<noteq> Not_started)" "joined s = (starter s = In_Join \<or> starter s = Joined_ok)"
      "std_thread s = (if not_begun (starter s) then None else Some (starter s \<noteq> Joined_ok))"
    using inv live by (auto simp: thread_inv_def object_inv_def)
  have same: "Thread_destroy bld s = (if starter s = Start_threw then Inl Undefined_behaviour
      else Inr (s\<lparr>std_thread := (if starter s = Not_started then None else Some False), destroyed := True\<rparr>))"
    using at fields free [of "std_thread s"] free [of "Some False"]
    by (elim insertE emptyE) (simp_all add: Thread_destroy_def not_begun_def)
  show ?thesis
  proof (cases "starter s = Start_threw")
    case False
    then show ?thesis using inv at live by (auto simp: same thread_inv_def object_inv_def fault_inv_def after_act_def)
  qed (use inv in \<open>auto simp: same thread_inv_def object_inv_def fault_inv_def after_act_def\<close>)
qed

lemma thread_inv_act:
  assumes act: "thread_act bld c k s s'" and inv: "thread_inv c k s" and ids: "0 < c" "0 < k" "c \<noteq> k"
    and ok: "thread_fault s = None"
  shows "thread_inv c k s'"
  using act
proof cases
  case (own_start created)
  then have at: "\<not> started s" "std_thread s = None" "child s = No_thread" "\<not> joined s"
      "calls_inv c k (thread_latch s) Not_started No_thread" "thread_tid s = 0"
    using inv by (simp_all add: thread_inv_def object_inv_def calls_inv_def not_begun_def past_wait_def)
  then have "calls_inv c k (thread_latch s) Start_threw No_thread" "calls_inv c k (thread_latch s) Calling_Wait Child_begin"
    by (simp_all add: calls_inv_def not_begun_def past_wait_def past_count_def)
  then show ?thesis using own_start at ok
    by (cases created) (simp_all add: thread_inv_def object_inv_def fault_inv_def Start_begin_def after_act_def
        not_begun_def CurrentThread_init_def)
next
  case (own_call_wait m)
  then have "calls_inv c k (enter_latch c Op_Wait m (thread_latch s)) In_Wait (child s)"
    using inv ids calls_enter_wait unfolding thread_inv_def by metis
  then show ?thesis using own_call_wait inv ok
    by (auto simp: thread_inv_def object_inv_def fault_inv_def not_begun_def)
next
  case (own_wait l)
  have "calls_inv c k l (if latch_pc l c = Outside then Wait_done else In_Wait) (child s)"
    using own_wait inv ids calls_wait unfolding thread_inv_def by metis
  then show ?thesis using own_wait inv ok
    by (auto simp: thread_inv_def object_inv_def fault_inv_def not_begun_def)
next
  case own_check
  then have "child s \<noteq> No_thread \<and> child s \<noteq> Child_begin"
    using inv by (auto simp: thread_inv_def calls_inv_def past_wait_def past_count_def not_begun_def)
  then show ?thesis using own_check inv ids ok
    by (auto simp: thread_inv_def object_inv_def fault_inv_def thread_ops calls_inv_def past_wait_def not_begun_def)
next
  case own_join
  then show ?thesis using inv ok
    by (auto simp: thread_inv_def object_inv_def fault_inv_def thread_ops calls_inv_def past_wait_def not_begun_def)
next
  case own_joined
  then show ?thesis using inv ok
    by (auto simp: thread_inv_def object_inv_def fault_inv_def thread_ops calls_inv_def past_wait_def not_begun_def)
next
  case own_destroy
  then show ?thesis using thread_inv_destroy [OF inv] ok by auto
next
  case new_tid
  then show ?thesis using inv ok
    by (auto simp: thread_inv_def object_inv_def fault_inv_def thread_ops calls_inv_def past_count_def CachedTid_def ConstructTid_def)
next
  case new_name
  then show ?thesis using inv ok
    by (auto simp: thread_inv_def object_inv_def fault_inv_def thread_ops calls_inv_def past_count_def)
next
  case (new_call_count m)
  then have "calls_inv c k (enter_latch k Op_CountDown m (thread_latch s)) (starter s) In_CountDown"
    using inv ids calls_enter_count unfolding thread_inv_def by metis
  then show ?thesis using new_call_count inv ok
    by (auto simp: thread_inv_def object_inv_def fault_inv_def)
next
  case (new_count l)
  have "calls_inv c k l (starter s) (if latch_pc l k = Outside then Calling_func else In_CountDown)"
    using new_count inv ids calls_count unfolding thread_inv_def by metis
  then show ?thesis using new_count inv ok
    by (auto simp: thread_inv_def object_inv_def fault_inv_def)
next
  case new_call
  then show ?thesis using inv ok
    by (auto simp: thread_inv_def object_inv_def fault_inv_def thread_ops calls_inv_def past_count_def)
next
  case new_return
  then show ?thesis using inv ok
    by (auto simp: thread_inv_def object_inv_def fault_inv_def thread_ops calls_inv_def past_count_def)
next
  case new_throw
  then show ?thesis using inv ok
    by (auto simp: thread_inv_def object_inv_def fault_inv_def thread_ops)
qed

interpretation thread_runs: invariant_system "thread_init num name" "\<lambda>s s'. (0 < c \<and> 0 < k \<and> c \<noteq> k) \<and> thread_step bld c k s s'" "thread_inv c k"
  for num name c k bld
proof
  show "thread_inv c k s" if "thread_init num name s" for s
  proof -
    have "mutex_inv (CountDownLatch_new 1) \<and> count_inv 1 (CountDownLatch_new 1)"
      by (rule latch_runs.inv_init) (simp add: latch_init_def)
    then show ?thesis using that
      by (simp add: thread_init_def Thread_new_def SetDefaultName_def thread_inv_def calls_inv_def object_inv_def
          fault_inv_def CountDownLatch_new_def not_begun_def past_wait_def past_count_def Let_def)
  qed
qed (auto simp: thread_step_def intro: thread_inv_act)

subsection \<open>Start comes to its end\<close>

definition waiting :: "tid \<Rightarrow> tid \<Rightarrow> Thread \<Rightarrow> bool" where
  "waiting c k s \<longleftrightarrow> thread_inv c k s \<and> thread_fault s = None \<and> starter s \<in> {Calling_Wait, In_Wait, Wait_done}"

text \<open>What the latch does inside the two calls, the thread object does.\<close>

lemma lift_cont:
  assumes w: "waiting c k s" and ids: "0 < c" "0 < k" "c \<noteq> k" and step: "latch_cont bld (thread_latch s) l"
  shows "\<exists>s'. thread_step bld c k s s' \<and> waiting c k s' \<and> thread_latch s' = l
    \<and> (starter s' = starter s \<or> starter s = In_Wait \<and> starter s' = Wait_done)
    \<and> (child s' = child s \<or> child s = In_CountDown \<and> child s' = Calling_func)"
proof -
  obtain t where t: "latch_pc (thread_latch s) t \<noteq> Outside" "latch_act bld t (thread_latch s) l"
    using step by (auto simp: latch_cont_def)
  have inv: "thread_inv c k s" "thread_fault s = None" using w by (simp_all add: waiting_def)
  have calls: "calls_inv c k (thread_latch s) (starter s) (child s)" using inv by (simp add: thread_inv_def)
  have "t = c \<or> t = k" using t(1) calls by (auto simp: calls_inv_def)
  moreover have "t = c \<Longrightarrow> starter s = In_Wait" "t = k \<Longrightarrow> child s = In_CountDown"
    using t(1) calls by (auto simp: calls_inv_def split: if_splits)
  ultimately consider "t = c" "starter s = In_Wait" | "t = k" "child s = In_CountDown" by blast
  then show ?thesis
  proof cases
    case 1
    let ?s = "s\<lparr>thread_latch := l, starter := (if latch_pc l c = Outside then Wait_done else In_Wait)\<rparr>"
    have act: "thread_act bld c k s ?s" using own_wait [OF 1(2), of bld c] t(2) 1(1) by simp
    then have "thread_inv c k ?s" by (rule thread_inv_act [OF _ inv(1) ids inv(2)])
    then show ?thesis using act inv(2) 1(2) by (intro exI [of _ ?s]) (auto simp: thread_step_def waiting_def)
  next
    case 2
    let ?s = "s\<lparr>thread_latch := l, child := (if latch_pc l k = Outside then Calling_func else In_CountDown)\<rparr>"
    have act: "thread_act bld c k s ?s" using new_count [OF 2(2), of bld k] t(2) 2(1) by simp
    then have "thread_inv c k ?s" by (rule thread_inv_act [OF _ inv(1) ids inv(2)])
    then show ?thesis using act inv(2) w 2(2) by (intro exI [of _ ?s]) (auto simp: thread_step_def waiting_def)
  qed
qed

lemma lift_run:
  assumes "(latch_cont bld)\<^sup>*\<^sup>* l0 l" and "waiting c k s" and "thread_latch s = l0" and "0 < c" "0 < k" "c \<noteq> k"
  shows "\<exists>s'. (thread_step bld c k)\<^sup>*\<^sup>* s s' \<and> waiting c k s' \<and> thread_latch s' = l
    \<and> (starter s' = starter s \<or> starter s = In_Wait \<and> starter s' = Wait_done)
    \<and> (child s' = child s \<or> child s = In_CountDown \<and> child s' = Calling_func)"
  using assms
proof (induction rule: rtranclp_induct)
  case (step l1 l2)
  then obtain s1 where s1: "(thread_step bld c k)\<^sup>*\<^sup>* s s1" "waiting c k s1" "thread_latch s1 = l1"
      "starter s1 = starter s \<or> starter s = In_Wait \<and> starter s1 = Wait_done"
      "child s1 = child s \<or> child s = In_CountDown \<and> child s1 = Calling_func" by blast
  have "latch_cont bld (thread_latch s1) l2" using step.hyps(2) s1(3) by simp
  from lift_cont [OF s1(2) step.prems(3-5) this] obtain s2 where "thread_step bld c k s1 s2" "waiting c k s2"
      "thread_latch s2 = l2" "starter s2 = starter s1 \<or> starter s1 = In_Wait \<and> starter s2 = Wait_done"
      "child s2 = child s1 \<or> child s1 = In_CountDown \<and> child s2 = Calling_func" by blast
  then show ?case using s1 by (intro exI [of _ s2]) auto
qed blast

text \<open>The mutex of the latch can always be made free.\<close>

lemma free_latch:
  assumes w: "waiting c k s" and ids: "0 < c" "0 < k" "c \<noteq> k"
  shows "\<exists>s'. (thread_step bld c k)\<^sup>*\<^sup>* s s' \<and> waiting c k s' \<and> mutex_owner (latch_mutex (thread_latch s')) = None
    \<and> (starter s' = starter s \<or> starter s = In_Wait \<and> starter s' = Wait_done)
    \<and> (child s' = child s \<or> child s = In_CountDown \<and> child s' = Calling_func)"
proof (cases "mutex_owner (latch_mutex (thread_latch s))")
  case None
  then show ?thesis using w by (intro exI [of _ s]) auto
next
  case (Some u)
  have m: "mutex_inv (thread_latch s)" using w by (simp add: waiting_def thread_inv_def calls_inv_def)
  then have "owning (latch_pc (thread_latch s) u)" using Some by (simp add: mutex_inv_def)
  from owner_parks [OF m this] obtain l where "(latch_cont bld)\<^sup>*\<^sup>* (thread_latch s) l" "mutex_owner (latch_mutex l) = None"
    by blast
  from lift_run [OF this(1) w refl ids] this(2) show ?thesis by blast
qed

lemma act_waiting:
  "thread_act bld c k s s' \<Longrightarrow> waiting c k s \<Longrightarrow> 0 < c \<Longrightarrow> 0 < k \<Longrightarrow> c \<noteq> k \<Longrightarrow> thread_fault s' = None
    \<Longrightarrow> starter s' \<in> {Calling_Wait, In_Wait, Wait_done} \<Longrightarrow> thread_step bld c k s s' \<and> waiting c k s'"
  by (auto simp: waiting_def thread_step_def intro: thread_inv_act)

definition can_count :: "build \<Rightarrow> tid \<Rightarrow> tid \<Rightarrow> Thread \<Rightarrow> bool" where
  "can_count bld c k s \<longleftrightarrow> (\<exists>s'. (thread_step bld c k)\<^sup>*\<^sup>* s s' \<and> waiting c k s' \<and> child s' = Calling_func)"

lemma can_count_run: "(thread_step bld c k)\<^sup>*\<^sup>* s s' \<Longrightarrow> can_count bld c k s' \<Longrightarrow> can_count bld c k s"
  unfolding can_count_def by (meson rtranclp_trans)

lemma can_count_act:
  assumes "thread_act bld c k s s'" and "waiting c k s" and "0 < c" "0 < k" "c \<noteq> k"
    and "thread_fault s' = thread_fault s" "starter s' = starter s" and "waiting c k s' \<Longrightarrow> can_count bld c k s'"
  shows "can_count bld c k s"
proof -
  have "thread_step bld c k s s' \<and> waiting c k s'"
    using assms(2,6,7) by (intro act_waiting [OF assms(1-5)]) (auto simp: waiting_def)
  then show ?thesis using assms(8) can_count_run [of bld c k s s'] by blast
qed

lemma can_count_In:
  assumes w: "waiting c k s" and ids: "0 < c" "0 < k" "c \<noteq> k" and at: "child s = In_CountDown"
  shows "can_count bld c k s"
proof -
  obtain s1 where s1: "(thread_step bld c k)\<^sup>*\<^sup>* s s1" "waiting c k s1" "mutex_owner (latch_mutex (thread_latch s1)) = None"
      "child s1 = In_CountDown \<or> child s1 = Calling_func" using free_latch [OF w ids] at by auto
  have calls: "calls_inv c k (thread_latch s1) (starter s1) (child s1)" using s1(2) by (simp add: waiting_def thread_inv_def)
  then have "\<not> owning (latch_pc (thread_latch s1) k)" using s1(3) by (simp add: calls_inv_def mutex_inv_def)
  then have "child s1 \<noteq> In_CountDown"
    using calls by (cases "latch_pc (thread_latch s1) k") (auto simp: calls_inv_def)
  then show ?thesis using s1 by (auto simp: can_count_def)
qed

lemma can_count_Calling:
  assumes w: "waiting c k s" and ids: "0 < c" "0 < k" "c \<noteq> k" and at: "child s = Calling_CountDown"
  shows "can_count bld c k s"
proof -
  obtain s1 where s1: "(thread_step bld c k)\<^sup>*\<^sup>* s s1" "waiting c k s1" "mutex_owner (latch_mutex (thread_latch s1)) = None"
      "child s1 = Calling_CountDown" using free_latch [OF w ids] at by auto
  then obtain m where m: "std_lock k (latch_mutex (thread_latch s1)) = Some m" by (auto simp: std_lock_def)
  have "can_count bld c k s1"
    by (rule can_count_act [OF new_call_count [OF s1(4) m] s1(2) ids]) (simp_all add: can_count_In [OF _ ids])
  then show ?thesis by (rule can_count_run [OF s1(1)])
qed

lemma child_counts:
  assumes w: "waiting c k s" and ids: "0 < c" "0 < k" "c \<noteq> k" and "\<not> past_count (child s)"
  shows "can_count bld c k s"
proof -
  have named: "can_count bld c k s" if "waiting c k s" "child s = Child_named" for s
    by (rule can_count_act [OF new_name [OF that(2)] that(1) ids])
      (simp_all add: child_store_name_def can_count_Calling [OF _ ids])
  have first: "can_count bld c k s" if "waiting c k s" "child s = Child_begin" for s
    by (rule can_count_act [OF new_tid [OF that(2)] that(1) ids])
      (simp_all add: child_store_tid_def named Let_def split: prod.splits)
  have "child s \<noteq> No_thread" using w by (auto simp: waiting_def thread_inv_def calls_inv_def not_begun_def)
  then consider "child s = Child_begin" | "child s = Child_named" | "child s = Calling_CountDown" | "child s = In_CountDown"
    using assms(5) by (cases "child s") (auto simp: past_count_def)
  then show ?thesis
    by cases (use w first named can_count_Calling [OF w ids] can_count_In [OF w ids] in blast)+
qed

text \<open>From there the wait returns, by the progress of the latch.\<close>

lemma wait_returns:
  assumes w: "waiting c k s" and ids: "0 < c" "0 < k" "c \<noteq> k" and past: "past_count (child s)" and at: "starter s = In_Wait"
  shows "\<exists>s'. (thread_step bld c k)\<^sup>*\<^sup>* s s' \<and> waiting c k s' \<and> starter s' = Wait_done \<and> child s' = child s"
proof -
  have calls: "calls_inv c k (thread_latch s) (starter s) (child s)" using w by (simp add: waiting_def thread_inv_def)
  then have "decrements (thread_latch s) = 1" using past by (auto simp: calls_inv_def past_count_def)
  then have "mutex_inv (thread_latch s)" "count_inv 1 (thread_latch s)" "latch_count (thread_latch s) \<le> 0"
    using calls by (auto simp: calls_inv_def count_inv_def)
  from everyone_leaves [OF this, of bld c] obtain l where l: "(latch_cont bld)\<^sup>*\<^sup>* (thread_latch s) l" "latch_pc l c = Outside"
    by blast
  from lift_run [OF l(1) w refl ids] obtain s' where s': "(thread_step bld c k)\<^sup>*\<^sup>* s s'" "waiting c k s'" "thread_latch s' = l"
      "starter s' = In_Wait \<or> starter s' = Wait_done" "child s' = child s"
    using at past by (auto simp: past_count_def)
  moreover have "starter s' \<noteq> In_Wait"
    using s'(2,3) l(2) by (auto simp: waiting_def thread_inv_def calls_inv_def)
  ultimately show ?thesis by blast
qed

lemma start_returns:
  assumes w: "waiting c k s" and ids: "0 < c" "0 < k" "c \<noteq> k"
  shows "\<exists>s'. (thread_step bld c k)\<^sup>*\<^sup>* s s' \<and> starter s' = Started_ok \<and> thread_fault s' = None \<and> \<not> destroyed s'
    \<and> child s' = (if past_count (child s) then child s else Calling_func)"
proof -
  have last: "\<exists>s'. (thread_step bld c k)\<^sup>*\<^sup>* s s' \<and> starter s' = Started_ok \<and> thread_fault s' = None \<and> \<not> destroyed s' \<and> child s' = child s"
    if w: "waiting c k s" and "starter s = Wait_done" for s
  proof -
    have "child s \<noteq> No_thread \<and> child s \<noteq> Child_begin"
      using that by (auto simp: waiting_def thread_inv_def calls_inv_def past_wait_def past_count_def)
    then have "Start_end bld s = Inr (s\<lparr>starter := Started_ok\<rparr>)"
      using w ids by (simp add: waiting_def thread_inv_def object_inv_def Start_end_def)
    then have "thread_step bld c k s (s\<lparr>starter := Started_ok\<rparr>)"
      using own_check [OF that(2), of bld c k] w by (simp add: thread_step_def after_act_def waiting_def)
    moreover have "\<not> destroyed s" using that by (auto simp: waiting_def thread_inv_def object_inv_def)
    ultimately show ?thesis using w by (intro exI [of _ "s\<lparr>starter := Started_ok\<rparr>"]) (auto simp: waiting_def)
  qed
  have wait: "\<exists>s'. (thread_step bld c k)\<^sup>*\<^sup>* s s' \<and> starter s' = Started_ok \<and> thread_fault s' = None \<and> \<not> destroyed s' \<and> child s' = child s"
    if w: "waiting c k s" and "past_count (child s)" and "starter s = In_Wait" for s
    using wait_returns [OF w ids that(2,3), of bld] last by (metis rtranclp_trans)
  obtain s1 where s1: "(thread_step bld c k)\<^sup>*\<^sup>* s s1" "waiting c k s1" "past_count (child s1)"
      "child s1 = (if past_count (child s) then child s else Calling_func)"
  proof (cases "past_count (child s)")
    case True
    then show ?thesis using w by (intro that [of s]) auto
  next
    case False
    have "past_count Calling_func" by (simp add: past_count_def)
    then show ?thesis using False child_counts [OF w ids False, of bld] that by (auto simp: can_count_def)
  qed
  consider "starter s1 = Calling_Wait" | "starter s1 = In_Wait" | "starter s1 = Wait_done" using s1(2) by (auto simp: waiting_def)
  then have "\<exists>s'. (thread_step bld c k)\<^sup>*\<^sup>* s1 s' \<and> starter s' = Started_ok \<and> thread_fault s' = None \<and> \<not> destroyed s' \<and> child s' = child s1"
  proof cases
    case 1
    obtain s2 where s2: "(thread_step bld c k)\<^sup>*\<^sup>* s1 s2" "waiting c k s2" "mutex_owner (latch_mutex (thread_latch s2)) = None"
        "starter s2 = Calling_Wait" "past_count (child s2)" "child s2 = child s1"
      using free_latch [OF s1(2) ids, of bld] 1 s1(3) by (auto simp: past_count_def)
    then obtain m where m: "std_lock c (latch_mutex (thread_latch s2)) = Some m" by (auto simp: std_lock_def)
    let ?s3 = "s2\<lparr>thread_latch := enter_latch c Op_Wait m (thread_latch s2), starter := In_Wait\<rparr>"
    have "thread_step bld c k s2 ?s3 \<and> waiting c k ?s3"
      using s2(2) by (intro act_waiting [OF own_call_wait [OF s2(4) m] s2(2) ids]) (auto simp: waiting_def)
    then show ?thesis using wait [of ?s3] s2(1,5,6) by (auto intro: rtranclp_trans converse_rtranclp_into_rtranclp)
  next
    case 2 then show ?thesis by (rule wait [OF s1(2,3)])
  next
    case 3 then show ?thesis by (rule last [OF s1(2)])
  qed
  then show ?thesis using s1(1,4) by (metis rtranclp_trans)
qed

subsection \<open>Properties\<close>

lemma thread_reach_inv:
  assumes "0 < c" "0 < k" "c \<noteq> k" and "reach (thread_init num name) (thread_step bld c k) s"
  shows "thread_inv c k s"
proof -
  have "thread_step bld c k = (\<lambda>s s'. (0 < c \<and> 0 < k \<and> c \<noteq> k) \<and> thread_step bld c k s s')"
    using assms(1-3) by simp
  with assms(4) show ?thesis using thread_runs.reach_inv [of num name c k bld s] by simp
qed

text \<open>What the name cache of the new thread holds: nothing of the object before it is stored.\<close>

definition name_inv :: "string \<Rightarrow> Thread \<Rightarrow> bool" where
  "name_inv name s \<longleftrightarrow> thread_name s = name
     \<and> (child s \<in> {Calling_CountDown, In_CountDown, Calling_func, Running_func} \<longrightarrow> t_thread_name (child_locals s) = name)
     \<and> (child s = Func_returned \<longrightarrow> t_thread_name (child_locals s) = ''finished'')"

lemma name_inv_calls:
  assumes inv: "name_inv name s"
  shows "name_inv name (after_act (Start_begin bld created s) s)" and "name_inv name (after_act (Start_end bld s) s)"
    and "name_inv name (after_act (Join_begin bld s) s)" and "name_inv name (after_act (Thread_destroy bld s) s)"
proof -
  have same: "name_inv name (after_act r s)" if "\<And>s'. r = Inr s' \<Longrightarrow> name_inv name s'" for r
    using that inv by (cases r) (simp_all add: after_act_def name_inv_def)
  show "name_inv name (after_act (Start_begin bld created s) s)"
    by (rule same) (use inv in \<open>auto simp: Start_begin_def result_simps name_inv_def Let_def split: if_splits\<close>)
  show "name_inv name (after_act (Start_end bld s) s)"
    by (rule same) (use inv in \<open>auto simp: Start_end_def result_simps name_inv_def\<close>)
  show "name_inv name (after_act (Join_begin bld s) s)"
    by (rule same) (use inv in \<open>auto simp: Join_begin_def result_simps name_inv_def split: option.splits if_splits\<close>)
  show "name_inv name (after_act (Thread_destroy bld s) s)"
    by (rule same) (use inv in \<open>auto simp: Thread_destroy_def result_simps name_inv_def split: option.splits if_splits\<close>)
qed

lemma name_inv_reach: "reach (thread_init num name) (thread_step bld c k) s \<Longrightarrow> name_inv (snd (SetDefaultName num name)) s"
proof (induction rule: reach.induct)
  case (reach_init s)
  then show ?case by (simp add: name_inv_def thread_init_def Thread_new_def Let_def split_beta)
next
  case (reach_step s t)
  from reach_step.hyps(2) have "thread_act bld c k s t" by (simp add: thread_step_def)
  then show ?case
  proof cases
    case (own_start created)
    then show ?thesis using name_inv_calls(1) [OF reach_step.IH] by simp
  next
    case own_check
    then show ?thesis using name_inv_calls(2) [OF reach_step.IH] by simp
  next
    case own_join
    then show ?thesis using name_inv_calls(3) [OF reach_step.IH] by simp
  next
    case own_destroy
    then show ?thesis using name_inv_calls(4) [OF reach_step.IH] by simp
  next
    case new_tid
    then show ?thesis using reach_step.IH by (simp add: name_inv_def child_store_tid_def split_beta)
  next
    case new_call
    then show ?thesis using reach_step.IH by (simp add: name_inv_def after_act_def child_call_func_def)
  next
    case (new_count l)
    then show ?thesis using reach_step.IH by (simp add: name_inv_def)
  qed (use reach_step.IH in \<open>simp_all add: name_inv_def Join_end_def child_store_name_def child_return_def child_throw_def after_act_def\<close>)
qed

text \<open>
  C10: When Start has returned, in every interleaving, the object holds the id of the new thread, the
  new thread has stored the object's name as its own (and \<open>finished\<close> once the function has returned), it
  will not touch the latch again, and the mutex's destructor would not complain. On the way, and as
  long as the object lives, nothing has gone wrong in either build but that the function itself threw.
\<close>

theorem Thread_Start_handshake:
  assumes "0 < c" and "0 < k" and "c \<noteq> k" and "reach (thread_init num name) (thread_step bld c k) s"
    and "starter s \<in> {Calling_Wait, In_Wait, Wait_done, Started_ok, In_Join, Joined_ok}"
  shows "(starter s \<in> {Started_ok, In_Join, Joined_ok} \<longrightarrow> Thread_Tid s = int k \<and> past_count (child s)
         \<and> t_thread_name (child_locals s)
             = (if child s = Func_returned then ''finished'' else snd (SetDefaultName num name))
         \<and> (\<forall>u. latch_pc (thread_latch s) u = Outside)
         \<and> MutexLock_destroy bld (latch_mutex (thread_latch s)) = Inr ())
    \<and> (\<not> destroyed s \<longrightarrow> thread_fault s = None \<or> thread_fault s = Some Process_aborted \<and> child s = Running_func)"
proof -
  have inv: "thread_inv c k s" by (rule thread_reach_inv [OF assms(1-4)])
  have name: "name_inv (snd (SetDefaultName num name)) s" by (rule name_inv_reach [OF assms(4)])
  have "thread_tid s = int k \<and> past_count (child s) \<and> (\<forall>u. latch_pc (thread_latch s) u = Outside)"
    if "starter s \<in> {Started_ok, In_Join, Joined_ok}"
  proof -
    have past: "past_count (child s)" using inv that by (auto simp: thread_inv_def calls_inv_def past_wait_def)
    then have "latch_pc (thread_latch s) u = Outside" for u
      using inv that by (cases "u = c"; cases "u = k") (auto simp: thread_inv_def calls_inv_def past_count_def)
    moreover have "thread_tid s = int k" using inv past by (auto simp: thread_inv_def object_inv_def past_count_def)
    ultimately show ?thesis using past by blast
  qed
  moreover have "past_count (child s) \<Longrightarrow> t_thread_name (child_locals s)
      = (if child s = Func_returned then ''finished'' else snd (SetDefaultName num name))"
    using name by (auto simp: name_inv_def past_count_def)
  moreover have "mutex_inv (thread_latch s)" using inv by (simp add: thread_inv_def calls_inv_def)
  moreover have "\<not> destroyed s \<longrightarrow> thread_fault s = None \<or> thread_fault s = Some Process_aborted \<and> child s = Running_func"
    using inv assms(5) by (auto simp: thread_inv_def fault_inv_def split: option.splits fault.splits)
  ultimately show ?thesis
    using holder_free [of "thread_latch s" bld] by (auto simp del: One_nat_def)
qed

text \<open>
  C22: Start returns: from every state in which it is under way, whatever the two threads have done
  so far, the threads can go on so that it returns without a fault.
\<close>

theorem Thread_Start_returns:
  assumes "0 < c" and "0 < k" and "c \<noteq> k" and "reach (thread_init num name) (thread_step bld c k) s"
    and "thread_fault s = None" and "starter s \<in> {Calling_Wait, In_Wait, Wait_done}"
  shows "\<exists>s'. (thread_step bld c k)\<^sup>*\<^sup>* s s' \<and> starter s' = Started_ok \<and> thread_fault s' = None"
proof -
  have "waiting c k s" using thread_reach_inv [OF assms(1-4)] assms(5,6) by (simp add: waiting_def)
  from start_returns [OF this assms(1-3), of bld] show ?thesis by blast
qed

text \<open>
  C23: When Join has returned the function has returned, and a thread that is joined never uses the
  object after its destruction; the only faults then are those the function itself causes.
\<close>

theorem Thread_Join_is_safe:
  assumes "0 < c" and "0 < k" and "c \<noteq> k" and "reach (thread_init num name) (thread_step bld c k) s" and "joined s"
  shows "(starter s = Joined_ok \<longrightarrow> child s = Func_returned \<and> t_thread_name (child_locals s) = ''finished'')
    \<and> (thread_fault s = None \<or> thread_fault s = Some Process_aborted \<and> child s = Running_func)"
proof -
  have inv: "thread_inv c k s" by (rule thread_reach_inv [OF assms(1-4)])
  have "child s = Func_returned \<Longrightarrow> t_thread_name (child_locals s) = ''finished''"
    using name_inv_reach [OF assms(4)] by (simp add: name_inv_def)
  then show ?thesis
    using inv assms(5) by (auto simp: thread_inv_def object_inv_def fault_inv_def split: option.splits fault.splits)
qed


lemma start_under_way:
  assumes "0 < c" and "0 < k" and "c \<noteq> k"
  shows "\<exists>s. reach (thread_init num name) (thread_step bld c k) s \<and> starter s = Calling_Wait \<and> thread_fault s = None \<and> child s = Child_begin"
proof -
  let ?s0 = "snd (Thread_new num name)"
  let ?s1 = "?s0\<lparr>started := True, std_thread := Some True, child := Child_begin, child_locals := CurrentThread_init,
      starter := Calling_Wait\<rparr>"
  have init: "reach (thread_init num name) (thread_step bld c k) ?s0" by (rule reach_init) (simp add: thread_init_def)
  have new: "starter ?s0 = Not_started" "\<not> destroyed ?s0" "thread_fault ?s0 = None" "\<not> started ?s0" "std_thread ?s0 = None"
    by (simp_all add: Thread_new_def SetDefaultName_def Let_def)
  then have "thread_step bld c k ?s0 ?s1"
    using own_start [OF new(1,2), of bld c k True] by (simp add: thread_step_def after_act_def Start_begin_def)
  from reach_step [OF init this] show ?thesis using new by (intro exI [of _ ?s1]) simp
qed

text \<open>
  A thread object that is not joined may be destroyed as soon as Start has returned, and then the
  new thread, which has yet to call \<open>func_\<close>, uses the destroyed object, in either build: detaching
  in the destructor is not enough.
\<close>

theorem Thread_detach_uses_destroyed_object:
  assumes "0 < c" and "0 < k" and "c \<noteq> k"
  shows "\<exists>s. reach (thread_init num name) (thread_step bld c k) s \<and> starter s = Started_ok \<and> destroyed s
    \<and> thread_fault s = Some Undefined_behaviour"
proof -
  obtain s1 where r1: "reach (thread_init num name) (thread_step bld c k) s1" and s1: "starter s1 = Calling_Wait"
      "thread_fault s1 = None" "child s1 = Child_begin" using start_under_way [OF assms, of num name bld] by blast
  have "waiting c k s1" using thread_reach_inv [OF assms r1] s1 by (simp add: waiting_def)
  moreover have "\<not> past_count (child s1)" using s1(3) by (simp add: past_count_def)
  ultimately obtain s2 where s2: "(thread_step bld c k)\<^sup>*\<^sup>* s1 s2" "starter s2 = Started_ok"
      "thread_fault s2 = None" "child s2 = Calling_func" "\<not> destroyed s2" using start_returns [OF _ assms, of s1 bld] by metis
  have r2: "reach (thread_init num name) (thread_step bld c k) s2" using s2(1) r1 by (rule reach_trans)
  have inv: "thread_inv c k s2" by (rule thread_reach_inv [OF assms r2])
  let ?s3 = "s2\<lparr>std_thread := Some False, destroyed := True\<rparr>"
  have "MutexLock_destroy bld (latch_mutex (thread_latch s2)) = Inr ()"
    using s2(2) by (intro latch_mutex_free [OF inv]) simp
  then have "Thread_destroy bld s2 = Inr ?s3"
    using inv s2(2,5) by (simp add: Thread_destroy_def thread_inv_def object_inv_def not_begun_def)
  then have "thread_step bld c k s2 ?s3"
    using own_destroy [of s2 bld c k] s2(2,3,5) by (simp add: thread_step_def after_act_def)
  with r2 have r3: "reach (thread_init num name) (thread_step bld c k) ?s3" by (rule reach_step)
  have "child ?s3 = Calling_func" using s2(4) by simp
  then have "thread_step bld c k ?s3 (?s3\<lparr>thread_fault := Some Undefined_behaviour\<rparr>)"
    using new_call [of ?s3 bld c k] s2(3) by (simp add: thread_step_def after_act_def child_call_func_def)
  from reach_step [OF r3 this] show ?thesis using s2(2) by (intro exI [of _ "?s3\<lparr>thread_fault := Some Undefined_behaviour\<rparr>"]) simp
qed

text \<open>
  Calls out of order: starting twice fails the assertion or, in a Release build, ends the
  process; joining a thread that was not started follows a null pointer in a Release build; and
  when the operating system refuses a new thread, \<open>started_\<close> stays set, so the destructor follows
  a null pointer in either build.
\<close>

theorem Thread_calls_out_of_order:
  assumes "s = snd (Thread_new num name)" and "Start_begin bld True s = Inr s1" and "Start_begin bld False s = Inr s2"
  shows "Start_begin bld True s1 = Inl (if bld = Debug then Assertion_failed else Process_aborted)
    \<and> Join_begin bld s = Inl (if bld = Debug then Assertion_failed else Undefined_behaviour)
    \<and> Thread_destroy bld s2 = Inl Undefined_behaviour
    \<and> Thread_destroy bld s = Inr (s\<lparr>destroyed := True\<rparr>)"
  using assms
  by (cases bld) (auto simp: Thread_new_def SetDefaultName_def Start_begin_def Join_begin_def Thread_destroy_def
      MutexLock_destroy_def CountDownLatch_new_def MutexLock_new_def Let_def)

text \<open>
  The name of a thread that was given none: two such threads have the same name only if the counter
  has gone all the way round in between.
\<close>

lemma default_names_distinct:
  "snd (SetDefaultName m []) = snd (SetDefaultName n []) \<longleftrightarrow> m = n"
proof -
  have "dec_int (sint (m + 1)) = dec_int (sint (n + 1)) \<longleftrightarrow> sint (m + 1) = sint (n + 1)"
    by (metis parse_dec_int option.inject)
  also have "\<dots> \<longleftrightarrow> m = n" by (auto dest: signed_word_eqI)
  finally show ?thesis by (simp add: SetDefaultName_def Let_def)
qed


subsection \<open>Witnesses\<close>

text \<open>A thread that was started and joined.\<close>

lemma joined_thread:
  "\<exists>s. reach (thread_init 0 ''worker'') (thread_step Debug 1 2) s \<and> starter s = Joined_ok \<and> joined s"
proof -
  let ?r = "reach (thread_init 0 ''worker'') (thread_step Debug 1 2)"
  obtain s1 where r1: "?r s1" and s1: "starter s1 = Calling_Wait"
      "thread_fault s1 = None" "child s1 = Child_begin" using start_under_way [of 1 2 0 "''worker''" Debug] by auto
  have "waiting 1 2 s1" using thread_reach_inv [OF _ _ _ r1] s1 by (simp add: waiting_def)
  moreover have "\<not> past_count (child s1)" using s1(3) by (simp add: past_count_def)
  ultimately obtain s2 where s2: "(thread_step Debug 1 2)\<^sup>*\<^sup>* s1 s2" "starter s2 = Started_ok"
      "thread_fault s2 = None" "child s2 = Calling_func" "\<not> destroyed s2"
    using start_returns [of 1 2 s1 Debug, OF _ zero_less_one] by force
  have r2: "?r s2" using s2(1) r1 by (rule reach_trans)
  have inv: "object_inv 2 s2" using thread_reach_inv [OF _ _ _ r2] by (simp add: thread_inv_def)
  let ?s3 = "s2\<lparr>child := Running_func\<rparr>"
  have r3: "?r ?s3" using r2
    by (rule reach_step) (use new_call [OF s2(4), of Debug 1 2] s2(3,5) in \<open>simp add: thread_step_def after_act_def child_call_func_def\<close>)
  define s4 where "s4 = child_return ?s3"
  have s4: "starter s4 = Started_ok" "thread_fault s4 = None" "\<not> destroyed s4" "child s4 = Func_returned"
      "started s4" "\<not> joined s4" "std_thread s4 = Some True"
    using inv s2 by (simp_all add: s4_def child_return_def object_inv_def not_begun_def)
  have "thread_step Debug 1 2 ?s3 s4"
    using new_return [of ?s3 Debug 1 2] s2(3) by (simp add: thread_step_def s4_def)
  with r3 have r4: "?r s4" by (rule reach_step)
  define s5 where "s5 = s4\<lparr>joined := True, starter := In_Join\<rparr>"
  have "thread_step Debug 1 2 s4 s5"
    using own_join [OF s4(1,3), of Debug 1 2] s4 by (simp add: thread_step_def after_act_def Join_begin_def s5_def)
  with r4 have r5: "?r s5" by (rule reach_step)
  have s5: "starter s5 = In_Join" "child s5 = Func_returned" "thread_fault s5 = None" "joined s5"
    using s4 by (simp_all add: s5_def)
  then have "thread_step Debug 1 2 s5 (Join_end s5)"
    using own_joined [OF s5(1,2), of Debug 1 2] by (simp add: thread_step_def)
  from reach_step [OF r5 this] show ?thesis
    using s5 by (intro exI [of _ "Join_end s5"]) (simp add: Join_end_def)
qed

theorem Thread_Start_handshake_witness:
  "\<exists>s. reach (thread_init 0 ''worker'') (thread_step Debug 1 2) s \<and> thread_tid s = 2
     \<and> t_thread_name (child_locals s) \<in> {''finished'', ''worker''}"
proof -
  obtain s where s: "reach (thread_init 0 ''worker'') (thread_step Debug 1 2) s" "starter s = Joined_ok"
    using joined_thread by blast
  then have "Thread_Tid s = int 2 \<and> t_thread_name (child_locals s)
      = (if child s = Func_returned then ''finished'' else snd (SetDefaultName 0 ''worker''))"
    using Thread_Start_handshake [of 1 2 0 "''worker''" Debug s] by simp
  then show ?thesis using s(1) by (intro exI [of _ s]) (simp add: SetDefaultName_def Let_def)
qed

theorem Thread_Start_returns_witness:
  "\<exists>s. reach (thread_init 0 ''worker'') (thread_step Debug 1 2) s \<and> starter s = Started_ok"
proof -
  obtain s where s: "reach (thread_init 0 ''worker'') (thread_step Debug 1 2) s" "starter s = Calling_Wait" "thread_fault s = None"
    using start_under_way [of 1 2 0 "''worker''" Debug] by auto
  have "\<exists>s'. (thread_step Debug 1 2)\<^sup>*\<^sup>* s s' \<and> starter s' = Started_ok \<and> thread_fault s' = None"
    by (rule Thread_Start_returns [OF _ _ _ s(1,3)]) (simp_all add: s(2))
  then show ?thesis using reach_trans [OF _ s(1)] by blast
qed

theorem Thread_Join_is_safe_witness:
  "\<exists>s. reach (thread_init 0 ''worker'') (thread_step Debug 1 2) s \<and> child s = Func_returned"
  using joined_thread Thread_Join_is_safe [of 1 2 0 "''worker''" Debug] by auto

theorem Thread_detach_uses_destroyed_object_witness:
  "\<exists>s. reach (thread_init 0 ''TP_Monitor'') (thread_step Release 1 2) s \<and> thread_fault s = Some Undefined_behaviour"
  using Thread_detach_uses_destroyed_object [of 1 2 0 "''TP_Monitor''" Release] by auto

theorem Thread_calls_out_of_order_witness:
  "\<exists>s1. Start_begin Debug True (snd (Thread_new 0 [])) = Inr s1 \<and> Start_begin Debug True s1 = Inl Assertion_failed"
proof -
  obtain s1 s2 where s: "Start_begin Debug True (snd (Thread_new 0 [])) = Inr s1" "Start_begin Debug False (snd (Thread_new 0 [])) = Inr s2"
    by (simp add: Thread_new_def SetDefaultName_def Start_begin_def Let_def)
  from Thread_calls_out_of_order [OF refl s] show ?thesis using s(1) by simp
qed

end
