(* ===== verification/Base_ThreadPool.thy ===== *)
theory Base_ThreadPool
  imports Turbo_Steps Turbo_Numerals "HOL-Library.Multiset"
begin

section \<open>base/thread\_pool: workers, tasks and the pool's counters\<close>

text \<open>
  \<open>ThreadPool\<close> (\<open>src/base/thread_pool.h\<close>, \<open>src/base/thread_pool.cpp\<close>) keeps a queue of tasks and
  between zero and \<open>kMaxPoolSize_\<close> worker threads. The pool is a list with one entry per worker
  ever created, so a worker is its position; \<open>Gone\<close> is a worker whose function has returned. A
  critical section of the task mutex is one step; the atomic counters change in steps of their
  own. A waiting worker can wake at any time, by a notification, spuriously or by the timeout.
  \<open>Commit\<close> reads the status before it takes the mutex, so it is two steps, and \<open>entering\<close> holds
  the tasks of the calls between the two. \<open>monitor\<close> is where the monitor thread is, \<open>joining\<close> the
  thread object the destructor is at, if it runs; \<open>thread_joined\<close> are the thread objects whose \<open>joined_\<close>
  is set. The last three fields record the tasks in the order they were committed, taken and
  finished. A fault is recorded in \<open>pool_fault\<close>, and the destruction of a pool makes no step after it.
\<close>

datatype ThreadPoolStatus = TPS_RUNNING | TPS_SHUTDOWN | TPS_TERMINATED

datatype 'a worker_state = At_loop | Waiting | Popped 'a | Running 'a | Gone

datatype monitor_pc = Mon_top | Mon_waiting | Mon_collecting | Mon_joining nat | Mon_gone

datatype destructor_pc = Not_destroying | At_thread nat | Joining nat | All_joined

record 'a ThreadPool =
  pool_build :: build
  thread_pool_name :: string
  kMaxPoolSize :: nat
  kCorePoolSize :: nat
  kMaxTaskSize :: nat
  pool_status :: ThreadPoolStatus
  tasks :: "'a list"
  workers :: "'a worker_state list"
  thread_names :: "string list"
  thread_objects :: "nat list"
  thread_joined :: "nat list"
  monitor_thread_free :: "nat list"
  idle_thread_num :: int
  now_thread_num :: int
  entering :: "'a list"
  monitor :: monitor_pc
  joining :: destructor_pc
  pool_fault :: "fault option"
  committed :: "'a list"
  taken :: "'a list"
  finished :: "'a list"

subsection \<open>Threads are added, tasks committed\<close>

text \<open>
  The loop of \<open>AddThread\<close>. The number in the name of a thread is one more than the number of workers
  alive, not that of the workers created.
\<close>

definition worker_name :: "'a ThreadPool \<Rightarrow> string" where
  "worker_name s = ''TP_Work'' @ dec_nat (nat (now_thread_num s + 1))"

fun add_threads :: "nat \<Rightarrow> 'a ThreadPool \<Rightarrow> 'a ThreadPool" where
  "add_threads 0 s = s"
| "add_threads (Suc n) s =
     (if now_thread_num s < int (kMaxPoolSize s)
      then add_threads n (s\<lparr>thread_objects := thread_objects s @ [length (workers s)],
             workers := workers s @ [At_loop], thread_names := thread_names s @ [worker_name s], idle_thread_num := idle_thread_num s + 1,
             now_thread_num := now_thread_num s + 1\<rparr>)
      else s)"

definition AddThread :: "build \<Rightarrow> nat \<Rightarrow> 'a ThreadPool \<Rightarrow> 'a ThreadPool result" where
  "AddThread bld n s = bindR (assertR bld (pool_status s = TPS_RUNNING)) (\<lambda>_. Inr (add_threads n s))"

definition ThreadPool_new :: "build \<Rightarrow> string \<Rightarrow> nat \<Rightarrow> nat \<Rightarrow> nat \<Rightarrow> 'a ThreadPool result" where
  "ThreadPool_new bld name max_pool_size core_pool_size max_task_size =
     AddThread bld core_pool_size
       \<lparr>pool_build = bld, thread_pool_name = name, kMaxPoolSize = max_pool_size, kCorePoolSize = core_pool_size, kMaxTaskSize = max_task_size,
        pool_status = TPS_RUNNING, tasks = [], workers = [], thread_names = [], thread_objects = [], thread_joined = [], monitor_thread_free = [],
        idle_thread_num = 0, now_thread_num = 0, entering = [], monitor = Mon_top,
        joining = Not_destroying, pool_fault = None, committed = [], taken = [], finished = []\<rparr>"

text \<open>The default arguments of the constructor, given what \<open>hardware_concurrency\<close> answers.\<close>

definition ThreadPool_default :: "build \<Rightarrow> nat \<Rightarrow> 'a ThreadPool result" where
  "ThreadPool_default bld hardware_concurrency =
     ThreadPool_new bld ''ThreadPool'' hardware_concurrency (hardware_concurrency div 2) 1000"

definition ThreadPool_Name :: "'a ThreadPool \<Rightarrow> string" where
  "ThreadPool_Name s = thread_pool_name s"

text \<open>\<open>Commit\<close> checks the status, and later appends the task with the mutex held.\<close>

definition Commit_check :: "build \<Rightarrow> 'a \<Rightarrow> 'a ThreadPool \<Rightarrow> 'a ThreadPool result" where
  "Commit_check bld f s =
     bindR (assertR bld (pool_status s = TPS_RUNNING)) (\<lambda>_. Inr (s\<lparr>entering := entering s @ [f]\<rparr>))"

definition Commit_append :: "build \<Rightarrow> 'a \<Rightarrow> 'a ThreadPool \<Rightarrow> 'a ThreadPool result" where
  "Commit_append bld f s =
     bindR (if kMaxTaskSize s > length (tasks s) then Inr s else AddThread bld 1 s) (\<lambda>s1.
       Inr (s1\<lparr>tasks := tasks s1 @ [f], entering := remove1 f (entering s1),
               committed := committed s1 @ [f]\<rparr>))"

text \<open>A call that nothing interrupts.\<close>

definition Commit :: "build \<Rightarrow> 'a \<Rightarrow> 'a ThreadPool \<Rightarrow> 'a ThreadPool result" where
  "Commit bld f s = bindR (Commit_check bld f s) (Commit_append bld f)"

definition ShutDown :: "'a ThreadPool \<Rightarrow> 'a ThreadPool" where
  "ShutDown s = s\<lparr>pool_status := TPS_SHUTDOWN\<rparr>"

text \<open>The counters as the pool answers them: 32 bits wide, the second one widened to a \<open>size_t\<close>.\<close>

definition IdleThreadCount :: "'a ThreadPool \<Rightarrow> 32 word" where
  "IdleThreadCount s = word_of_int (idle_thread_num s)"

definition ThreadCount :: "'a ThreadPool \<Rightarrow> 64 word" where
  "ThreadCount s = ucast (word_of_int (now_thread_num s) :: 32 word)"

subsection \<open>A worker\<close>

definition set_worker :: "nat \<Rightarrow> 'a worker_state \<Rightarrow> 'a ThreadPool \<Rightarrow> 'a ThreadPool" where
  "set_worker i p s = s\<lparr>workers := (workers s)[i := p]\<rparr>"

definition leave :: "nat \<Rightarrow> 'a ThreadPool \<Rightarrow> 'a ThreadPool" where
  "leave i s = set_worker i Gone (s\<lparr>idle_thread_num := idle_thread_num s - 1, now_thread_num := now_thread_num s - 1\<rparr>)"

text \<open>With the task mutex held: wait, leave, or take the first task.\<close>

definition worker_loop :: "nat \<Rightarrow> 'a ThreadPool \<Rightarrow> 'a ThreadPool" where
  "worker_loop i s =
     (case tasks s of
        [] \<Rightarrow> if pool_status s = TPS_RUNNING then set_worker i Waiting s
              else leave i (s\<lparr>pool_status := TPS_TERMINATED\<rparr>)
      | task # rest \<Rightarrow> set_worker i (Popped task) (s\<lparr>tasks := rest, taken := taken s @ [task]\<rparr>))"

text \<open>The wait returns; after a timeout a worker beyond the core size leaves.\<close>

definition worker_wake :: "bool \<Rightarrow> nat \<Rightarrow> 'a ThreadPool \<Rightarrow> 'a ThreadPool" where
  "worker_wake timeout i s =
     (if timeout \<and> now_thread_num s > int (kCorePoolSize s)
      then leave i (s\<lparr>monitor_thread_free := monitor_thread_free s @ [i]\<rparr>)
      else set_worker i At_loop s)"

definition worker_begin :: "nat \<Rightarrow> 'a \<Rightarrow> 'a ThreadPool \<Rightarrow> 'a ThreadPool" where
  "worker_begin i task s = set_worker i (Running task) (s\<lparr>idle_thread_num := idle_thread_num s - 1\<rparr>)"

definition worker_done :: "nat \<Rightarrow> 'a \<Rightarrow> 'a ThreadPool \<Rightarrow> 'a ThreadPool" where
  "worker_done i task s =
     set_worker i At_loop (s\<lparr>idle_thread_num := idle_thread_num s + 1, finished := finished s @ [task]\<rparr>)"

subsection \<open>Joining a thread of the pool\<close>

text \<open>
  \<open>Thread::Join\<close> of a thread that was joined before, or is being joined: the assertion fails in a Debug
  build; in a Release build \<open>std::thread::join\<close> throws, which ends the process, since the monitor's
  exception handler aborts and the destructor is \<open>noexcept\<close>.
\<close>

definition fail :: "fault \<Rightarrow> 'a ThreadPool \<Rightarrow> 'a ThreadPool" where
  "fail f s = s\<lparr>pool_fault := Some f\<rparr>"

definition second_join :: "'a ThreadPool \<Rightarrow> 'a ThreadPool" where
  "second_join s = fail (if pool_build s = Debug then Assertion_failed else Process_aborted) s"

subsection \<open>The monitor\<close>

text \<open>
  With the monitor mutex held: wait while nothing is free, otherwise collect, which keeps the mutex
  until the list is empty. A wake-up ends the monitor when the pool is no longer running.
\<close>

definition monitor_top :: "'a ThreadPool \<Rightarrow> 'a ThreadPool" where
  "monitor_top s = s\<lparr>monitor := (if monitor_thread_free s = [] then Mon_waiting else Mon_collecting)\<rparr>"

definition monitor_wake :: "'a ThreadPool \<Rightarrow> 'a ThreadPool" where
  "monitor_wake s = s\<lparr>monitor := (if pool_status s \<noteq> TPS_RUNNING then Mon_gone else Mon_top)\<rparr>"

text \<open>
  The first thread that reported itself free is looked up and joined, then, when it has ended, its object
  is erased from the pool's list and it is taken off the other list.
\<close>

definition drop_free :: "'a ThreadPool \<Rightarrow> 'a ThreadPool" where
  "drop_free s = s\<lparr>monitor_thread_free := tl (monitor_thread_free s),
     monitor := (if tl (monitor_thread_free s) = [] then Mon_top else Mon_collecting)\<rparr>"

definition monitor_collect :: "'a ThreadPool \<Rightarrow> 'a ThreadPool" where
  "monitor_collect s =
     (case monitor_thread_free s of
        [] \<Rightarrow> s\<lparr>monitor := Mon_top\<rparr>
      | i # rest \<Rightarrow>
          if i \<notin> set (thread_objects s) then drop_free s
          else if i \<in> set (thread_joined s) then second_join s
          else s\<lparr>thread_joined := thread_joined s @ [i], monitor := Mon_joining i\<rparr>)"

definition monitor_erase :: "nat \<Rightarrow> 'a ThreadPool \<Rightarrow> 'a ThreadPool" where
  "monitor_erase i s = drop_free (s\<lparr>thread_objects := remove1 i (thread_objects s)\<rparr>)"

text \<open>While it collects it holds the mutex of its list, while it joins that of the pool's list too.\<close>

fun holds_monitor_mutex :: "monitor_pc \<Rightarrow> bool" where
  "holds_monitor_mutex Mon_collecting = True"
| "holds_monitor_mutex (Mon_joining i) = True"
| "holds_monitor_mutex _ = False"

fun holds_thread_pool_mutex :: "monitor_pc \<Rightarrow> bool" where
  "holds_thread_pool_mutex (Mon_joining i) = True"
| "holds_thread_pool_mutex _ = False"

subsection \<open>The destructor\<close>

text \<open>
  It wakes everybody and joins the threads of the list one after the other, without the mutex of
  the list: it calls \<open>Join\<close> of the element it is at, waits until the thread has ended, and goes on to the
  next element. An element the monitor has erased in the meantime is a destroyed object.
\<close>

fun first_thread :: "nat list \<Rightarrow> destructor_pc" where
  "first_thread [] = All_joined"
| "first_thread (i # is) = At_thread i"

fun next_thread :: "nat \<Rightarrow> nat list \<Rightarrow> destructor_pc" where
  "next_thread i [] = All_joined"
| "next_thread i (j # is) = (if i = j then first_thread is else next_thread i is)"

definition destroy_begin :: "'a ThreadPool \<Rightarrow> 'a ThreadPool" where
  "destroy_begin s = s\<lparr>joining := first_thread (thread_objects s)\<rparr>"

definition destroy_join :: "nat \<Rightarrow> 'a ThreadPool \<Rightarrow> 'a ThreadPool" where
  "destroy_join i s =
     (if i \<notin> set (thread_objects s) then fail Undefined_behaviour s
      else if i \<in> set (thread_joined s) then second_join s
      else s\<lparr>thread_joined := thread_joined s @ [i], joining := Joining i\<rparr>)"

definition destroy_next :: "nat \<Rightarrow> 'a ThreadPool \<Rightarrow> 'a ThreadPool" where
  "destroy_next i s =
     (if i \<notin> set (thread_objects s) then fail Undefined_behaviour s
      else s\<lparr>joining := next_thread i (thread_objects s)\<rparr>)"

subsection \<open>Steps\<close>

inductive worker_step :: "'a ThreadPool \<Rightarrow> 'a ThreadPool \<Rightarrow> bool" where
  work_loop: "i < length (workers s) \<Longrightarrow> workers s ! i = At_loop \<Longrightarrow> worker_step s (worker_loop i s)"
| work_wake: "i < length (workers s) \<Longrightarrow> workers s ! i = Waiting
    \<Longrightarrow> \<not> timeout \<or> now_thread_num s \<le> int (kCorePoolSize s) \<or> \<not> holds_monitor_mutex (monitor s)
    \<Longrightarrow> worker_step s (worker_wake timeout i s)"
| work_begin: "i < length (workers s) \<Longrightarrow> workers s ! i = Popped task \<Longrightarrow> worker_step s (worker_begin i task s)"
| work_done: "i < length (workers s) \<Longrightarrow> workers s ! i = Running task \<Longrightarrow> worker_step s (worker_done i task s)"

inductive monitor_step :: "'a ThreadPool \<Rightarrow> 'a ThreadPool \<Rightarrow> bool" where
  mon_top: "monitor s = Mon_top \<Longrightarrow> monitor_step s (monitor_top s)"
| mon_wake: "monitor s = Mon_waiting \<Longrightarrow> monitor_step s (monitor_wake s)"
| mon_collect: "monitor s = Mon_collecting \<Longrightarrow> monitor_step s (monitor_collect s)"
| mon_erase: "monitor s = Mon_joining i \<Longrightarrow> i < length (workers s) \<Longrightarrow> workers s ! i = Gone
    \<Longrightarrow> monitor_step s (monitor_erase i s)"

definition pool_work :: "'a ThreadPool \<Rightarrow> 'a ThreadPool \<Rightarrow> bool" where
  "pool_work s s' \<longleftrightarrow> worker_step s s' \<or> monitor_step s s'"

inductive pool_step :: "build \<Rightarrow> 'a ThreadPool \<Rightarrow> 'a ThreadPool \<Rightarrow> bool" for bld :: build where
  step_check: "Commit_check bld f s = Inr s' \<Longrightarrow> pool_step bld s s'"
| step_append: "f \<in> set (entering s) \<Longrightarrow> kMaxTaskSize s > length (tasks s) \<or> \<not> holds_thread_pool_mutex (monitor s)
    \<Longrightarrow> Commit_append bld f s = Inr s' \<Longrightarrow> pool_step bld s s'"
| step_shutdown: "pool_step bld s (ShutDown s)"
| step_work: "pool_work s s' \<Longrightarrow> pool_step bld s s'"

text \<open>While the destructor runs, no operation is called.\<close>

inductive join_step :: "'a ThreadPool \<Rightarrow> 'a ThreadPool \<Rightarrow> bool" where
  join_call: "joining s = At_thread i \<Longrightarrow> join_step s (destroy_join i s)"
| join_return: "joining s = Joining i \<Longrightarrow> i < length (workers s) \<Longrightarrow> workers s ! i = Gone
    \<Longrightarrow> join_step s (destroy_next i s)"

definition closing_step :: "'a ThreadPool \<Rightarrow> 'a ThreadPool \<Rightarrow> bool" where
  "closing_step s s' \<longleftrightarrow> pool_fault s = None \<and> (pool_work s s' \<or> join_step s s')"

definition pool_init :: "build \<Rightarrow> nat \<Rightarrow> nat \<Rightarrow> nat \<Rightarrow> 'a ThreadPool \<Rightarrow> bool" where
  "pool_init bld mx core mt s \<longleftrightarrow> (\<exists>name. ThreadPool_new bld name mx core mt = Inr s)"

subsection \<open>Counting workers\<close>

fun live :: "'a worker_state \<Rightarrow> bool" where
  "live Gone = False"
| "live _ = True"

fun idling :: "'a worker_state \<Rightarrow> bool" where
  "idling (Running _) = False"
| "idling Gone = False"
| "idling _ = True"

fun holding :: "'a worker_state \<Rightarrow> 'a list" where
  "holding (Popped t) = [t]"
| "holding (Running t) = [t]"
| "holding _ = []"

fun count_workers :: "('a worker_state \<Rightarrow> bool) \<Rightarrow> 'a worker_state list \<Rightarrow> int" where
  "count_workers P [] = 0"
| "count_workers P (w # ws) = (if P w then 1 else 0) + count_workers P ws"

lemma count_workers_append [simp]: "count_workers P (ws @ vs) = count_workers P ws + count_workers P vs"
  by (induction ws) auto

lemma count_workers_mono: "(\<And>w. P w \<Longrightarrow> Q w) \<Longrightarrow> 0 \<le> count_workers P ws \<and> count_workers P ws \<le> count_workers Q ws"
  by (induction ws) force+

lemma count_workers_positive: "0 < count_workers P ws \<Longrightarrow> \<exists>i < length ws. P (ws ! i)"
proof (induction ws)
  case (Cons w ws)
  then show ?case by (cases "P w") (auto intro: exI [of _ 0] exI [of _ "Suc _"] split: if_splits)
qed simp

lemma count_workers_update:
  "i < length ws \<Longrightarrow> count_workers P (ws[i := w]) = count_workers P ws - (if P (ws ! i) then 1 else 0) + (if P w then 1 else 0)"
proof (induction ws arbitrary: i)
  case (Cons v ws)
  then show ?case by (cases i) auto
qed simp

lemma held_update:
  "i < length ws \<Longrightarrow> mset (concat (map holding (ws[i := w]))) + mset (holding (ws ! i))
     = mset (concat (map holding ws)) + mset (holding w)"
proof (induction ws arbitrary: i)
  case (Cons v ws)
  then show ?case by (cases i) (auto simp: algebra_simps)
qed simp

text \<open>
  The counters count, no more than the maximum are alive, and a task is queued, held by a worker
  or finished.
\<close>

definition objects_inv :: "'a ThreadPool \<Rightarrow> bool" where
  "objects_inv s \<longleftrightarrow> distinct (thread_objects s) \<and> distinct (monitor_thread_free s)
     \<and> (\<forall>i \<in> set (thread_objects s) \<union> set (monitor_thread_free s). i < length (workers s))
     \<and> (\<forall>i \<in> set (monitor_thread_free s). workers s ! i = Gone)
     \<and> (\<forall>i < length (workers s). workers s ! i \<noteq> Gone \<longrightarrow> i \<in> set (thread_objects s))"

definition pool_inv :: "nat \<Rightarrow> nat \<Rightarrow> 'a ThreadPool \<Rightarrow> bool" where
  "pool_inv mx core s \<longleftrightarrow> kMaxPoolSize s = mx \<and> kCorePoolSize s = core
     \<and> now_thread_num s = count_workers live (workers s) \<and> now_thread_num s \<le> int mx
     \<and> idle_thread_num s = count_workers idling (workers s)
     \<and> committed s = taken s @ tasks s
     \<and> mset (taken s) = mset (finished s) + mset (concat (map holding (workers s)))
     \<and> objects_inv s"

lemma add_threads_fields [simp]:
  "tasks (add_threads n s) = tasks s" "committed (add_threads n s) = committed s"
  "taken (add_threads n s) = taken s" "entering (add_threads n s) = entering s" "finished (add_threads n s) = finished s"
  "kMaxTaskSize (add_threads n s) = kMaxTaskSize s" "kCorePoolSize (add_threads n s) = kCorePoolSize s"
  "pool_status (add_threads n s) = pool_status s"
  by (induction n s rule: add_threads.induct) auto

lemma objects_inv_fields [simp]:
  "objects_inv (s\<lparr>tasks := ts\<rparr>) = objects_inv s" "objects_inv (s\<lparr>entering := ts\<rparr>) = objects_inv s"
  "objects_inv (s\<lparr>committed := ts\<rparr>) = objects_inv s" "objects_inv (s\<lparr>taken := ts\<rparr>) = objects_inv s"
  "objects_inv (s\<lparr>finished := ts\<rparr>) = objects_inv s" "objects_inv (s\<lparr>pool_status := st\<rparr>) = objects_inv s"
  "objects_inv (s\<lparr>idle_thread_num := n\<rparr>) = objects_inv s" "objects_inv (s\<lparr>now_thread_num := n\<rparr>) = objects_inv s"
  "objects_inv (s\<lparr>monitor := m\<rparr>) = objects_inv s" "objects_inv (s\<lparr>joining := j\<rparr>) = objects_inv s"
  "objects_inv (s\<lparr>thread_joined := is\<rparr>) = objects_inv s" "objects_inv (s\<lparr>pool_fault := f\<rparr>) = objects_inv s"
  by (simp_all add: objects_inv_def)

lemma add_thread_objects:
  "objects_inv s \<Longrightarrow> objects_inv (s\<lparr>thread_objects := thread_objects s @ [length (workers s)],
     workers := workers s @ [At_loop], thread_names := thread_names s @ [worker_name s]\<rparr>)"
  by (auto simp: objects_inv_def nth_append less_Suc_eq)

lemma add_thread_inv:
  "pool_inv mx core s \<Longrightarrow> now_thread_num s < int (kMaxPoolSize s)
    \<Longrightarrow> pool_inv mx core (s\<lparr>thread_objects := thread_objects s @ [length (workers s)],
     workers := workers s @ [At_loop], thread_names := thread_names s @ [worker_name s],
     idle_thread_num := idle_thread_num s + 1, now_thread_num := now_thread_num s + 1\<rparr>)"
  by (simp add: pool_inv_def add_thread_objects)

lemma add_threads_inv: "pool_inv mx core s \<Longrightarrow> pool_inv mx core (add_threads n s)"
proof (induction n s rule: add_threads.induct)
  case (2 n s)
  then show ?case by (simp add: add_thread_inv)
qed simp

lemma set_worker_objects:
  assumes "objects_inv s" and "i < length (workers s)" and "workers s ! i \<noteq> Gone"
  shows "objects_inv (set_worker i w s)"
proof -
  have "i \<notin> set (monitor_thread_free s)" using assms by (auto simp: objects_inv_def)
  then show ?thesis using assms by (auto simp: objects_inv_def set_worker_def nth_list_update)
qed

subsection \<open>The invariant\<close>

lemma AddThread_ok: "AddThread bld n s = Inr t \<longleftrightarrow> t = add_threads n s \<and> (bld = Debug \<longrightarrow> pool_status s = TPS_RUNNING)"
  by (auto simp: AddThread_def result_simps)

lemma Commit_check_ok:
  "Commit_check bld f s = Inr t
     \<longleftrightarrow> t = s\<lparr>entering := entering s @ [f]\<rparr> \<and> (bld = Debug \<longrightarrow> pool_status s = TPS_RUNNING)"
  by (auto simp: Commit_check_def result_simps)

lemma Commit_append_ok:
  assumes "Commit_append bld f s = Inr t"
  obtains s1 where "s1 = s \<or> s1 = add_threads 1 s \<and> kMaxTaskSize s \<le> length (tasks s)"
    and "t = s1\<lparr>tasks := tasks s1 @ [f], entering := remove1 f (entering s1), committed := committed s1 @ [f]\<rparr>"
proof -
  from assms obtain s1 where "(if kMaxTaskSize s > length (tasks s) then Inr s else AddThread bld 1 s) = Inr s1"
    and t: "t = s1\<lparr>tasks := tasks s1 @ [f], entering := remove1 f (entering s1), committed := committed s1 @ [f]\<rparr>"
    unfolding Commit_append_def result_simps by blast
  then have "s1 = s \<or> s1 = add_threads 1 s \<and> kMaxTaskSize s \<le> length (tasks s)"
    by (simp add: AddThread_ok split: if_splits del: add_threads.simps One_nat_def)
  from this t show thesis by (rule that)
qed

lemma Commit_append_inv: "Commit_append bld f s = Inr t \<Longrightarrow> pool_inv mx core s \<Longrightarrow> pool_inv mx core t"
proof (elim Commit_append_ok)
  fix s1
  assume "s1 = s \<or> s1 = add_threads 1 s \<and> kMaxTaskSize s \<le> length (tasks s)" "pool_inv mx core s"
    and t: "t = s1\<lparr>tasks := tasks s1 @ [f], entering := remove1 f (entering s1), committed := committed s1 @ [f]\<rparr>"
  then have "pool_inv mx core s1" using add_threads_inv by blast
  with t show "pool_inv mx core t" by (auto simp: pool_inv_def)
qed

lemmas worker_ops = worker_loop_def worker_wake_def worker_begin_def worker_done_def set_worker_def leave_def

lemmas join_ops = fail_def second_join_def drop_free_def destroy_join_def destroy_next_def

lemmas monitor_ops = monitor_top_def monitor_wake_def monitor_collect_def monitor_erase_def fail_def second_join_def drop_free_def

lemma worker_step_objects: "worker_step s t \<Longrightarrow> objects_inv s \<Longrightarrow> objects_inv t"
proof (induction rule: worker_step.induct)
  case (work_wake i s timeout)
  then have "i \<notin> set (monitor_thread_free s)" by (auto simp: objects_inv_def)
  then show ?case using work_wake by (auto simp: objects_inv_def worker_wake_def leave_def set_worker_def nth_list_update)
qed (auto simp: worker_loop_def worker_begin_def worker_done_def leave_def split: list.splits intro!: set_worker_objects)

lemma worker_step_inv: "worker_step s t \<Longrightarrow> pool_inv mx core s \<Longrightarrow> pool_inv mx core t"
proof -
  assume step: "worker_step s t" and inv: "pool_inv mx core s"
  then have "objects_inv t" using worker_step_objects by (auto simp: pool_inv_def)
  with step inv show "pool_inv mx core t"
  proof (induction rule: worker_step.induct)
    case (work_loop i s)
    then show ?case using held_update [of i "workers s" Gone] held_update [of i "workers s" "Popped (hd (tasks s))"]
        held_update [of i "workers s" Waiting]
      by (auto simp: pool_inv_def worker_ops count_workers_update split: list.splits)
  next
    case (work_wake i s timeout)
    then show ?case using held_update [of i "workers s" Gone] held_update [of i "workers s" At_loop]
      by (auto simp: pool_inv_def worker_ops count_workers_update)
  next
    case (work_begin i s task)
    then show ?case using held_update [of i "workers s" "Running task"]
      by (auto simp: pool_inv_def worker_ops count_workers_update)
  next
    case (work_done i s task)
    then show ?case using held_update [of i "workers s" At_loop]
      by (auto simp: pool_inv_def worker_ops count_workers_update)
  qed
qed

lemma drop_free_objects: "objects_inv s \<Longrightarrow> objects_inv (drop_free s)"
  by (cases "monitor_thread_free s") (auto simp: drop_free_def objects_inv_def)

lemma monitor_erase_objects:
  "objects_inv s \<Longrightarrow> i < length (workers s) \<Longrightarrow> workers s ! i = Gone \<Longrightarrow> objects_inv (monitor_erase i s)"
  unfolding monitor_erase_def by (rule drop_free_objects) (auto simp: objects_inv_def)

lemma monitor_step_objects: "monitor_step s t \<Longrightarrow> objects_inv s \<Longrightarrow> objects_inv t"
  by (induction rule: monitor_step.induct)
    (auto simp: monitor_top_def monitor_wake_def monitor_collect_def fail_def second_join_def
      intro: drop_free_objects monitor_erase_objects split: list.split)

lemma monitor_step_inv: "monitor_step s t \<Longrightarrow> pool_inv mx core s \<Longrightarrow> pool_inv mx core t"
proof -
  assume step: "monitor_step s t" and inv: "pool_inv mx core s"
  then have obj: "objects_inv t" using monitor_step_objects [OF step] by (simp add: pool_inv_def)
  from step show ?thesis
    by cases (use inv obj in \<open>simp_all add: pool_inv_def monitor_ops split: list.splits if_splits\<close>)
qed

lemma pool_work_inv: "pool_work s t \<Longrightarrow> pool_inv mx core s \<Longrightarrow> pool_inv mx core t"
  by (auto simp: pool_work_def intro: worker_step_inv monitor_step_inv)

lemma pool_step_inv: "pool_step bld s t \<Longrightarrow> pool_inv mx core s \<Longrightarrow> pool_inv mx core t"
  by (erule pool_step.cases)
    (auto simp: Commit_check_ok ShutDown_def pool_inv_def intro: Commit_append_inv pool_work_inv [unfolded pool_inv_def]
          dest: Commit_append_inv [unfolded pool_inv_def] pool_work_inv [unfolded pool_inv_def])

lemma ThreadPool_new_inv: "ThreadPool_new bld name mx core mt = Inr s \<Longrightarrow> pool_inv mx core s"
  by (auto simp: ThreadPool_new_def AddThread_ok intro!: add_threads_inv) (simp_all add: pool_inv_def objects_inv_def)

interpretation pool_runs: invariant_system "pool_init bld mx core mt" "pool_step bld" "pool_inv mx core"
  for bld mx core mt
  by unfold_locales (auto simp: pool_init_def dest: ThreadPool_new_inv pool_step_inv)

lemma counters_exact:
  assumes "reach (pool_init bld mx core mt) (pool_step bld) s" and "mx < 2 ^ 32"
  shows "uint (ThreadCount s) = now_thread_num s" "uint (IdleThreadCount s) = idle_thread_num s"
    "now_thread_num s = count_workers live (workers s)" "idle_thread_num s = count_workers idling (workers s)"
    "0 \<le> idle_thread_num s" "idle_thread_num s \<le> now_thread_num s" "now_thread_num s \<le> int mx"
proof -
  have inv: "pool_inv mx core s" by (rule pool_runs.reach_inv [OF assms(1)])
  have "idling w \<Longrightarrow> live w" for w :: "'a worker_state" by (cases w) auto
  then show bounds: "0 \<le> idle_thread_num s" "idle_thread_num s \<le> now_thread_num s" "now_thread_num s \<le> int mx"
      "now_thread_num s = count_workers live (workers s)" "idle_thread_num s = count_workers idling (workers s)"
    using inv count_workers_mono [of idling live "workers s"] by (simp_all add: pool_inv_def)
  then show "uint (ThreadCount s) = now_thread_num s" "uint (IdleThreadCount s) = idle_thread_num s"
    using assms(2) by (simp_all add: IdleThreadCount_def ThreadCount_def unsigned_ucast_eq uint_word_of_int take_bit_int_eq_self)
qed

lemma pool_step_now: "pool_step bld s t \<Longrightarrow> now_thread_num t \<le> now_thread_num s + 1"
proof -
  assume "pool_step bld s t"
  then show ?thesis
  proof cases
    case (step_append f)
    from step_append(3) obtain s1 where "s1 = s \<or> s1 = add_threads 1 s \<and> kMaxTaskSize s \<le> length (tasks s)"
      and t: "t = s1\<lparr>tasks := tasks s1 @ [f], entering := remove1 f (entering s1), committed := committed s1 @ [f]\<rparr>"
      by (rule Commit_append_ok)
    then have "now_thread_num s1 \<le> now_thread_num s + 1" by auto
    then show ?thesis by (simp add: t)
  next
    case step_work
    then show ?thesis unfolding pool_work_def
      by (elim disjE worker_step.cases monitor_step.cases)
        (auto simp: worker_ops monitor_ops split: list.splits)
  qed (auto simp: Commit_check_ok ShutDown_def)
qed

text \<open>
  C18: whatever the interleaving, \<open>now_thread_num_\<close> is the number of workers that have not left
  their loop, \<open>idle_thread_num_\<close> the number of those that run no task, and between them and zero and
  \<open>kMaxPoolSize_\<close>, an \<open>unsigned int\<close>, the two unsigned counters never wrap. A worker that comes or
  goes changes the idle counter first, and nobody needs a mutex to read them: whoever reads between
  the two changes of such a step sees at most one more idle worker than there are workers.
\<close>

theorem pool_counters:
  assumes "reach (pool_init bld mx core mt) (pool_step bld) s" and "mx < 2 ^ 32"
  shows "uint (ThreadCount s) = count_workers live (workers s) \<and> uint (IdleThreadCount s) = count_workers idling (workers s)
    \<and> uint (IdleThreadCount s) \<le> uint (ThreadCount s) \<and> uint (ThreadCount s) \<le> int mx
    \<and> (\<forall>t. pool_step bld s t \<longrightarrow> uint (IdleThreadCount t) \<le> uint (ThreadCount s) + 1)"
proof -
  have "uint (IdleThreadCount t) \<le> uint (ThreadCount s) + 1" if "pool_step bld s t" for t
    using counters_exact [OF reach_step [where step = "pool_step bld", OF assms(1) that] assms(2)] pool_step_now [OF that]
      counters_exact [OF assms] by simp
  then show ?thesis using counters_exact [OF assms] by simp
qed

text \<open>
  C17: tasks are taken in the order in which they were committed, each of them once: those taken
  are the first of the committed ones, the queue holds the rest in order, and a task that was taken
  is finished or in the hands of exactly one worker.
\<close>

theorem pool_fifo:
  assumes "reach (pool_init bld mx core mt) (pool_step bld) s"
  shows "committed s = taken s @ tasks s
    \<and> mset (taken s) = mset (finished s) + mset (concat (map holding (workers s)))"
  using pool_runs.reach_inv [OF assms] by (simp add: pool_inv_def)

subsection \<open>Shutting down\<close>

text \<open>Once the pool is shut down with no call of \<open>Commit\<close> under way, none can enter it.\<close>

definition closed_pool :: "'a ThreadPool \<Rightarrow> bool" where
  "closed_pool s \<longleftrightarrow> pool_status s \<noteq> TPS_RUNNING \<and> entering s = []
     \<and> (pool_status s = TPS_TERMINATED \<longrightarrow> tasks s = [])"

lemma pool_work_closed: "pool_work s t \<Longrightarrow> closed_pool s \<Longrightarrow> closed_pool t"
  unfolding pool_work_def
  by (elim disjE worker_step.cases monitor_step.cases)
    (auto simp: closed_pool_def worker_ops monitor_ops split: list.splits if_splits)

lemma pool_step_closed: "pool_step Debug s t \<Longrightarrow> closed_pool s \<Longrightarrow> closed_pool t"
  by (erule pool_step.cases) (auto simp: Commit_check_ok intro: pool_work_closed, auto simp: closed_pool_def ShutDown_def)

interpretation closed_runs: invariant_system "\<lambda>s. closed_pool s" "pool_step Debug" closed_pool
  by unfold_locales (auto intro: pool_step_closed)

text \<open>
  A shut down pool drains: if no call of \<open>Commit\<close> is between its check and its critical
  section when \<open>ShutDown\<close> is called, then in every later state in which a worker has declared the
  pool terminated no task is left, and every task ever committed was taken.
\<close>

theorem pool_shutdown_drains:
  assumes "reach (pool_init Debug mx core mt) (pool_step Debug) s" and "entering s = []"
    and "(pool_step Debug)\<^sup>*\<^sup>* (ShutDown s) t" and "pool_status t = TPS_TERMINATED"
  shows "tasks t = [] \<and> committed t = taken t"
proof -
  have "closed_pool (ShutDown s)" using assms(2) by (simp add: closed_pool_def ShutDown_def)
  then have closed: "closed_pool t" by (rule closed_runs.run_inv [OF assms(3)])
  have "pool_inv mx core (ShutDown s)"
    using pool_runs.reach_inv [OF assms(1)] by (simp add: pool_inv_def ShutDown_def)
  then have "pool_inv mx core t" by (rule pool_runs.run_inv [OF assms(3)])
  with closed assms(4) show ?thesis by (simp add: closed_pool_def pool_inv_def)
qed

subsection \<open>A pool with no core workers\<close>

definition unstarted :: "nat \<Rightarrow> 'a ThreadPool \<Rightarrow> bool" where
  "unstarted mt s \<longleftrightarrow> kMaxTaskSize s = mt
     \<and> (length (committed s) \<le> mt \<longrightarrow> workers s = [] \<and> tasks s = committed s \<and> taken s = [])"

lemma pool_work_unstarted: "pool_work s t \<Longrightarrow> unstarted mt s \<Longrightarrow> unstarted mt t"
  unfolding pool_work_def
  by (elim disjE worker_step.cases monitor_step.cases) (auto simp: unstarted_def worker_ops monitor_ops split: list.splits)

lemma pool_step_unstarted: "pool_step bld s t \<Longrightarrow> unstarted mt s \<Longrightarrow> unstarted mt t"
proof (induction rule: pool_step.induct)
  case (step_append f s t)
  from step_append(3) obtain s1 where "s1 = s \<or> s1 = add_threads 1 s \<and> kMaxTaskSize s \<le> length (tasks s)"
    and "t = s1\<lparr>tasks := tasks s1 @ [f], entering := remove1 f (entering s1), committed := committed s1 @ [f]\<rparr>"
    by (rule Commit_append_ok)
  with step_append(4) show ?case by (auto simp: unstarted_def simp del: add_threads.simps One_nat_def)
qed (auto simp: Commit_check_ok ShutDown_def intro: pool_work_unstarted, auto simp: unstarted_def)

interpretation unstarted_runs: invariant_system "pool_init bld mx 0 mt" "pool_step bld" "unstarted mt"
  for bld mx mt
  by unfold_locales
    (auto simp: pool_init_def ThreadPool_new_def AddThread_ok unstarted_def dest: pool_step_unstarted)

text \<open>
  A pool whose core size is zero (the default on a machine with one processor, where half of
  \<open>hardware_concurrency\<close> is zero) starts no worker until its queue overflows: as long as no more than
  \<open>kMaxTaskSize_\<close> tasks were committed, all of them are still queued and nobody will run them.
\<close>

theorem pool_without_core_stalls:
  assumes "reach (pool_init bld mx 0 mt) (pool_step bld) s" and "length (committed s) \<le> mt"
  shows "workers s = [] \<and> tasks s = committed s \<and> finished s = []"
proof -
  have "unstarted mt s" by (rule unstarted_runs.reach_inv [OF assms(1)])
  moreover have "pool_inv mx 0 s" by (rule pool_runs.reach_inv [OF assms(1)])
  ultimately show ?thesis using assms(2) by (simp add: unstarted_def pool_inv_def)
qed

subsection \<open>Concrete pools\<close>

lemmas pool_reach_step = reach_step [where step = "pool_step Debug"]
lemmas pool_run_step = r_into_rtranclp [where r = "pool_step Debug"]
lemmas pool_run_steps = rtranclp.rtrancl_into_rtrancl [where r = "pool_step Debug"]

definition sample_pool :: "nat \<Rightarrow> ThreadPoolStatus \<Rightarrow> nat list \<Rightarrow> nat worker_state list \<Rightarrow> nat list \<Rightarrow> nat list \<Rightarrow> nat ThreadPool" where
  "sample_pool core st ts ws en tk =
     \<lparr>pool_build = Debug, thread_pool_name = ''pool'', kMaxPoolSize = 1, kCorePoolSize = core, kMaxTaskSize = 5, pool_status = st, tasks = ts,
      workers = ws, thread_names = map (\<lambda>_. ''TP_Work1'') ws, thread_objects = [0..<length ws], thread_joined = [], monitor_thread_free = [],
      idle_thread_num = count_workers idling ws, now_thread_num = count_workers live ws,
      entering = en, monitor = Mon_top, joining = Not_destroying, pool_fault = None, committed = tk @ ts, taken = tk, finished = []\<rparr>"

lemma worker_name_first [simp]: "now_thread_num s = 0 \<Longrightarrow> worker_name s = ''TP_Work1''"
  "now_thread_num s = 1 \<Longrightarrow> worker_name s = ''TP_Work2''"
  by (simp_all add: worker_name_def dec_nat_def dec_digit_def render_nat.simps)

lemma sample_new: "pool_init Debug 1 1 5 (sample_pool 1 TPS_RUNNING [] [At_loop] [] [])"
  by (simp add: pool_init_def ThreadPool_new_def AddThread_def sample_pool_def)

lemma sample_check: "pool_step Debug (sample_pool c TPS_RUNNING [] ws [] []) (sample_pool c TPS_RUNNING [] ws [7] [])"
  by (rule step_check [of _ 7]) (simp add: Commit_check_def sample_pool_def)

lemma sample_append: "pool_step Debug (sample_pool c st [] ws [7] []) (sample_pool c st [7] ws [] [])"
  by (rule step_append [of 7]) (simp_all add: Commit_append_def sample_pool_def)

lemma sample_take:
  "pool_step Debug (sample_pool 1 TPS_RUNNING [7] [At_loop] [] []) (sample_pool 1 TPS_RUNNING [] [Popped 7] [] [7])"
proof -
  have "worker_step (sample_pool 1 TPS_RUNNING [7] [At_loop] [] []) (worker_loop 0 (sample_pool 1 TPS_RUNNING [7] [At_loop] [] []))"
    by (rule work_loop) (simp_all add: sample_pool_def)
  also have "worker_loop 0 (sample_pool 1 TPS_RUNNING [7] [At_loop] [] []) = sample_pool 1 TPS_RUNNING [] [Popped 7] [] [7]"
    by (simp add: worker_ops sample_pool_def)
  finally show ?thesis by (intro step_work) (simp add: pool_work_def)
qed

lemma sample_leave: "pool_step Debug (sample_pool 1 TPS_SHUTDOWN [] [At_loop] en []) (sample_pool 1 TPS_TERMINATED [] [Gone] en [])"
proof -
  have "worker_step (sample_pool 1 TPS_SHUTDOWN [] [At_loop] en []) (worker_loop 0 (sample_pool 1 TPS_SHUTDOWN [] [At_loop] en []))"
    by (rule work_loop) (simp_all add: sample_pool_def)
  also have "worker_loop 0 (sample_pool 1 TPS_SHUTDOWN [] [At_loop] en []) = sample_pool 1 TPS_TERMINATED [] [Gone] en []"
    by (simp add: worker_ops sample_pool_def)
  finally show ?thesis by (intro step_work) (simp add: pool_work_def)
qed

lemma sample_ShutDown: "ShutDown (sample_pool c TPS_RUNNING ts ws en tk) = sample_pool c TPS_SHUTDOWN ts ws en tk"
  by (simp add: ShutDown_def sample_pool_def)

lemma sample_reach: "reach (pool_init Debug 1 1 5) (pool_step Debug) (sample_pool 1 TPS_RUNNING [] [Popped 7] [] [7])"
  by (intro pool_reach_step [OF _ sample_take] pool_reach_step [OF _ sample_append] pool_reach_step [OF _ sample_check]
       reach_init sample_new)

theorem pool_counters_witness: "uint (ThreadCount (sample_pool 1 TPS_RUNNING [] [Popped 7] [] [7])) = 1"
  using pool_counters [OF sample_reach] by (simp add: sample_pool_def)

theorem pool_fifo_witness: "committed (sample_pool 1 TPS_RUNNING [] [Popped 7] [] [7]) = [7] @ []"
  using pool_fifo [OF sample_reach] by (simp add: sample_pool_def)

theorem pool_shutdown_drains_witness: "tasks (sample_pool 1 TPS_TERMINATED [] [Gone] [] []) = []"
proof -
  have "(pool_step Debug)\<^sup>*\<^sup>* (ShutDown (sample_pool 1 TPS_RUNNING [] [At_loop] [] [])) (sample_pool 1 TPS_TERMINATED [] [Gone] [] [])"
    unfolding sample_ShutDown by (rule pool_run_step [OF sample_leave])
  moreover have "reach (pool_init Debug 1 1 5) (pool_step Debug) (sample_pool 1 TPS_RUNNING [] [At_loop] [] [])"
    by (rule reach_init) (rule sample_new)
  ultimately show ?thesis using pool_shutdown_drains [of 1 1 5 "sample_pool 1 TPS_RUNNING [] [At_loop] [] []"]
    by (simp add: sample_pool_def)
qed

theorem pool_without_core_stalls_witness: "workers (sample_pool 0 TPS_RUNNING [7] [] [] []) = []"
proof -
  have "pool_init Debug 1 0 5 (sample_pool 0 TPS_RUNNING [] [] [] [])"
    by (simp add: pool_init_def ThreadPool_new_def AddThread_def sample_pool_def)
  then have "reach (pool_init Debug 1 0 5) (pool_step Debug) (sample_pool 0 TPS_RUNNING [7] [] [] [])"
    by (intro pool_reach_step [OF _ sample_append] pool_reach_step [OF _ sample_check] reach_init)
  from pool_without_core_stalls [OF this] show ?thesis by (simp add: sample_pool_def)
qed

text \<open>
  The condition on the calls under way is needed: a call that passed its check before
  \<open>ShutDown\<close> appends its task after the last worker has left, and the task is never taken.
\<close>

theorem commit_races_with_shutdown:
  "\<exists>s t :: nat ThreadPool. reach (pool_init Debug 1 1 5) (pool_step Debug) s \<and> (pool_step Debug)\<^sup>*\<^sup>* (ShutDown s) t
     \<and> pool_status t = TPS_TERMINATED \<and> now_thread_num t = 0 \<and> tasks t = [7]"
proof -
  let ?s = "sample_pool 1 TPS_RUNNING [] [At_loop] [7] []"
  let ?t = "sample_pool 1 TPS_TERMINATED [7] [Gone] [] []"
  have "reach (pool_init Debug 1 1 5) (pool_step Debug) ?s"
    by (intro pool_reach_step [OF _ sample_check] reach_init sample_new)
  moreover have "(pool_step Debug)\<^sup>*\<^sup>* (ShutDown ?s) ?t"
    unfolding sample_ShutDown by (rule pool_run_steps [OF pool_run_step [OF sample_leave] sample_append])
  moreover have "pool_status ?t = TPS_TERMINATED \<and> now_thread_num ?t = 0 \<and> tasks ?t = [7]"
    by (simp add: sample_pool_def)
  ultimately show ?thesis by blast
qed

subsection \<open>What is left to do after shutting down\<close>

fun worker_work :: "'a worker_state \<Rightarrow> nat" where
  "worker_work Waiting = 4"
| "worker_work At_loop = 1"
| "worker_work (Popped t) = 3"
| "worker_work (Running t) = 2"
| "worker_work Gone = 0"

fun monitor_work :: "monitor_pc \<Rightarrow> nat" where
  "monitor_work Mon_top = 2"
| "monitor_work Mon_waiting = 1"
| "monitor_work Mon_collecting = 1"
| "monitor_work _ = 0"

fun join_work :: "destructor_pc \<Rightarrow> nat list \<Rightarrow> nat" where
  "join_work (At_thread i) objs = Suc (2 * length (dropWhile (\<lambda>j. j \<noteq> i) objs))"
| "join_work (Joining i) objs = 2 * length (dropWhile (\<lambda>j. j \<noteq> i) objs)"
| "join_work _ objs = 0"

definition work_left :: "'a ThreadPool \<Rightarrow> nat" where
  "work_left s = 3 * length (tasks s) + sum_list (map worker_work (workers s)) + 3 * length (monitor_thread_free s)
     + monitor_work (monitor s) + join_work (joining s) (thread_objects s) + (if pool_fault s = None then 1 else 0)"

lemma work_update:
  "i < length ws \<Longrightarrow> sum_list (map worker_work (ws[i := w])) + worker_work (ws ! i) = sum_list (map worker_work ws) + worker_work w"
proof (induction ws arbitrary: i)
  case (Cons v ws)
  then show ?case by (cases i) auto
qed simp

lemma dropWhile_remove1: "distinct xs \<Longrightarrow> length (dropWhile (\<lambda>j. j \<noteq> i) (remove1 x xs)) \<le> length (dropWhile (\<lambda>j. j \<noteq> i) xs)"
proof (induction xs)
  case (Cons y xs)
  have "length (dropWhile (\<lambda>j. j \<noteq> i) xs) \<le> Suc (length xs)" by (simp add: length_dropWhile_le le_SucI)
  then show ?case using Cons by (auto simp: length_remove1)
qed simp

lemma join_work_remove1: "distinct xs \<Longrightarrow> join_work p (remove1 x xs) \<le> join_work p xs"
  using dropWhile_remove1 [of xs _ x] by (cases p) simp_all

lemma dropWhile_distinct_first:
  "distinct (xs @ y # ys) \<Longrightarrow> dropWhile (\<lambda>j. j \<noteq> y) (xs @ y # ys) = y # ys"
  by (induction xs) auto

lemma next_thread_split: "i \<in> set objs \<Longrightarrow> \<exists>pre post. objs = pre @ i # post \<and> i \<notin> set pre \<and> next_thread i objs = first_thread post"
proof (induction objs)
  case (Cons j objs)
  show ?case
  proof (cases "i = j")
    case True
    then show ?thesis by (intro exI [of _ "[]"] exI [of _ objs]) simp
  next
    case False
    with Cons obtain pre post where "objs = pre @ i # post" "i \<notin> set pre" "next_thread i objs = first_thread post" by auto
    then show ?thesis using False by (intro exI [of _ "j # pre"] exI [of _ post]) simp
  qed
qed simp

lemma join_work_next:
  assumes "distinct objs" and "i \<in> set objs"
  shows "join_work (next_thread i objs) objs < join_work (Joining i) objs"
proof -
  from assms(2) obtain pre post where p: "objs = pre @ i # post" "next_thread i objs = first_thread post"
    using next_thread_split by blast
  have "dropWhile (\<lambda>j. j \<noteq> i) objs = i # post" using assms(1) p(1) by (simp add: dropWhile_distinct_first)
  moreover have "dropWhile (\<lambda>j. j \<noteq> y) objs = y # ys" if "post = y # ys" for y ys
    using assms(1) p(1) that dropWhile_distinct_first [of "pre @ [i]" y ys] by simp
  ultimately show ?thesis by (cases post) (simp_all add: p(2))
qed

text \<open>The monitor is at the first entry of its list while it joins.\<close>

definition monitor_ok :: "'a ThreadPool \<Rightarrow> bool" where
  "monitor_ok s \<longleftrightarrow> (monitor s = Mon_collecting \<longrightarrow> monitor_thread_free s \<noteq> [])
     \<and> (\<forall>i. monitor s = Mon_joining i \<longrightarrow> (\<exists>rest. monitor_thread_free s = i # rest))"

definition closing_inv :: "nat \<Rightarrow> nat \<Rightarrow> 'a ThreadPool \<Rightarrow> bool" where
  "closing_inv mx core s \<longleftrightarrow> pool_inv mx core s \<and> pool_status s \<noteq> TPS_RUNNING
     \<and> (pool_status s = TPS_SHUTDOWN \<longrightarrow> int (min core mx) \<le> now_thread_num s)
     \<and> (pool_status s = TPS_TERMINATED \<longrightarrow> tasks s = []) \<and> monitor_ok s
     \<and> (\<forall>i. joining s = At_thread i \<or> joining s = Joining i \<longrightarrow> i < length (workers s))"

lemma worker_step_less: "worker_step s t \<Longrightarrow> pool_status s \<noteq> TPS_RUNNING \<Longrightarrow> work_left t < work_left s"
proof (induction rule: worker_step.induct)
  case (work_loop i s)
  then show ?case using work_update [of i "workers s" Gone] work_update [of i "workers s" "Popped (hd (tasks s))"]
    by (auto simp: worker_loop_def leave_def set_worker_def work_left_def split: list.splits)
next
  case (work_wake i s timeout)
  then show ?case using work_update [of i "workers s" Gone] work_update [of i "workers s" At_loop]
    by (auto simp: worker_wake_def leave_def set_worker_def work_left_def)
next
  case (work_begin i s task)
  then show ?case using work_update [of i "workers s" "Running task"]
    by (auto simp: worker_begin_def set_worker_def work_left_def)
next
  case (work_done i s task)
  then show ?case using work_update [of i "workers s" At_loop]
    by (auto simp: worker_done_def set_worker_def work_left_def)
qed

lemma monitor_step_less:
  "monitor_step s t \<Longrightarrow> pool_status s \<noteq> TPS_RUNNING \<Longrightarrow> monitor_ok s \<Longrightarrow> pool_fault s = None
    \<Longrightarrow> distinct (thread_objects s) \<Longrightarrow> work_left t < work_left s"
proof (induction rule: monitor_step.induct)
  case (mon_collect s)
  then obtain i rest where "monitor_thread_free s = i # rest" by (auto simp: monitor_ok_def neq_Nil_conv)
  then show ?case using mon_collect by (auto simp: monitor_collect_def join_ops work_left_def)
next
  case (mon_erase s i)
  then obtain rest where "monitor_thread_free s = i # rest" by (auto simp: monitor_ok_def)
  then show ?case using mon_erase join_work_remove1 [of "thread_objects s" "joining s" i]
    by (auto simp: monitor_erase_def join_ops work_left_def)
qed (auto simp: monitor_top_def monitor_wake_def work_left_def)

lemma join_step_less: "join_step s t \<Longrightarrow> distinct (thread_objects s) \<Longrightarrow> pool_fault s = None \<Longrightarrow> work_left t < work_left s"
proof (induction rule: join_step.induct)
  case (join_return s i)
  then show ?case using join_work_next [of "thread_objects s" i] by (auto simp: join_ops work_left_def)
qed (auto simp: join_ops work_left_def)

lemma closing_step_less:
  "closing_step s t \<Longrightarrow> closing_inv mx core s \<Longrightarrow> work_left t < work_left s"
  unfolding closing_step_def pool_work_def closing_inv_def pool_inv_def objects_inv_def
  using worker_step_less monitor_step_less join_step_less by blast

subsection \<open>Nothing is left over\<close>

lemma pool_work_committed: "pool_work s t \<Longrightarrow> entering t = entering s \<and> committed t = committed s"
  unfolding pool_work_def
  by (elim disjE worker_step.cases monitor_step.cases) (simp_all add: worker_ops monitor_ops split: list.split)

lemma worker_step_fields:
  "worker_step s t \<Longrightarrow> monitor t = monitor s \<and> joining t = joining s \<and> pool_fault t = pool_fault s
    \<and> thread_objects t = thread_objects s \<and> thread_joined t = thread_joined s \<and> length (workers t) = length (workers s)
    \<and> (\<exists>new. monitor_thread_free t = monitor_thread_free s @ new)
    \<and> (pool_status t = pool_status s \<and> now_thread_num t = now_thread_num s \<and> (tasks s = [] \<longrightarrow> tasks t = [])
       \<or> pool_status t = pool_status s \<and> now_thread_num t = now_thread_num s - 1 \<and> tasks t = tasks s
           \<and> int (kCorePoolSize s) < now_thread_num s
       \<or> pool_status s \<noteq> TPS_RUNNING \<and> pool_status t = TPS_TERMINATED \<and> tasks t = [])"
  by (erule worker_step.cases) (simp_all add: worker_ops split: list.split)

lemma worker_step_now:
  assumes "worker_step s t" and "pool_status t \<noteq> TPS_TERMINATED" and "m \<le> int (kCorePoolSize s)" and "m \<le> now_thread_num s"
  shows "m \<le> now_thread_num t \<and> pool_status t = pool_status s"
proof -
  from worker_step_fields [OF assms(1)] assms(2)
  consider "pool_status t = pool_status s" "now_thread_num t = now_thread_num s"
    | "pool_status t = pool_status s" "now_thread_num t = now_thread_num s - 1" "int (kCorePoolSize s) < now_thread_num s"
    by blast
  then show ?thesis using assms(3,4) by cases auto
qed

lemma monitor_step_fields:
  "monitor_step s t \<Longrightarrow> joining t = joining s \<and> workers t = workers s \<and> pool_status t = pool_status s
    \<and> now_thread_num t = now_thread_num s \<and> tasks t = tasks s"
  by (erule monitor_step.cases) (simp_all add: monitor_ops split: list.split)

lemma worker_step_monitor_ok: "worker_step s t \<Longrightarrow> monitor_ok s \<Longrightarrow> monitor_ok t"
  using worker_step_fields [of s t] unfolding monitor_ok_def by (metis append_Cons append_is_Nil_conv)

lemma drop_free_monitor_ok: "monitor_ok (drop_free s)"
  by (simp add: monitor_ok_def drop_free_def)

lemma monitor_step_monitor_ok: "monitor_step s t \<Longrightarrow> monitor_ok s \<Longrightarrow> monitor_ok t"
  by (erule monitor_step.cases)
    (auto simp: monitor_top_def monitor_wake_def monitor_collect_def monitor_erase_def fail_def second_join_def
      intro: drop_free_monitor_ok split: list.splits, auto simp: monitor_ok_def)

lemma worker_step_closing: "worker_step s t \<Longrightarrow> closing_inv mx core s \<Longrightarrow> closing_inv mx core t"
proof -
  assume step: "worker_step s t" and inv: "closing_inv mx core s"
  then have "pool_inv mx core t" using worker_step_inv by (auto simp: closing_inv_def)
  moreover have "kCorePoolSize s = core" using inv by (simp add: closing_inv_def pool_inv_def)
  moreover have "pool_status t = TPS_SHUTDOWN \<Longrightarrow> int (min core mx) \<le> now_thread_num t"
    using worker_step_fields [OF step] worker_step_now [OF step, of "int (min core mx)"] inv calculation(2)
    unfolding closing_inv_def by (metis ThreadPoolStatus.distinct(5) min.cobounded1 of_nat_le_iff)
  moreover have "pool_status t \<noteq> TPS_RUNNING" "pool_status t = TPS_TERMINATED \<Longrightarrow> tasks t = []"
    using worker_step_fields [OF step] inv unfolding closing_inv_def by (elim conjE disjE; simp)+
  moreover have "joining t = At_thread i \<or> joining t = Joining i \<Longrightarrow> i < length (workers t)" for i
    using worker_step_fields [OF step] inv unfolding closing_inv_def by metis
  moreover have "monitor_ok t" using worker_step_monitor_ok [OF step] inv by (simp add: closing_inv_def)
  ultimately show "closing_inv mx core t" unfolding closing_inv_def by blast
qed

lemma monitor_step_closing: "monitor_step s t \<Longrightarrow> closing_inv mx core s \<Longrightarrow> closing_inv mx core t"
proof -
  assume step: "monitor_step s t" and inv: "closing_inv mx core s"
  then have "pool_inv mx core t" using monitor_step_inv by (auto simp: closing_inv_def)
  then show "closing_inv mx core t" using monitor_step_fields [OF step] monitor_step_monitor_ok [OF step] inv
    unfolding closing_inv_def by (elim conjE) simp
qed

lemma first_thread_in: "first_thread objs = At_thread i \<Longrightarrow> i \<in> set objs"
  by (cases objs) auto

lemma next_thread_kind: "next_thread j objs = Joining i \<Longrightarrow> False" "next_thread j objs = Not_destroying \<Longrightarrow> False"
  by (induction objs) (auto elim: first_thread.elims split: if_splits)

lemma next_thread_in: "next_thread j objs = At_thread i \<Longrightarrow> i \<in> set objs"
  by (induction objs) (auto dest: first_thread_in split: if_splits)

lemma join_step_fields:
  "join_step s t \<Longrightarrow> t = s\<lparr>joining := joining t, thread_joined := thread_joined t, pool_fault := pool_fault t\<rparr>
    \<and> (joining t = joining s \<or> joining t = All_joined
       \<or> (\<exists>i. (joining t = At_thread i \<or> joining t = Joining i) \<and> i \<in> set (thread_objects s)))"
proof (induction rule: join_step.induct)
  case (join_call s i)
  then show ?case by (simp add: join_ops)
next
  case (join_return s i)
  have "next_thread i objs = All_joined \<or> (\<exists>k. next_thread i objs = At_thread k \<and> k \<in> set objs)" for objs
    using next_thread_in [of i objs] by (cases "next_thread i objs") (auto dest: next_thread_kind)
  then show ?case by (auto simp: join_ops)
qed

lemma pool_inv_joins [simp]:
  "pool_inv mx core (s\<lparr>joining := j, thread_joined := is, pool_fault := f\<rparr>) = pool_inv mx core s"
  by (simp add: pool_inv_def)

lemma pool_inv_ends: "pool_inv mx core (ShutDown s) = pool_inv mx core s" "pool_inv mx core (destroy_begin s) = pool_inv mx core s"
  by (simp_all add: pool_inv_def ShutDown_def destroy_begin_def)

lemma join_step_committed: "join_step s t \<Longrightarrow> committed t = committed s"
  by (erule join_step.cases) (simp_all add: join_ops)

lemma join_step_closing: "join_step s t \<Longrightarrow> closing_inv mx core s \<Longrightarrow> closing_inv mx core t"
proof -
  assume step: "join_step s t" and inv: "closing_inv mx core s"
  note fields = join_step_fields [OF step]
  have "i < length (workers s)" if "joining t = At_thread i \<or> joining t = Joining i" for i
    using fields that inv by (auto simp: closing_inv_def pool_inv_def objects_inv_def)
  moreover obtain j "is" f where t: "t = s\<lparr>joining := j, thread_joined := is, pool_fault := f\<rparr>" using fields by blast
  ultimately show "closing_inv mx core t" using inv by (simp add: t closing_inv_def monitor_ok_def)
qed

interpretation closing_runs: invariant_system "closing_inv mx core" closing_step "closing_inv mx core" for mx core
  by unfold_locales
    (auto simp: closing_step_def pool_work_def intro: worker_step_closing monitor_step_closing join_step_closing)

lemma closing_run_bound: "(closing_step ^^ n) s t \<Longrightarrow> closing_inv mx core s \<Longrightarrow> n + work_left t \<le> work_left s"
proof (induction n arbitrary: t)
  case (Suc n)
  then obtain u where u: "(closing_step ^^ n) s u" "closing_step u t" by auto
  then have "closing_inv mx core u"
    using closing_runs.run_inv [of s u] Suc.prems(2) by (meson relpowp_imp_rtranclp)
  then show ?case using Suc.IH [OF u(1) Suc.prems(2)] closing_step_less [OF u(2)] by fastforce
qed simp

text \<open>Before the pool is shut down, the minimum of the two sizes is alive.\<close>

definition running_inv :: "nat \<Rightarrow> nat \<Rightarrow> 'a ThreadPool \<Rightarrow> bool" where
  "running_inv mx core s \<longleftrightarrow> pool_inv mx core s
     \<and> (pool_status s = TPS_RUNNING \<longrightarrow> int (min core mx) \<le> now_thread_num s) \<and> monitor_ok s"

lemma add_threads_now:
  "now_thread_num s \<le> int (kMaxPoolSize s)
    \<Longrightarrow> now_thread_num (add_threads n s) = min (now_thread_num s + int n) (int (kMaxPoolSize s))"
  by (induction n s rule: add_threads.induct) auto

lemma add_threads_monitor [simp]:
  "monitor (add_threads n s) = monitor s" "monitor_thread_free (add_threads n s) = monitor_thread_free s"
  by (induction n s rule: add_threads.induct) auto

lemma running_init: "pool_init bld mx core mt s \<Longrightarrow> running_inv mx core s"
proof -
  assume "pool_init bld mx core mt s"
  then obtain name where new: "ThreadPool_new bld name mx core mt = Inr s" by (auto simp: pool_init_def)
  then have "now_thread_num s = min (int core) (int mx)" "monitor s = Mon_top"
    by (auto simp: ThreadPool_new_def AddThread_ok add_threads_now)
  then show ?thesis using ThreadPool_new_inv [OF new] by (simp add: running_inv_def monitor_ok_def)
qed

lemma Commit_append_running:
  assumes "Commit_append bld f s = Inr t" and "running_inv mx core s"
  shows "running_inv mx core t"
proof -
  have "pool_inv mx core t" using Commit_append_inv [OF assms(1)] assms(2) by (simp add: running_inv_def)
  moreover obtain s1 where "s1 = s \<or> s1 = add_threads 1 s \<and> kMaxTaskSize s \<le> length (tasks s)"
    and "t = s1\<lparr>tasks := tasks s1 @ [f], entering := remove1 f (entering s1), committed := committed s1 @ [f]\<rparr>"
    using Commit_append_ok [OF assms(1)] by blast
  moreover have "now_thread_num s \<le> now_thread_num (add_threads 1 s)"
    using add_threads_now [of s 1] assms(2) by (simp add: running_inv_def pool_inv_def)
  ultimately show ?thesis using assms(2) by (auto simp: running_inv_def monitor_ok_def simp del: add_threads.simps One_nat_def)
qed

lemma pool_work_running: "pool_work s t \<Longrightarrow> running_inv mx core s \<Longrightarrow> running_inv mx core t"
proof -
  assume step: "pool_work s t" and inv: "running_inv mx core s"
  then have t: "pool_inv mx core t" using pool_work_inv by (auto simp: running_inv_def)
  have core: "kCorePoolSize s = core" using inv by (simp add: running_inv_def pool_inv_def)
  show "running_inv mx core t"
  proof (cases "worker_step s t")
    case True
    have "pool_status t = TPS_RUNNING \<Longrightarrow> int (min core mx) \<le> now_thread_num t"
      using worker_step_fields [OF True] worker_step_now [OF True, of "int (min core mx)"] inv core
      unfolding running_inv_def by (metis ThreadPoolStatus.distinct(3) min.cobounded1 of_nat_le_iff)
    then show ?thesis using worker_step_monitor_ok [OF True] inv t by (simp add: running_inv_def)
  next
    case False
    then have "monitor_step s t" using step by (simp add: pool_work_def)
    from monitor_step_fields [OF this] monitor_step_monitor_ok [OF this] show ?thesis using inv t by (simp add: running_inv_def)
  qed
qed

lemma pool_step_running: "pool_step bld s t \<Longrightarrow> running_inv mx core s \<Longrightarrow> running_inv mx core t"
  by (erule pool_step.cases)
    (auto simp: Commit_check_ok intro: Commit_append_running pool_work_running, auto simp: running_inv_def ShutDown_def pool_inv_def monitor_ok_def)

interpretation running_runs: invariant_system "pool_init bld mx core mt" "pool_step bld" "running_inv mx core" for bld mx core mt
  by unfold_locales (auto dest: running_init pool_step_running)

text \<open>
  Until the pool is destroyed only the monitor joins, and it erases what it has joined: no join fails.
\<close>

definition joins_inv :: "'a ThreadPool \<Rightarrow> bool" where
  "joins_inv s \<longleftrightarrow> objects_inv s \<and> monitor_ok s \<and> joining s = Not_destroying \<and> pool_fault s = None
     \<and> (\<forall>i \<in> set (thread_joined s). i < length (workers s)
          \<and> (i \<in> set (thread_objects s) \<longrightarrow> monitor s = Mon_joining i))"

lemma add_threads_joins [simp]:
  "joining (add_threads n s) = joining s" "pool_fault (add_threads n s) = pool_fault s"
  "thread_joined (add_threads n s) = thread_joined s"
  by (induction n s rule: add_threads.induct) auto

lemma add_threads_joins_inv: "joins_inv s \<Longrightarrow> joins_inv (add_threads n s)"
proof (induction n s rule: add_threads.induct)
  case (2 n s)
  let ?t = "s\<lparr>thread_objects := thread_objects s @ [length (workers s)],
             workers := workers s @ [At_loop], thread_names := thread_names s @ [worker_name s], idle_thread_num := idle_thread_num s + 1,
             now_thread_num := now_thread_num s + 1\<rparr>"
  have "objects_inv ?t" using add_thread_objects [of s] 2(2) by (simp add: joins_inv_def)
  then have "joins_inv ?t" using 2(2) by (auto simp: joins_inv_def monitor_ok_def)
  then show ?case using 2 by simp
qed simp

lemma monitor_step_joins_inv:
  assumes step: "monitor_step s t" and inv: "joins_inv s"
  shows "joins_inv t"
proof -
  have obj: "objects_inv t" "monitor_ok t"
    using monitor_step_objects [OF step] monitor_step_monitor_ok [OF step] inv by (simp_all add: joins_inv_def)
  have d: "distinct (thread_objects s)" using inv by (simp add: joins_inv_def objects_inv_def)
  from step show ?thesis
  proof cases
    case mon_collect
    then obtain i rest where i: "monitor_thread_free s = i # rest" using inv by (auto simp: joins_inv_def monitor_ok_def neq_Nil_conv)
    then have "i < length (workers s)" using inv by (simp add: joins_inv_def objects_inv_def)
    moreover have free: "\<forall>k \<in> set (thread_joined s). k < length (workers s) \<and> k \<notin> set (thread_objects s)"
      using inv mon_collect(2) by (auto simp: joins_inv_def)
    ultimately show ?thesis using obj inv unfolding mon_collect(1)
      by (auto simp: joins_inv_def monitor_collect_def drop_free_def i)
  next
    case (mon_erase i)
    then show ?thesis using obj inv d by (auto simp: joins_inv_def monitor_erase_def drop_free_def)
  qed (use obj inv in \<open>auto simp: joins_inv_def monitor_top_def monitor_wake_def\<close>)
qed

lemma pool_work_joins_inv: "pool_work s t \<Longrightarrow> joins_inv s \<Longrightarrow> joins_inv t"
  using worker_step_objects [of s t] worker_step_fields [of s t] worker_step_monitor_ok [of s t] monitor_step_joins_inv [of s t]
  by (auto simp: pool_work_def joins_inv_def)

lemma pool_step_joins_inv: "pool_step bld s t \<Longrightarrow> joins_inv s \<Longrightarrow> joins_inv t"
proof (induction rule: pool_step.induct)
  case (step_append f s t)
  from step_append(3) obtain s1 where "s1 = s \<or> s1 = add_threads 1 s \<and> kMaxTaskSize s \<le> length (tasks s)"
    and t: "t = s1\<lparr>tasks := tasks s1 @ [f], entering := remove1 f (entering s1), committed := committed s1 @ [f]\<rparr>"
    by (rule Commit_append_ok)
  then have "joins_inv s1" using step_append(4) add_threads_joins_inv by blast
  then show ?case by (auto simp: t joins_inv_def monitor_ok_def)
qed (auto simp: Commit_check_ok ShutDown_def joins_inv_def monitor_ok_def intro: pool_work_joins_inv [unfolded joins_inv_def monitor_ok_def]
  dest: pool_work_joins_inv [unfolded joins_inv_def monitor_ok_def])

interpretation joins_runs: invariant_system "pool_init bld mx core mt" "pool_step bld" joins_inv for bld mx core mt
proof
  show "joins_inv s" if "pool_init bld mx core mt s" for s :: "'a ThreadPool"
    using that by (auto simp: pool_init_def ThreadPool_new_def AddThread_ok intro!: add_threads_joins_inv)
      (simp add: joins_inv_def objects_inv_def monitor_ok_def)
qed (rule pool_step_joins_inv)

text \<open>After ShutDown the workers and the monitor may run on for any time before the destructor starts.\<close>

lemma pool_work_closing: "pool_work s t \<Longrightarrow> closing_inv mx core s \<Longrightarrow> closing_inv mx core t"
  by (auto simp: pool_work_def intro: worker_step_closing monitor_step_closing)

lemma shut_down_closing:
  assumes running: "running_inv mx core s" "joins_inv s" and "pool_status s = TPS_RUNNING" and run: "pool_work\<^sup>*\<^sup>* (ShutDown s) t"
  shows "closing_inv mx core t" and "joins_inv t"
proof -
  have start: "closing_inv mx core (ShutDown s)" "joins_inv (ShutDown s)"
    using assms(1-3) by (auto simp: running_inv_def closing_inv_def pool_inv_def joins_inv_def ShutDown_def monitor_ok_def)
  from run start(1) show "closing_inv mx core t" by (induction rule: rtranclp_induct) (auto intro: pool_work_closing)
  from run start(2) show "joins_inv t" by (induction rule: rtranclp_induct) (auto intro: pool_work_joins_inv)
qed

lemma destroy_closing:
  assumes "closing_inv mx core s"
  shows "closing_inv mx core (destroy_begin s)"
  using assms by (cases "thread_objects s")
    (auto simp: closing_inv_def pool_inv_def destroy_begin_def monitor_ok_def objects_inv_def)

lemma worker_can_step:
  assumes "i < length (workers s)" and "workers s ! i \<noteq> Gone"
  shows "\<exists>t. worker_step s t"
proof (cases "workers s ! i")
  case At_loop then show ?thesis using work_loop [OF assms(1)] by blast
next
  case Waiting then show ?thesis using work_wake [OF assms(1), of False] by blast
next
  case (Popped task) then show ?thesis using work_begin [OF assms(1)] by blast
next
  case (Running task) then show ?thesis using work_done [OF assms(1)] by blast
qed (use assms in simp)

lemma all_gone_counts: "\<forall>i < length ws. ws ! i = Gone \<Longrightarrow> count_workers live ws = 0 \<and> concat (map holding ws) = []"
proof -
  assume "\<forall>i < length ws. ws ! i = Gone"
  then have "\<forall>w \<in> set ws. w = Gone" by (auto simp: in_set_conv_nth)
  then show ?thesis by (induction ws) auto
qed

text \<open>
  When no worker is surplus and the monitor has nothing to collect, it collects nothing afterwards, and
  the destructor finds every thread where it left it.
\<close>

fun ahead :: "destructor_pc \<Rightarrow> nat list \<Rightarrow> nat list" where
  "ahead Not_destroying objs = objs"
| "ahead (At_thread i) objs = dropWhile (\<lambda>j. j \<noteq> i) objs"
| "ahead (Joining i) objs = tl (dropWhile (\<lambda>j. j \<noteq> i) objs)"
| "ahead All_joined objs = []"

definition nothing_to_collect :: "'a ThreadPool \<Rightarrow> bool" where
  "nothing_to_collect s \<longleftrightarrow> now_thread_num s \<le> int (kCorePoolSize s) \<and> monitor_thread_free s = []
     \<and> \<not> holds_monitor_mutex (monitor s)"

definition no_surplus :: "'a ThreadPool \<Rightarrow> bool" where
  "no_surplus s \<longleftrightarrow> nothing_to_collect s \<and> distinct (thread_objects s) \<and> pool_fault s = None
     \<and> set (ahead (joining s) (thread_objects s)) \<inter> set (thread_joined s) = {}
     \<and> (\<forall>i. joining s = At_thread i \<or> joining s = Joining i \<longrightarrow> i \<in> set (thread_objects s))"

lemma pool_work_nothing: "pool_work s t \<Longrightarrow> nothing_to_collect s \<Longrightarrow> nothing_to_collect t \<and> thread_objects t = thread_objects s
    \<and> thread_joined t = thread_joined s \<and> joining t = joining s \<and> pool_fault t = pool_fault s"
  unfolding pool_work_def
  by (elim disjE worker_step.cases monitor_step.cases) (simp_all add: nothing_to_collect_def worker_ops monitor_ops split: list.split)

lemma pool_work_run_nothing: "pool_work\<^sup>*\<^sup>* s t \<Longrightarrow> nothing_to_collect s \<Longrightarrow> nothing_to_collect t"
  by (induction rule: rtranclp_induct) (auto dest: pool_work_nothing)

lemma ahead_next:
  assumes "distinct objs" and "i \<in> set objs"
  shows "ahead (next_thread i objs) objs = ahead (Joining i) objs"
proof -
  from assms(2) obtain pre post where p: "objs = pre @ i # post" "next_thread i objs = first_thread post"
    using next_thread_split by blast
  have "dropWhile (\<lambda>j. j \<noteq> i) objs = i # post" using assms(1) p(1) by (simp add: dropWhile_distinct_first)
  moreover have "dropWhile (\<lambda>j. j \<noteq> y) objs = y # ys" if "post = y # ys" for y ys
    using assms(1) p(1) that dropWhile_distinct_first [of "pre @ [i]" y ys] by simp
  ultimately show ?thesis by (cases post) (simp_all add: p(2))
qed

lemma ahead_Joining:
  assumes "distinct objs" and "i \<in> set objs"
  shows "set (ahead (At_thread i) objs) = insert i (set (ahead (Joining i) objs))" and "i \<notin> set (ahead (Joining i) objs)"
proof -
  from assms(2) obtain pre post where p: "objs = pre @ i # post" using next_thread_split by blast
  then have "dropWhile (\<lambda>j. j \<noteq> i) objs = i # post" using assms(1) by (simp add: dropWhile_distinct_first)
  then show "set (ahead (At_thread i) objs) = insert i (set (ahead (Joining i) objs))" "i \<notin> set (ahead (Joining i) objs)"
    using assms(1) p by simp_all
qed

lemma join_step_no_surplus: "join_step s t \<Longrightarrow> no_surplus s \<Longrightarrow> no_surplus t"
proof (induction rule: join_step.induct)
  case (join_call s i)
  then have i: "i \<in> set (thread_objects s)" "distinct (thread_objects s)" by (simp_all add: no_surplus_def)
  from ahead_Joining [OF i(2,1)] show ?case
    using join_call i by (auto simp: no_surplus_def nothing_to_collect_def destroy_join_def)
next
  case (join_return s i)
  then have i: "i \<in> set (thread_objects s)" "distinct (thread_objects s)" by (simp_all add: no_surplus_def)
  then show ?case using join_return ahead_next [OF i(2,1)]
    by (auto simp: no_surplus_def nothing_to_collect_def destroy_next_def dest: next_thread_in next_thread_kind)
qed

lemma closing_step_no_surplus: "closing_step s t \<Longrightarrow> no_surplus s \<Longrightarrow> no_surplus t"
  using pool_work_nothing [of s t] join_step_no_surplus [of s t] by (auto simp: closing_step_def no_surplus_def)

lemma closing_run_no_surplus: "closing_step\<^sup>*\<^sup>* s t \<Longrightarrow> no_surplus s \<Longrightarrow> no_surplus t"
  by (induction rule: rtranclp_induct) (auto intro: closing_step_no_surplus)

lemma destroy_no_surplus:
  assumes "joins_inv s" and "nothing_to_collect s"
  shows "no_surplus (destroy_begin s)"
proof -
  have "set (thread_joined s) \<inter> set (thread_objects s) = {}"
    using assms by (auto simp: joins_inv_def nothing_to_collect_def)
  moreover have "ahead (first_thread objs) objs = objs" for objs by (cases objs) simp_all
  moreover have "i \<in> set objs" if "first_thread objs = At_thread i \<or> first_thread objs = Joining i" for i objs
    using that by (cases objs) auto
  ultimately show ?thesis using assms
    by (auto simp: no_surplus_def nothing_to_collect_def destroy_begin_def joins_inv_def objects_inv_def)
qed

lemma closing_run_destroying: "closing_step\<^sup>*\<^sup>* s t \<Longrightarrow> joining s \<noteq> Not_destroying \<Longrightarrow> joining t \<noteq> Not_destroying"
proof (induction rule: rtranclp_induct)
  case (step t u)
  then show ?case using worker_step_fields [of t u] monitor_step_fields [of t u] join_step_fields [of t u]
    by (auto simp: closing_step_def pool_work_def)
qed simp

lemma destroy_begins: "joining (destroy_begin s) \<noteq> Not_destroying"
  by (cases "thread_objects s") (simp_all add: destroy_begin_def)

text \<open>When neither a worker nor the destructor can step, everything has been done.\<close>

lemma closing_quiet:
  assumes inv: "closing_inv mx core t" and "0 < core" and "0 < mx" and quiet: "\<forall>u. \<not> worker_step t u \<and> \<not> join_step t u"
  shows "list_all (\<lambda>w. w = Gone) (workers t)" and "tasks t = []" and "mset (finished t) = mset (committed t)"
    and "joining t \<in> {Not_destroying, All_joined}"
proof -
  have gone: "\<forall>i < length (workers t). workers t ! i = Gone" using quiet worker_can_step by blast
  then show "list_all (\<lambda>w. w = Gone) (workers t)" by (auto simp: list_all_length)
  have none: "count_workers live (workers t) = 0" "concat (map holding (workers t)) = []"
    using all_gone_counts [OF gone] by auto
  then have "now_thread_num t = 0" using inv by (simp add: closing_inv_def pool_inv_def)
  then have "pool_status t = TPS_TERMINATED"
    using inv assms(2,3) by (cases "pool_status t") (auto simp: closing_inv_def)
  then show empty: "tasks t = []" using inv by (simp add: closing_inv_def)
  show "mset (finished t) = mset (committed t)" using inv none(2) empty by (simp add: closing_inv_def pool_inv_def)
  show "joining t \<in> {Not_destroying, All_joined}"
    using quiet gone inv join_call [of t] join_return [of t] by (cases "joining t") (auto simp: closing_inv_def)
qed

lemma pool_shutdown_ends:
  assumes "reach (pool_init bld mx core mt) (pool_step bld) s" and "pool_status s = TPS_RUNNING"
    and "0 < core" and "0 < mx" and "pool_work\<^sup>*\<^sup>* (ShutDown s) s1" and "(closing_step ^^ n) (destroy_begin s1) t"
  shows "n \<le> work_left (destroy_begin s1) \<and> committed t = committed s
    \<and> ((\<forall>u. \<not> worker_step t u \<and> \<not> join_step t u) \<longrightarrow>
        list_all (\<lambda>w. w = Gone) (workers t) \<and> tasks t = [] \<and> mset (finished t) = mset (committed t)
        \<and> joining t = All_joined)
    \<and> (nothing_to_collect s \<longrightarrow> pool_fault t = None)"
proof (intro conjI impI)
  have running: "running_inv mx core s" "joins_inv s"
    by (rule running_runs.reach_inv [OF assms(1)], rule joins_runs.reach_inv [OF assms(1)])
  note s1 = shut_down_closing [OF running assms(2,5)]
  have start: "closing_inv mx core (destroy_begin s1)" by (rule destroy_closing [OF s1(1)])
  show "n \<le> work_left (destroy_begin s1)" using closing_run_bound [OF assms(6) start] by simp
  have run: "closing_step\<^sup>*\<^sup>* (destroy_begin s1) t" using assms(6) by (rule relpowp_imp_rtranclp)
  have inv: "closing_inv mx core t" by (rule closing_runs.run_inv [OF run start])
  have "committed s1 = committed (ShutDown s)"
    using assms(5) by (induction rule: rtranclp_induct) (auto dest: pool_work_committed)
  moreover have "committed t = committed (destroy_begin s1)"
    using run by (induction rule: rtranclp_induct) (auto simp: closing_step_def dest: pool_work_committed join_step_committed)
  ultimately show "committed t = committed s" by (simp add: ShutDown_def destroy_begin_def)
  {
    assume quiet: "\<forall>u. \<not> worker_step t u \<and> \<not> join_step t u"
    note ended = closing_quiet [OF inv assms(3,4) quiet]
    show "list_all (\<lambda>w. w = Gone) (workers t)" "tasks t = []" "mset (finished t) = mset (committed t)" by (rule ended)+
    show "joining t = All_joined" using ended(4) closing_run_destroying [OF run destroy_begins] by simp
  }
  assume "nothing_to_collect s"
  then have "nothing_to_collect (ShutDown s)" by (simp add: nothing_to_collect_def ShutDown_def)
  then have "nothing_to_collect s1" by (rule pool_work_run_nothing [OF assms(5)])
  then have "no_surplus (destroy_begin s1)" by (rule destroy_no_surplus [OF s1(2)])
  from closing_run_no_surplus [OF run this] show "pool_fault t = None" by (simp add: no_surplus_def)
qed

text \<open>
  C11: A pool that is shut down can be destroyed. Take a pool with a core size and a maximum of at least 1,
  the state in which ShutDown is called with no call of Commit under way, any steps of the workers and
  of the monitor after it, and then the destructor, whatever is going on, however long the tasks run and
  whoever wakes when. The destruction takes at most as many steps as the explicit bound, and when
  neither a worker nor the destructor can step any more, all workers have returned, every task that was
  ever committed has been finished, and every join has returned. No join fails and no erased element
  is used, if at the call of ShutDown no worker was surplus and the monitor had none to collect.
  (Otherwise the destructor and the monitor race for a thread: lemma \<open>destructor_races_with_monitor\<close>.)
\<close>

theorem pool_shutdown_terminates:
  assumes "reach (pool_init bld mx core mt) (pool_step bld) s" and "pool_status s = TPS_RUNNING" and "entering s = []"
    and "0 < core" and "0 < mx" and "pool_work\<^sup>*\<^sup>* (ShutDown s) s1" and "(closing_step ^^ n) (destroy_begin s1) t"
  shows "n \<le> work_left (destroy_begin s1) \<and> committed t = committed s
    \<and> ((\<forall>u. \<not> worker_step t u \<and> \<not> join_step t u) \<longrightarrow>
        list_all (\<lambda>w. w = Gone) (workers t) \<and> tasks t = [] \<and> mset (finished t) = mset (committed t)
        \<and> joining t = All_joined)
    \<and> (nothing_to_collect s \<longrightarrow> pool_fault t = None)"
  by (rule pool_shutdown_ends [OF assms(1,2,4-7)])

subsection \<open>Tasks are always carried out\<close>

text \<open>One worker takes the tasks one after the other, and every worker finishes what it holds.\<close>

definition makes_progress :: "'a ThreadPool \<Rightarrow> 'a ThreadPool \<Rightarrow> bool" where
  "makes_progress s t \<longleftrightarrow> worker_step\<^sup>*\<^sup>* s t \<and> pool_status t = pool_status s \<and> committed t = committed s
     \<and> length (workers t) = length (workers s)"

lemma makes_progress_refl: "makes_progress s s"
  by (simp add: makes_progress_def)

lemma makes_progress_trans: "makes_progress s t \<Longrightarrow> makes_progress t u \<Longrightarrow> makes_progress s u"
  by (auto simp: makes_progress_def)

text \<open>A worker comes back to its loop without touching the queue or another worker.\<close>

lemma worker_returns:
  assumes "i < length (workers s)" and "workers s ! i \<noteq> Gone"
  shows "\<exists>t. makes_progress s t \<and> workers t = (workers s)[i := At_loop] \<and> tasks t = tasks s"
proof -
  have run: "\<exists>t. makes_progress s t \<and> workers t = (workers s)[i := At_loop] \<and> tasks t = tasks s"
    if "workers s ! i = Running task" "i < length (workers s)" for s :: "'a ThreadPool" and task
    using work_done [OF that(2,1)]
    by (intro exI [of _ "worker_done i task s"]) (simp add: makes_progress_def worker_ops r_into_rtranclp)
  show ?thesis
  proof (cases "workers s ! i")
    case At_loop
    then have "(workers s)[i := At_loop] = workers s" by (metis list_update_id)
    then show ?thesis using makes_progress_refl by metis
  next
    case Waiting
    with work_wake [OF assms(1), of False] show ?thesis
      by (intro exI [of _ "worker_wake False i s"]) (simp add: makes_progress_def worker_ops r_into_rtranclp)
  next
    case (Popped task)
    let ?u = "worker_begin i task s"
    have u: "makes_progress s ?u" "workers ?u = (workers s)[i := Running task]" "tasks ?u = tasks s"
      using work_begin [OF assms(1) Popped] by (simp_all add: makes_progress_def worker_ops r_into_rtranclp)
    then obtain t where "makes_progress ?u t" "workers t = (workers ?u)[i := At_loop]" "tasks t = tasks ?u"
      using run [of ?u task] assms(1) by auto
    then show ?thesis using u makes_progress_trans by (intro exI [of _ t]) auto
  next
    case (Running task)
    then show ?thesis using run [OF Running assms(1)] by blast
  qed (use assms(2) in simp)
qed

lemma queue_drains:
  assumes "i < length (workers s)" and "workers s ! i = At_loop"
  shows "\<exists>t. makes_progress s t \<and> tasks t = [] \<and> workers t = workers s"
  using assms
proof (induction "tasks s" arbitrary: s)
  case Nil
  then show ?case using makes_progress_refl by metis
next
  case (Cons task rest)
  let ?u = "worker_loop i s"
  have u: "makes_progress s ?u" "workers ?u = (workers s)[i := Popped task]" "tasks ?u = rest"
    using work_loop [OF Cons.prems] Cons.hyps(2) [symmetric]
    by (simp_all add: makes_progress_def worker_ops r_into_rtranclp)
  obtain v where v: "makes_progress ?u v" "workers v = (workers ?u)[i := At_loop]" "tasks v = rest"
    using worker_returns [of i ?u] Cons.prems(1) u by auto
  have same: "workers v = workers s" using v(2) u(2) Cons.prems(2) by simp (metis list_update_id)
  have "\<exists>t. makes_progress v t \<and> tasks t = [] \<and> workers t = workers v"
    by (rule Cons.hyps(1)) (use v(3) same Cons.prems in simp_all)
  then obtain t where "makes_progress v t" "tasks t = []" "workers t = workers v" by blast
  then show ?case using u(1) v(1) same makes_progress_trans by metis
qed

text \<open>The first workers, one after the other, finish what they hold.\<close>

lemma workers_finish:
  "n \<le> length (workers s) \<Longrightarrow> \<exists>t. makes_progress s t \<and> tasks t = tasks s
     \<and> (\<forall>i < n. holding (workers t ! i) = []) \<and> (\<forall>i < length (workers s). workers t ! i = workers s ! i \<or> workers t ! i = At_loop)"
proof (induction n)
  case (Suc n)
  then obtain t where t: "makes_progress s t" "tasks t = tasks s" "\<forall>i < n. holding (workers t ! i) = []"
      "\<forall>i < length (workers s). workers t ! i = workers s ! i \<or> workers t ! i = At_loop" by auto
  have len: "length (workers t) = length (workers s)" using t(1) by (simp add: makes_progress_def)
  show ?case
  proof (cases "workers t ! n = Gone")
    case True
    then show ?thesis using t by (intro exI [of _ t]) (auto simp: less_Suc_eq)
  next
    case False
    then obtain u where u: "makes_progress t u" "workers u = (workers t)[n := At_loop]" "tasks u = tasks t"
      using worker_returns [of n t] Suc.prems len by auto
    then show ?thesis using t len makes_progress_trans [OF t(1) u(1)] Suc.prems
      by (intro exI [of _ u]) (auto simp: less_Suc_eq nth_list_update)
  qed
qed (auto intro: makes_progress_refl)

text \<open>
  C19: Committed tasks can always be carried out. In every reachable state of a pool with at least one
  worker alive, before or after ShutDown, steps of the workers alone lead to a state in which every
  task that has been committed is finished: nothing that another thread did before can keep a task
  in the queue for good, and nothing more needs to be done.
\<close>

theorem pool_can_finish:
  assumes "reach (pool_init bld mx core mt) (pool_step bld) s" and "0 < now_thread_num s"
  shows "\<exists>t. worker_step\<^sup>*\<^sup>* s t \<and> tasks t = [] \<and> committed t = committed s \<and> mset (finished t) = mset (committed s)"
proof -
  have inv: "pool_inv mx core s" by (rule pool_runs.reach_inv [OF assms(1)])
  then obtain i where i: "i < length (workers s)" "live (workers s ! i)"
    using assms(2) count_workers_positive [of live "workers s"] by (auto simp: pool_inv_def)
  obtain u where u: "makes_progress s u" "workers u = (workers s)[i := At_loop]"
    using worker_returns [OF i(1)] i(2) by (metis live.simps(1))
  then obtain v where v: "makes_progress u v" "tasks v = []" "workers v = workers u"
    using queue_drains [of i u] i(1) by auto
  obtain t where t: "makes_progress v t" "tasks t = []" "\<forall>i < length (workers v). holding (workers t ! i) = []"
    using workers_finish [of "length (workers v)" v] v(2) by auto
  have all: "makes_progress s t" using makes_progress_trans u(1) v(1) t(1) by metis
  then have run: "worker_step\<^sup>*\<^sup>* s t" by (simp add: makes_progress_def)
  have idle: "concat (map holding (workers t)) = []"
    using t(1,3) by (auto simp: makes_progress_def in_set_conv_nth)
  have "pool_inv mx core t" using run inv by (induction rule: rtranclp_induct) (auto intro: worker_step_inv)
  then have "mset (finished t) = mset (committed t)" using t(2) idle by (simp add: pool_inv_def)
  then show ?thesis using run t(2) all by (intro exI [of _ t]) (simp add: makes_progress_def)
qed

theorem pool_can_finish_witness:
  "\<exists>t. worker_step\<^sup>*\<^sup>* (sample_pool 1 TPS_RUNNING [] [Popped 7] [] [7]) t \<and> finished t = [7]"
proof -
  have "\<exists>t. worker_step\<^sup>*\<^sup>* (sample_pool 1 TPS_RUNNING [] [Popped 7] [] [7]) t \<and> tasks t = []
    \<and> committed t = committed (sample_pool 1 TPS_RUNNING [] [Popped 7] [] [7])
    \<and> mset (finished t) = mset (committed (sample_pool 1 TPS_RUNNING [] [Popped 7] [] [7]))"
    by (rule pool_can_finish [OF sample_reach]) (simp add: sample_pool_def)
  moreover have "committed (sample_pool 1 TPS_RUNNING [] [Popped 7] [] [7]) = [7]" by (simp add: sample_pool_def)
  ultimately show ?thesis by auto
qed

subsection \<open>Destruction without shutting down\<close>

definition hanging :: "nat \<Rightarrow> 'a ThreadPool \<Rightarrow> bool" where
  "hanging i s \<longleftrightarrow> objects_inv s \<and> pool_status s = TPS_RUNNING \<and> now_thread_num s \<le> int (kCorePoolSize s)
     \<and> i < length (workers s) \<and> workers s ! i \<noteq> Gone \<and> (\<exists>j. joining s = At_thread j \<or> joining s = Joining j)
     \<and> (\<forall>j. (joining s = At_thread j \<or> joining s = Joining j) \<and> j \<in> set (thread_objects s)
          \<longrightarrow> i \<in> set (dropWhile (\<lambda>x. x \<noteq> j) (thread_objects s)))"

lemma dropWhile_remove1_keeps:
  "distinct xs \<Longrightarrow> i \<in> set (dropWhile (\<lambda>y. y \<noteq> j) xs) \<Longrightarrow> x \<noteq> i \<Longrightarrow> x \<noteq> j
    \<Longrightarrow> i \<in> set (dropWhile (\<lambda>y. y \<noteq> j) (remove1 x xs))"
  by (induction xs) (auto split: if_splits)

lemma hanging_next:
  assumes "hanging i s" and "joining s = Joining j" and "workers s ! j = Gone"
  shows "hanging i (destroy_next j s)"
proof (cases "j \<in> set (thread_objects s)")
  case True
  then obtain pre post where p: "thread_objects s = pre @ j # post" "next_thread j (thread_objects s) = first_thread post"
    using next_thread_split by blast
  have d: "distinct (thread_objects s)" using assms(1) by (simp add: hanging_def objects_inv_def)
  then have "dropWhile (\<lambda>x. x \<noteq> j) (thread_objects s) = j # post" by (simp add: p(1) dropWhile_distinct_first)
  then have "i \<in> set (j # post)" using assms(1,2) True unfolding hanging_def by metis
  then have i: "i \<in> set post" using assms by (auto simp: hanging_def)
  then obtain y ys where y: "post = y # ys" by (cases post) auto
  have "dropWhile (\<lambda>x. x \<noteq> y) (thread_objects s) = y # ys"
    using d p(1) y dropWhile_distinct_first [of "pre @ [j]" y ys] by simp
  then show ?thesis using assms(1) i p(2) y True by (simp add: hanging_def destroy_next_def)
next
  case False
  then show ?thesis using assms(1) by (simp add: hanging_def destroy_next_def fail_def)
qed

lemma hanging_call: "hanging i s \<Longrightarrow> joining s = At_thread j \<Longrightarrow> hanging i (destroy_join j s)"
  by (auto simp: hanging_def destroy_join_def fail_def second_join_def)

lemma hanging_erase:
  assumes inv: "hanging i s" and x: "x < length (workers s)" "workers s ! x = Gone"
  shows "hanging i (monitor_erase x s)"
proof -
  have d: "distinct (thread_objects s)" "x \<noteq> i" "objects_inv s" using inv x by (auto simp: hanging_def objects_inv_def)
  have "objects_inv (monitor_erase x s)" by (rule monitor_erase_objects [OF d(3) x])
  then show ?thesis using inv d dropWhile_remove1_keeps [OF d(1) _ d(2)]
    by (auto simp: hanging_def monitor_erase_def drop_free_def)
qed

lemma hanging_step: "closing_step s t \<Longrightarrow> hanging i s \<Longrightarrow> hanging i t"
proof -
  assume step: "closing_step s t" and inv: "hanging i s"
  consider "worker_step s t" | "monitor_step s t" | "join_step s t"
    using step by (auto simp: closing_step_def pool_work_def)
  then show "hanging i t"
  proof cases
    case 1
    have obj: "objects_inv t" using inv worker_step_objects [OF 1] by (simp add: hanging_def)
    show ?thesis using 1 inv obj by cases (auto simp: hanging_def worker_ops nth_list_update split: list.splits if_splits)
  next
    case 2
    have obj: "objects_inv t" using inv monitor_step_objects [OF 2] by (simp add: hanging_def)
    from 2 show ?thesis
    proof cases
      case (mon_erase x)
      then show ?thesis using hanging_erase [OF inv] by simp
    qed (use inv obj in \<open>auto simp: hanging_def monitor_top_def monitor_wake_def monitor_collect_def
        fail_def second_join_def drop_free_def split: list.splits if_splits\<close>)
  next
    case 3
    then show ?thesis using inv hanging_call hanging_next by (elim join_step.cases) auto
  qed
qed

lemma hanging_run: "closing_step\<^sup>*\<^sup>* s t \<Longrightarrow> hanging i s \<Longrightarrow> hanging i t"
  by (induction rule: rtranclp_induct) (auto intro: hanging_step)

text \<open>
  C39: A pool destroyed without ShutDown hangs. With at least one worker and no more than the core
  size, the destructor is always still at one of its threads, whatever the workers and the monitor do: its
  joins never come to their end; and when the monitor had no thread to collect, nothing fails either, so
  that it hangs for good.
\<close>

theorem destructor_hangs:
  assumes "reach (pool_init bld mx core mt) (pool_step bld) s" and "pool_status s = TPS_RUNNING"
    and "0 < now_thread_num s" and "now_thread_num s \<le> int core" and "closing_step\<^sup>*\<^sup>* (destroy_begin s) t"
  shows "(\<exists>i. joining t = At_thread i \<or> joining t = Joining i) \<and> pool_status t = TPS_RUNNING
    \<and> (nothing_to_collect s \<longrightarrow> pool_fault t = None)"
proof -
  have inv: "pool_inv mx core s" by (rule pool_runs.reach_inv [OF assms(1)])
  then obtain i where i: "i < length (workers s)" "live (workers s ! i)"
    using assms(3) count_workers_positive [of live "workers s"] by (auto simp: pool_inv_def)
  then have gone: "workers s ! i \<noteq> Gone" by auto
  then have "i \<in> set (thread_objects s)" using inv i(1) by (simp add: pool_inv_def objects_inv_def)
  then have "hanging i (destroy_begin s)"
    using inv i gone assms(2,4)
    by (cases "thread_objects s") (auto simp: hanging_def destroy_begin_def pool_inv_def)
  from hanging_run [OF assms(5) this]
  have "(\<exists>i. joining t = At_thread i \<or> joining t = Joining i) \<and> pool_status t = TPS_RUNNING" by (simp add: hanging_def)
  moreover have "pool_fault t = None" if "nothing_to_collect s"
  proof -
    have "no_surplus (destroy_begin s)" by (rule destroy_no_surplus [OF joins_runs.reach_inv [OF assms(1)] that])
    from closing_run_no_surplus [OF assms(5) this] show ?thesis by (simp add: no_surplus_def)
  qed
  ultimately show ?thesis by blast
qed

subsection \<open>The names of the threads\<close>

definition names_inv :: "nat \<Rightarrow> nat \<Rightarrow> 'a ThreadPool \<Rightarrow> bool" where
  "names_inv mx core s \<longleftrightarrow> pool_inv mx core s \<and> length (thread_names s) = length (workers s)
     \<and> (\<forall>name \<in> set (thread_names s). \<exists>n. 1 \<le> n \<and> n \<le> mx \<and> name = ''TP_Work'' @ dec_nat n)"

lemma pool_inv_now: "pool_inv mx core s \<Longrightarrow> 0 \<le> now_thread_num s"
  using count_workers_mono [of live live "workers s"] by (simp add: pool_inv_def)

lemma add_threads_names: "names_inv mx core s \<Longrightarrow> names_inv mx core (add_threads n s)"
proof (induction n s rule: add_threads.induct)
  case (2 n s)
  show ?case
  proof (cases "now_thread_num s < int (kMaxPoolSize s)")
    case True
    have inv: "pool_inv mx core s" using 2(2) by (simp add: names_inv_def)
    then have "\<exists>n. 1 \<le> n \<and> n \<le> mx \<and> worker_name s = ''TP_Work'' @ dec_nat n"
      using True pool_inv_now [OF inv]
      by (intro exI [of _ "nat (now_thread_num s + 1)"]) (auto simp: worker_name_def pool_inv_def nat_le_iff)
    then have "names_inv mx core (s\<lparr>thread_objects := thread_objects s @ [length (workers s)],
        workers := workers s @ [At_loop], thread_names := thread_names s @ [worker_name s],
        idle_thread_num := idle_thread_num s + 1, now_thread_num := now_thread_num s + 1\<rparr>)"
      using 2(2) add_thread_inv [OF inv True] by (auto simp: names_inv_def)
    then show ?thesis using 2(1) True by simp
  qed (use 2(2) in simp)
qed simp

lemma pool_work_names:
  "pool_work s t \<Longrightarrow> thread_names t = thread_names s \<and> length (workers t) = length (workers s)"
  unfolding pool_work_def
  by (elim disjE worker_step.cases monitor_step.cases) (auto simp: worker_ops monitor_ops split: list.splits)

lemma pool_step_names: "pool_step bld s t \<Longrightarrow> names_inv mx core s \<Longrightarrow> names_inv mx core t"
proof -
  assume step: "pool_step bld s t" and inv: "names_inv mx core s"
  have "pool_inv mx core t" using pool_step_inv [OF step] inv by (simp add: names_inv_def)
  moreover have "length (thread_names t) = length (workers t)
     \<and> (\<forall>name \<in> set (thread_names t). \<exists>n. 1 \<le> n \<and> n \<le> mx \<and> name = ''TP_Work'' @ dec_nat n)"
    using step
  proof cases
    case (step_append f)
    from step_append(3) obtain s1 where "s1 = s \<or> s1 = add_threads 1 s \<and> kMaxTaskSize s \<le> length (tasks s)"
      and t: "t = s1\<lparr>tasks := tasks s1 @ [f], entering := remove1 f (entering s1), committed := committed s1 @ [f]\<rparr>"
      by (rule Commit_append_ok)
    then have "names_inv mx core s1" using add_threads_names [OF inv] inv by blast
    then show ?thesis by (simp add: t names_inv_def)
  next
    case step_work
    then show ?thesis using pool_work_names [OF step_work] inv by (simp add: names_inv_def)
  qed (use inv in \<open>auto simp: names_inv_def Commit_check_ok ShutDown_def\<close>)
  ultimately show "names_inv mx core t" by (simp add: names_inv_def)
qed

lemma names_init: "pool_init bld mx core mt s \<Longrightarrow> names_inv mx core s"
  by (auto simp: pool_init_def ThreadPool_new_def AddThread_ok intro!: add_threads_names)
    (simp add: names_inv_def pool_inv_def objects_inv_def)

interpretation names_runs: invariant_system "pool_init bld mx core mt" "pool_step bld" "names_inv mx core" for bld mx core mt
  by unfold_locales (auto intro: names_init pool_step_names)

text \<open>Every worker has a name of the form TP\_Work<n> with n between 1 and the maximum.\<close>

lemma thread_names_known:
  assumes "reach (pool_init bld mx core mt) (pool_step bld) s" and "i < length (workers s)"
  shows "\<exists>n. 1 \<le> n \<and> n \<le> mx \<and> thread_names s ! i = ''TP_Work'' @ dec_nat n"
  using names_runs.reach_inv [OF assms(1)] assms(2) nth_mem [of i "thread_names s"] by (auto simp: names_inv_def)

text \<open>
  A surplus worker whose wait times out during the destruction hands itself to the monitor. Either that
  erases the object the destructor is about to use, or it joins the thread that the destructor has joined.
\<close>

definition pool_of_two :: "build \<Rightarrow> nat \<Rightarrow> nat ThreadPool \<Rightarrow> bool" where
  "pool_of_two bld f s \<longleftrightarrow> s = \<lparr>pool_build = bld, thread_pool_name = ''pool'', kMaxPoolSize = 2, kCorePoolSize = 1, kMaxTaskSize = 0, pool_status = TPS_RUNNING,
     tasks = [f], workers = [Waiting, At_loop], thread_names = [''TP_Work1'', ''TP_Work2''],
     thread_objects = [0, 1], thread_joined = [], monitor_thread_free = [],
     idle_thread_num = 2, now_thread_num = 2, entering = [], monitor = Mon_top, joining = Not_destroying, pool_fault = None,
     committed = [f], taken = [], finished = []\<rparr>"

lemma pool_of_two_reach: "pool_of_two bld f s \<Longrightarrow> reach (pool_init bld 2 1 0) (pool_step bld) s"
proof -
  let ?s0 = "\<lparr>pool_build = bld, thread_pool_name = ''pool'', kMaxPoolSize = 2, kCorePoolSize = 1, kMaxTaskSize = 0, pool_status = TPS_RUNNING,
     tasks = [], workers = [At_loop], thread_names = [''TP_Work1''], thread_objects = [0], thread_joined = [], monitor_thread_free = [],
     idle_thread_num = 1, now_thread_num = 1, entering = [], monitor = Mon_top, joining = Not_destroying, pool_fault = None,
     committed = [], taken = [], finished = []\<rparr> :: nat ThreadPool"
  have r0: "reach (pool_init bld 2 1 0) (pool_step bld) ?s0"
    by (rule reach_init) (simp add: pool_init_def ThreadPool_new_def AddThread_def)
  have "worker_step ?s0 (worker_loop 0 ?s0)" by (rule work_loop) simp_all
  then have "pool_step bld ?s0 (worker_loop 0 ?s0)" by (intro step_work) (simp add: pool_work_def)
  with r0 have r1: "reach (pool_init bld 2 1 0) (pool_step bld) (worker_loop 0 ?s0)" by (rule reach_step)
  let ?s2 = "(worker_loop 0 ?s0)\<lparr>entering := [f]\<rparr>"
  have "pool_step bld (worker_loop 0 ?s0) ?s2"
    by (rule step_check [of bld f]) (simp add: Commit_check_def worker_ops)
  with r1 have r2: "reach (pool_init bld 2 1 0) (pool_step bld) ?s2" by (rule reach_step)
  assume s: "pool_of_two bld f s"
  have "pool_step bld ?s2 s"
    by (rule step_append [of f]) (use s in \<open>simp_all add: Commit_append_def AddThread_def worker_ops pool_of_two_def\<close>)
  with r2 show ?thesis by (rule reach_step)
qed

text \<open>
  The name does not identify a worker: when the first of two workers has left after its idle time,
  the next one is again the second.
\<close>

lemma thread_names_repeat:
  "\<exists>s :: nat ThreadPool. reach (pool_init bld 2 1 0) (pool_step bld) s \<and> workers s = [Gone, At_loop, At_loop]
     \<and> thread_names s = [''TP_Work1'', ''TP_Work2'', ''TP_Work2'']"
proof -
  obtain s0 :: "nat ThreadPool" where s0: "pool_of_two bld 5 s0" by (simp add: pool_of_two_def)
  let ?s1 = "worker_wake True 0 s0"
  let ?s2 = "?s1\<lparr>entering := [6]\<rparr>"
  let ?s3 = "(add_threads 1 ?s2)\<lparr>tasks := [5, 6], entering := [], committed := [5, 6]\<rparr>"
  have "worker_step s0 ?s1" by (rule work_wake) (use s0 in \<open>simp_all add: pool_of_two_def\<close>)
  then have "pool_step bld s0 ?s1" by (intro step_work) (simp add: pool_work_def)
  with pool_of_two_reach [OF s0] have r1: "reach (pool_init bld 2 1 0) (pool_step bld) ?s1" by (rule reach_step)
  have "pool_step bld ?s1 ?s2"
    by (rule step_check [of bld 6]) (use s0 in \<open>simp add: Commit_check_def worker_ops pool_of_two_def\<close>)
  with r1 have r2: "reach (pool_init bld 2 1 0) (pool_step bld) ?s2" by (rule reach_step)
  have "pool_step bld ?s2 ?s3"
    by (rule step_append [of 6]) (use s0 in \<open>simp_all add: Commit_append_def AddThread_def worker_ops pool_of_two_def\<close>)
  with r2 have "reach (pool_init bld 2 1 0) (pool_step bld) ?s3" by (rule reach_step)
  moreover have "workers ?s3 = [Gone, At_loop, At_loop]" "thread_names ?s3 = [''TP_Work1'', ''TP_Work2'', ''TP_Work2'']"
    using s0 by (simp_all add: worker_ops pool_of_two_def)
  ultimately show ?thesis by blast
qed

lemma destructor_races_with_monitor:
  assumes "pool_of_two bld f s"
  shows "\<exists>t. closing_step\<^sup>*\<^sup>* (destroy_begin (ShutDown s)) t \<and> pool_fault t = Some Undefined_behaviour"
    and "\<exists>t. closing_step\<^sup>*\<^sup>* (destroy_begin (ShutDown s)) t
      \<and> pool_fault t = Some (if bld = Debug then Assertion_failed else Process_aborted)"
proof -
  let ?s0 = "destroy_begin (ShutDown s)"
  let ?s1 = "worker_wake True 0 ?s0"
  let ?s2 = "monitor_top ?s1"
  let ?s3 = "monitor_collect ?s2"
  let ?s4 = "monitor_erase 0 ?s3"
  let ?j3 = "destroy_join 0 ?s2"
  note pool = pool_of_two_def destroy_begin_def ShutDown_def worker_ops monitor_ops destroy_join_def
  have "worker_step ?s0 ?s1" by (rule work_wake) (use assms in \<open>simp_all add: pool\<close>)
  moreover have "monitor_step ?s1 ?s2" by (rule mon_top) (use assms in \<open>simp add: pool\<close>)
  moreover have "monitor_step ?s2 ?s3" by (rule mon_collect) (use assms in \<open>simp add: pool\<close>)
  moreover have "monitor_step ?s3 ?s4" by (rule mon_erase) (use assms in \<open>simp_all add: pool\<close>)
  moreover have "join_step ?s4 (destroy_join 0 ?s4)" by (rule join_call) (use assms in \<open>simp add: pool\<close>)
  moreover have "join_step ?s2 ?j3" by (rule join_call) (use assms in \<open>simp add: pool\<close>)
  moreover have "monitor_step ?j3 (monitor_collect ?j3)" by (rule mon_collect) (use assms in \<open>simp add: pool\<close>)
  moreover have "pool_fault ?s0 = None" "pool_fault ?s1 = None" "pool_fault ?s2 = None" "pool_fault ?s3 = None"
      "pool_fault ?s4 = None" "pool_fault ?j3 = None"
    using assms by (simp_all add: pool)
  ultimately have steps: "closing_step ?s0 ?s1" "closing_step ?s1 ?s2" "closing_step ?s2 ?s3" "closing_step ?s3 ?s4"
      "closing_step ?s4 (destroy_join 0 ?s4)" "closing_step ?s2 ?j3" "closing_step ?j3 (monitor_collect ?j3)"
    unfolding closing_step_def pool_work_def by blast+
  from steps(1-5) have "closing_step\<^sup>*\<^sup>* ?s0 (destroy_join 0 ?s4)" by (meson rtranclp.rtrancl_into_rtrancl rtranclp.rtrancl_refl)
  moreover have "pool_fault (destroy_join 0 ?s4) = Some Undefined_behaviour" using assms by (simp add: pool)
  ultimately show "\<exists>t. closing_step\<^sup>*\<^sup>* ?s0 t \<and> pool_fault t = Some Undefined_behaviour" by blast
  from steps(1,2,6,7) have "closing_step\<^sup>*\<^sup>* ?s0 (monitor_collect ?j3)" by (meson rtranclp.rtrancl_into_rtrancl rtranclp.rtrancl_refl)
  moreover have "pool_fault (monitor_collect ?j3) = Some (if bld = Debug then Assertion_failed else Process_aborted)"
    using assms by (simp add: pool)
  ultimately show "\<exists>t. closing_step\<^sup>*\<^sup>* ?s0 t \<and> pool_fault t = Some (if bld = Debug then Assertion_failed else Process_aborted)"
    by blast
qed

subsection \<open>Witnesses for the destruction\<close>

lemma relpowp_two: "R x y \<Longrightarrow> R y z \<Longrightarrow> (R ^^ 2) x z"
  by (auto simp: numeral_2_eq_2)

theorem pool_shutdown_terminates_witness:
  "\<exists>s1 t. pool_work\<^sup>*\<^sup>* (ShutDown (sample_pool 1 TPS_RUNNING [] [At_loop] [] [])) s1 \<and> (closing_step ^^ 2) (destroy_begin s1) t
     \<and> 2 \<le> work_left (destroy_begin s1) \<and> joining t = All_joined \<and> pool_fault t = None"
proof -
  let ?s = "sample_pool 1 TPS_RUNNING [] [At_loop] [] []"
  have r: "reach (pool_init Debug 1 1 5) (pool_step Debug) ?s" by (rule reach_init) (rule sample_new)
  let ?s1 = "worker_loop 0 (ShutDown ?s)"
  let ?d1 = "destroy_join 0 (destroy_begin ?s1)"
  let ?d2 = "destroy_next 0 ?d1"
  note pool = destroy_begin_def ShutDown_def sample_pool_def worker_ops destroy_join_def destroy_next_def
  have "worker_step (ShutDown ?s) ?s1" by (rule work_loop) (simp_all add: pool)
  then have run: "pool_work\<^sup>*\<^sup>* (ShutDown ?s) ?s1" by (intro r_into_rtranclp) (simp add: pool_work_def)
  have "join_step (destroy_begin ?s1) ?d1" by (rule join_call) (simp add: pool)
  moreover have "join_step ?d1 ?d2" by (rule join_return) (simp_all add: pool)
  moreover have "pool_fault (destroy_begin ?s1) = None" "pool_fault ?d1 = None" by (simp_all add: pool)
  ultimately have "closing_step (destroy_begin ?s1) ?d1" "closing_step ?d1 ?d2" unfolding closing_step_def by blast+
  then have two: "(closing_step ^^ 2) (destroy_begin ?s1) ?d2" by (rule relpowp_two)
  have quiet: "\<forall>u. \<not> worker_step ?d2 u \<and> \<not> join_step ?d2 u"
    by (auto elim!: worker_step.cases join_step.cases simp: pool)
  have "nothing_to_collect ?s" by (simp add: nothing_to_collect_def sample_pool_def)
  then have "2 \<le> work_left (destroy_begin ?s1) \<and> joining ?d2 = All_joined \<and> pool_fault ?d2 = None"
    using pool_shutdown_terminates [OF r _ _ _ _ run two] quiet by (simp add: sample_pool_def)
  then show ?thesis using run two by blast
qed

theorem destructor_hangs_witness:
  "\<exists>t. (closing_step ^^ 2) (destroy_begin (sample_pool 1 TPS_RUNNING [] [At_loop] [] [])) t
     \<and> (\<exists>i. joining t = At_thread i \<or> joining t = Joining i) \<and> pool_fault t = None"
proof -
  let ?s = "sample_pool 1 TPS_RUNNING [] [At_loop] [] []"
  let ?d1 = "destroy_join 0 (destroy_begin ?s)"
  let ?d2 = "worker_loop 0 ?d1"
  note pool = destroy_begin_def sample_pool_def worker_ops destroy_join_def
  have r: "reach (pool_init Debug 1 1 5) (pool_step Debug) ?s" by (rule reach_init) (rule sample_new)
  have "join_step (destroy_begin ?s) ?d1" by (rule join_call) (simp add: pool)
  moreover have "worker_step ?d1 ?d2" by (rule work_loop) (simp_all add: pool)
  moreover have "pool_fault (destroy_begin ?s) = None" "pool_fault ?d1 = None" by (simp_all add: pool)
  ultimately have "closing_step (destroy_begin ?s) ?d1" "closing_step ?d1 ?d2"
    unfolding closing_step_def pool_work_def by blast+
  then have two: "(closing_step ^^ 2) (destroy_begin ?s) ?d2" by (rule relpowp_two)
  then have run: "closing_step\<^sup>*\<^sup>* (destroy_begin ?s) ?d2" by (rule relpowp_imp_rtranclp)
  have "nothing_to_collect ?s" by (simp add: nothing_to_collect_def sample_pool_def)
  then have "(\<exists>i. joining ?d2 = At_thread i \<or> joining ?d2 = Joining i) \<and> pool_fault ?d2 = None"
    using destructor_hangs [OF r _ _ _ run] by (simp add: sample_pool_def)
  then show ?thesis using two by blast
qed

end
