(* ===== verification/Base_Future.thy ===== *)
theory Base_Future
  imports Base_ThreadPool
begin

section \<open>base/thread\_pool: the futures that Commit answers\<close>

text \<open>
  \<open>ThreadPool::Commit\<close> (\<open>src/base/thread_pool.h\<close>) binds a function to its arguments, wraps it in a
  \<open>std::packaged_task\<close> that the queue and the caller's \<open>std::future\<close> share, and queues a lambda that
  calls it. Here a task of \<open>Base_ThreadPool\<close> is the number of such a shared state: \<open>calls\<close> says what
  the bound function does when it is called, \<open>shared\<close> is the shared state, empty until the
  function has returned or thrown. Calling a packaged task again throws \<open>std::future_error\<close>,
  which in a worker ends the process; destroying one that was never called breaks its promise.
\<close>

datatype 'r outcome = Returned 'r | Thrown string

datatype 'r future_state = Ready "'r outcome" | Broken_promise

record 'r pool_futures =
  thread_pool :: "nat ThreadPool"
  next_task :: nat
  calls :: "nat \<rightharpoonup> 'r outcome"
  shared :: "nat \<rightharpoonup> 'r future_state"

definition pool_futures_new :: "nat ThreadPool \<Rightarrow> 'r pool_futures" where
  "pool_futures_new p = \<lparr>thread_pool = p, next_task = 0, calls = Map.empty, shared = Map.empty\<rparr>"

text \<open>
  The first part of \<open>Commit\<close>: the assertion, then the packaged task and its future, whose
  number the caller keeps.
\<close>

definition Commit_future :: "build \<Rightarrow> 'r outcome \<Rightarrow> 'r pool_futures \<Rightarrow> (nat \<times> 'r pool_futures) result" where
  "Commit_future bld call s =
     bindR (Commit_check bld (next_task s) (thread_pool s)) (\<lambda>p.
       Inr (next_task s, s\<lparr>thread_pool := p, next_task := Suc (next_task s), calls := (calls s)(next_task s \<mapsto> call),
              shared := (shared s)(next_task s := None)\<rparr>))"

text \<open>The second part: the lambda is queued.\<close>

definition Commit_queue :: "build \<Rightarrow> nat \<Rightarrow> 'r pool_futures \<Rightarrow> 'r pool_futures result" where
  "Commit_queue bld task s =
     bindR (Commit_append bld task (thread_pool s)) (\<lambda>p. Inr (s\<lparr>thread_pool := p\<rparr>))"

text \<open>The call of a packaged task, and the end of \<open>task()\<close> in a worker.\<close>

definition packaged_task_call :: "nat \<Rightarrow> 'r pool_futures \<Rightarrow> 'r pool_futures result" where
  "packaged_task_call task s =
     (case (calls s task, shared s task) of
        (None, _) \<Rightarrow> Inl Undefined_behaviour
      | (Some call, None) \<Rightarrow> Inr (s\<lparr>shared := (shared s)(task \<mapsto> Ready call)\<rparr>)
      | (Some call, Some _) \<Rightarrow> Inl Process_aborted)"

definition worker_task_done :: "nat \<Rightarrow> nat \<Rightarrow> 'r pool_futures \<Rightarrow> 'r pool_futures result" where
  "worker_task_done i task s =
     bindR (packaged_task_call task s) (\<lambda>s1. Inr (s1\<lparr>thread_pool := worker_done i task (thread_pool s1)\<rparr>))"

text \<open>What \<open>get\<close> of a future comes back with; it blocks while this is \<open>None\<close>.\<close>

definition future_get :: "nat \<Rightarrow> 'r pool_futures \<Rightarrow> 'r future_state option" where
  "future_get task s = shared s task"


subsection \<open>Steps\<close>

text \<open>A worker that finishes a task calls it; all other steps are those of the pool.\<close>

inductive future_work :: "'r pool_futures \<Rightarrow> 'r pool_futures \<Rightarrow> bool" where
  future_done: "i < length (workers (thread_pool s)) \<Longrightarrow> workers (thread_pool s) ! i = Running task
    \<Longrightarrow> worker_task_done i task s = Inr s' \<Longrightarrow> future_work s s'"
| future_other: "pool_work (thread_pool s) p \<Longrightarrow> finished p = finished (thread_pool s)
    \<Longrightarrow> future_work s (s\<lparr>thread_pool := p\<rparr>)"

inductive future_step :: "build \<Rightarrow> 'r pool_futures \<Rightarrow> 'r pool_futures \<Rightarrow> bool" for bld :: build where
  future_check: "Commit_future bld call s = Inr (i, s') \<Longrightarrow> future_step bld s s'"
| future_append: "i \<in> set (entering (thread_pool s))
    \<Longrightarrow> kMaxTaskSize (thread_pool s) > length (tasks (thread_pool s)) \<or> \<not> holds_thread_pool_mutex (monitor (thread_pool s))
    \<Longrightarrow> Commit_queue bld i s = Inr s' \<Longrightarrow> future_step bld s s'"
| future_shutdown: "future_step bld s (s\<lparr>thread_pool := ShutDown (thread_pool s)\<rparr>)"
| future_works: "future_work s s' \<Longrightarrow> future_step bld s s'"


definition future_init :: "build \<Rightarrow> nat \<Rightarrow> nat \<Rightarrow> nat \<Rightarrow> 'r pool_futures \<Rightarrow> bool" where
  "future_init bld mx core mt s \<longleftrightarrow> (\<exists>p. pool_init bld mx core mt p \<and> s = pool_futures_new p)"

subsection \<open>The pool goes its own way\<close>

lemma future_work_pool: "future_work s t \<Longrightarrow> pool_work (thread_pool s) (thread_pool t)"
  by (erule future_work.cases)
    (auto simp: worker_task_done_def packaged_task_call_def result_simps pool_work_def intro: work_done split: option.splits)

lemma future_step_pool: "future_step bld s t \<Longrightarrow> pool_step bld (thread_pool s) (thread_pool t)"
proof (induction rule: future_step.induct)
  case (future_check call s i s')
  then show ?case by (auto simp: Commit_future_def result_simps intro: step_check)
next
  case (future_append i s s')
  then show ?case by (auto simp: Commit_queue_def result_simps intro: step_append)
qed (auto intro: step_shutdown step_work future_work_pool)



subsection \<open>The invariant\<close>

text \<open>
  Tasks have numbers of their own, and the shared state of a task holds what its function did
  exactly from when the task is finished.
\<close>

definition futures_ok :: "'r pool_futures \<Rightarrow> bool" where
  "futures_ok s \<longleftrightarrow> distinct (entering (thread_pool s) @ committed (thread_pool s))
     \<and> set (entering (thread_pool s)) \<union> set (committed (thread_pool s)) = {..<next_task s}
     \<and> (\<forall>i. calls s i \<noteq> None \<longleftrightarrow> i < next_task s)
     \<and> (\<forall>i < next_task s. shared s i = (if i \<in> set (finished (thread_pool s)) then map_option Ready (calls s i) else None))"

definition future_inv :: "nat \<Rightarrow> nat \<Rightarrow> 'r pool_futures \<Rightarrow> bool" where
  "future_inv mx core s \<longleftrightarrow> pool_inv mx core (thread_pool s) \<and> futures_ok s"

text \<open>A task that a worker holds is not finished, since no task was committed twice.\<close>

lemma finished_committed: "pool_inv mx core p \<Longrightarrow> set (finished p) \<subseteq> set (committed p)"
  by (auto simp: pool_inv_def dest!: mset_eq_setD arg_cong [where f = set_mset])

lemma held_not_finished:
  assumes "pool_inv mx core p" and "distinct (committed p)" and "i < length (workers p)" and "task \<in> set (holding (workers p ! i))"
  shows "task \<in> set (committed p)" and "task \<notin> set (finished p)"
proof -
  have held: "task \<in> set (concat (map holding (workers p)))" using assms(3,4) nth_mem [of i "workers p"] by auto
  have taken: "mset (taken p) = mset (finished p) + mset (concat (map holding (workers p)))"
    using assms(1) by (simp add: pool_inv_def)
  then have "task \<in> set (taken p)" using held by (metis Un_iff set_mset_mset set_mset_union)
  then show "task \<in> set (committed p)" using assms(1) by (auto simp: pool_inv_def)
  have "distinct (taken p)" using assms(1,2) by (auto simp: pool_inv_def)
  then have "distinct (finished p @ concat (map holding (workers p)))"
    using taken by (metis mset_append mset_eq_imp_distinct_iff)
  then show "task \<notin> set (finished p)" using held by auto
qed

lemma packaged_task_call_ok:
  assumes "future_inv mx core s" and "i < length (workers (thread_pool s))" and "workers (thread_pool s) ! i = Running task"
  shows "packaged_task_call task s = Inr (s\<lparr>shared := (shared s)(task := map_option Ready (calls s task))\<rparr>)" and "task < next_task s"
proof -
  have inv: "pool_inv mx core (thread_pool s)" "distinct (committed (thread_pool s))"
    using assms(1) by (simp_all add: future_inv_def futures_ok_def)
  from held_not_finished [OF inv assms(2), of task] assms(3)
  have "task \<in> set (committed (thread_pool s))" "task \<notin> set (finished (thread_pool s))" by simp_all
  then have state: "task < next_task s" "shared s task = None" "calls s task \<noteq> None"
    using assms(1) by (auto simp: future_inv_def futures_ok_def)
  then show "task < next_task s" by simp
  from state show "packaged_task_call task s = Inr (s\<lparr>shared := (shared s)(task := map_option Ready (calls s task))\<rparr>)"
    by (auto simp: packaged_task_call_def)
qed

lemma future_work_inv: "future_work s t \<Longrightarrow> future_inv mx core s \<Longrightarrow> future_inv mx core t"
proof -
  assume step: "future_work s t" and inv: "future_inv mx core s"
  have pool: "pool_inv mx core (thread_pool t)"
    using inv pool_work_inv [OF future_work_pool [OF step]] by (simp add: future_inv_def)
  have log: "entering (thread_pool t) = entering (thread_pool s)" "committed (thread_pool t) = committed (thread_pool s)"
    using pool_work_committed [OF future_work_pool [OF step]] by simp_all
  from step show "future_inv mx core t"
  proof cases
    case (future_done i task)
    note call = packaged_task_call_ok [OF inv future_done(1,2)]
    have "t = s\<lparr>shared := (shared s)(task := map_option Ready (calls s task)), thread_pool := worker_done i task (thread_pool s)\<rparr>"
      using future_done(3) call(1) by (simp add: worker_task_done_def)
    then show ?thesis using pool log inv call(2) by (auto simp: future_inv_def futures_ok_def worker_ops)
  next
    case (future_other p)
    then show ?thesis using pool log inv by (simp add: future_inv_def futures_ok_def)
  qed
qed

lemma future_step_inv: "future_step bld s t \<Longrightarrow> future_inv mx core s \<Longrightarrow> future_inv mx core t"
proof -
  assume step: "future_step bld s t" and inv: "future_inv mx core s"
  have pool: "pool_inv mx core (thread_pool t)"
    using inv pool_step_inv [OF future_step_pool [OF step]] by (simp add: future_inv_def)
  have fin: "set (finished (thread_pool s)) \<subseteq> set (committed (thread_pool s))"
    using inv finished_committed by (auto simp: future_inv_def)
  from step show "future_inv mx core t"
  proof cases
    case (future_check call i)
    then have t: "t = s\<lparr>thread_pool := (thread_pool s)\<lparr>entering := entering (thread_pool s) @ [next_task s]\<rparr>,
        next_task := Suc (next_task s), calls := (calls s)(next_task s \<mapsto> call), shared := (shared s)(next_task s := None)\<rparr>"
      by (auto simp: Commit_future_def Commit_check_ok result_simps)
    have ok: "futures_ok s" using inv by (simp add: future_inv_def)
    then have old: "next_task s \<notin> set (entering (thread_pool s)) \<union> set (committed (thread_pool s))"
      unfolding futures_ok_def by blast
    then have "next_task s \<notin> set (finished (thread_pool s))" using fin by blast
    moreover have "next_task s \<notin> set (entering (thread_pool s))" "next_task s \<notin> set (committed (thread_pool s))"
      using old by simp_all
    moreover have "{..<Suc (next_task s)} = insert (next_task s) {..<next_task s}" by (simp add: lessThan_Suc)
    ultimately have "futures_ok t" using ok unfolding t futures_ok_def by (simp add: less_Suc_eq)
    then show ?thesis using pool by (simp add: future_inv_def)
  next
    case (future_append i)
    then obtain p where p: "Commit_append bld i (thread_pool s) = Inr p" "t = s\<lparr>thread_pool := p\<rparr>"
      by (auto simp: Commit_queue_def result_simps)
    obtain s1 where "s1 = thread_pool s \<or> s1 = add_threads 1 (thread_pool s) \<and> kMaxTaskSize (thread_pool s) \<le> length (tasks (thread_pool s))"
        "p = s1\<lparr>tasks := tasks s1 @ [i], entering := remove1 i (entering s1), committed := committed s1 @ [i]\<rparr>"
      using Commit_append_ok [OF p(1)] by blast
    then have "entering p = remove1 i (entering (thread_pool s))" "committed p = committed (thread_pool s) @ [i]"
        "finished p = finished (thread_pool s)"
      by (elim disjE conjE; simp del: add_threads.simps One_nat_def)+
    moreover have ok: "futures_ok s" using inv by (simp add: future_inv_def)
    then have "distinct (entering (thread_pool s) @ committed (thread_pool s))" unfolding futures_ok_def by blast
    then have "distinct (remove1 i (entering (thread_pool s)) @ committed (thread_pool s) @ [i])"
        "set (remove1 i (entering (thread_pool s))) = set (entering (thread_pool s)) - {i}"
      using future_append(1) by auto
    ultimately have "futures_ok t" using ok future_append(1) unfolding p(2) futures_ok_def by (simp, blast)
    then show ?thesis using pool by (simp add: future_inv_def)
  next
    case future_shutdown
    then show ?thesis using pool inv by (simp add: future_inv_def futures_ok_def ShutDown_def)
  next
    case future_works
    then show ?thesis by (rule future_work_inv [OF _ inv])
  qed
qed

lemma pool_init_log: "pool_init bld mx core mt p \<Longrightarrow> entering p = [] \<and> committed p = []"
  by (auto simp: pool_init_def ThreadPool_new_def AddThread_ok)

lemma future_init_inv: "future_init bld mx core mt s \<Longrightarrow> future_inv mx core s"
proof -
  assume "future_init bld mx core mt s"
  then obtain p where p: "pool_init bld mx core mt p" "s = pool_futures_new p" by (auto simp: future_init_def)
  then have "pool_inv mx core p" "entering p = [] \<and> committed p = []"
    using pool_init_log [OF p(1)] by (auto simp: pool_init_def dest: ThreadPool_new_inv)
  then show ?thesis by (simp add: p(2) future_inv_def futures_ok_def pool_futures_new_def)
qed

interpretation future_runs: invariant_system "future_init bld mx core mt" "future_step bld" "future_inv mx core" for bld mx core mt
  by unfold_locales (auto intro: future_init_inv future_step_inv)










subsection \<open>Properties\<close>

text \<open>
  C12: The future of a task answers what its function did. In every interleaving, a task that has been
  finished has its own outcome, returned or thrown, in its future, the future of one that has not
  blocks, and no worker that comes to the end of a task calls a packaged task twice.
\<close>

theorem future_holds_outcome:
  assumes "reach (future_init bld mx core mt) (future_step bld) s" and "i < next_task s"
  shows "(future_get i s = (if i \<in> set (finished (thread_pool s)) then map_option Ready (calls s i) else None))
    \<and> calls s i \<noteq> None
    \<and> (w < length (workers (thread_pool s)) \<and> workers (thread_pool s) ! w = Running task
        \<longrightarrow> (\<exists>s'. worker_task_done w task s = Inr s'))"
proof (intro conjI impI)
  have inv: "future_inv mx core s" by (rule future_runs.reach_inv [OF assms(1)])
  then show "future_get i s = (if i \<in> set (finished (thread_pool s)) then map_option Ready (calls s i) else None)" "calls s i \<noteq> None"
    using assms(2) by (simp_all add: future_inv_def futures_ok_def future_get_def)
  assume "w < length (workers (thread_pool s)) \<and> workers (thread_pool s) ! w = Running task"
  then show "\<exists>s'. worker_task_done w task s = Inr s'"
    using packaged_task_call_ok(1) [OF inv] by (auto simp: worker_task_done_def)
qed


subsection \<open>A task that throws\<close>

definition sample_futures :: "nat ThreadPool \<Rightarrow> nat pool_futures" where
  "sample_futures p = \<lparr>thread_pool = p, next_task = 1, calls = [0 \<mapsto> Thrown ''bad''], shared = Map.empty\<rparr>"

definition future_pool :: "nat list \<Rightarrow> nat list \<Rightarrow> nat worker_state \<Rightarrow> nat list \<Rightarrow> nat ThreadPool" where
  "future_pool en ts w tk =
     \<lparr>pool_build = Debug, thread_pool_name = ''pool'', kMaxPoolSize = 1, kCorePoolSize = 1, kMaxTaskSize = 5, pool_status = TPS_RUNNING, tasks = ts,
      workers = [w], thread_names = [''TP_Work1''], thread_objects = [0], thread_joined = [], monitor_thread_free = [],
      idle_thread_num = (if idling w then 1 else 0), now_thread_num = 1,
      entering = en, monitor = Mon_top, joining = Not_destroying, pool_fault = None, committed = tk @ ts, taken = tk, finished = []\<rparr>"

lemma sample_future_new: "future_init Debug 1 1 5 (pool_futures_new (future_pool [] [] At_loop []))"
proof -
  have "ThreadPool_new Debug ''pool'' 1 1 5 = Inr (future_pool [] [] At_loop [])"
    by (simp add: ThreadPool_new_def AddThread_def future_pool_def)
  then show ?thesis unfolding future_init_def pool_init_def by blast
qed

lemma sample_future_check:
  "future_step Debug (pool_futures_new (future_pool [] [] At_loop [])) (sample_futures (future_pool [0] [] At_loop []))"
  by (rule future_check [of _ "Thrown ''bad''" _ 0])
    (simp add: Commit_future_def Commit_check_def future_pool_def pool_futures_new_def sample_futures_def)

lemma sample_future_append:
  "future_step Debug (sample_futures (future_pool [0] [] At_loop [])) (sample_futures (future_pool [] [0] At_loop []))"
  by (rule future_append [of 0]) (simp_all add: Commit_queue_def Commit_append_def future_pool_def sample_futures_def)

lemma sample_future_work:
  "worker_step p q \<Longrightarrow> finished q = finished p \<Longrightarrow> future_step Debug (sample_futures p) (sample_futures q)"
  using future_other [of "sample_futures p" q] by (intro future_works) (simp add: sample_futures_def pool_work_def)

lemmas future_reach_step = reach_step [where step = "future_step Debug"]

lemma sample_future_reach:
  "reach (future_init Debug 1 1 5) (future_step Debug) (sample_futures (future_pool [] [] (Running 0) [0]))"
proof -
  have "worker_step (future_pool [] [0] At_loop []) (worker_loop 0 (future_pool [] [0] At_loop []))"
    by (rule work_loop) (simp_all add: future_pool_def)
  also have "worker_loop 0 (future_pool [] [0] At_loop []) = future_pool [] [] (Popped 0) [0]"
    by (simp add: worker_ops future_pool_def)
  finally have take: "future_step Debug (sample_futures (future_pool [] [0] At_loop [])) (sample_futures (future_pool [] [] (Popped 0) [0]))"
    by (rule sample_future_work) (simp add: future_pool_def)
  have "worker_step (future_pool [] [] (Popped 0) [0]) (worker_begin 0 0 (future_pool [] [] (Popped 0) [0]))"
    by (rule work_begin) (simp_all add: future_pool_def)
  also have "worker_begin 0 0 (future_pool [] [] (Popped 0) [0]) = future_pool [] [] (Running 0) [0]"
    by (simp add: worker_ops future_pool_def)
  finally have run: "future_step Debug (sample_futures (future_pool [] [] (Popped 0) [0])) (sample_futures (future_pool [] [] (Running 0) [0]))"
    by (rule sample_future_work) (simp add: future_pool_def)
  show ?thesis
    by (intro future_reach_step [OF _ run] future_reach_step [OF _ take] future_reach_step [OF _ sample_future_append]
        future_reach_step [OF _ sample_future_check] reach_init sample_future_new)
qed

definition sample_finished :: "nat pool_futures" where
  "sample_finished = (sample_futures (worker_done 0 0 (future_pool [] [] (Running 0) [0])))\<lparr>shared := [0 \<mapsto> Ready (Thrown ''bad'')]\<rparr>"

lemma sample_finished_reach: "reach (future_init Debug 1 1 5) (future_step Debug) sample_finished"
proof -
  have "worker_task_done 0 0 (sample_futures (future_pool [] [] (Running 0) [0])) = Inr sample_finished"
    by (simp add: worker_task_done_def packaged_task_call_def sample_finished_def sample_futures_def)
  then have "future_work (sample_futures (future_pool [] [] (Running 0) [0])) sample_finished"
    by (intro future_done [of 0 _ 0]) (simp_all add: sample_futures_def future_pool_def)
  then show ?thesis by (intro future_reach_step [OF sample_future_reach] future_works)
qed

theorem future_holds_outcome_witness: "future_get 0 sample_finished = Some (Ready (Thrown ''bad''))"
proof -
  have "0 < next_task sample_finished" by (simp add: sample_finished_def sample_futures_def)
  from future_holds_outcome [OF sample_finished_reach this] show ?thesis
    by (simp add: sample_finished_def sample_futures_def future_pool_def worker_ops)
qed


end
