(* ===== verification/Base_Singleton.thy ===== *)
theory Base_Singleton
  imports Turbo_Steps
begin

section \<open>base/singleton: one object, made by the first call\<close>

text \<open>
  \<open>Singleton\<close> (\<open>src/base/singleton.h\<close>) makes its object inside \<open>std::call_once\<close> and registers its
  destruction with \<open>std::atexit\<close>, unless the class has a \<open>NoDestroy\<close>. The pointer \<open>value_\<close> is a static
  \<open>std::unique_ptr\<close>, whose own destructor runs when the process exits, after the handler, and deletes
  the object if the handler has not released it; so \<open>NoDestroy\<close> does not keep an object from being
  destroyed. The first part is a call that nothing interrupts, as the default logger makes it; the
  second part is a machine of any number of threads that call \<open>Instance\<close> while the process may exit.
  It is assumed that \<open>value_\<close> is initialised before the first call, so that the handler comes before
  its destructor, and that the process does not exit while a thread is inside the function that
  \<open>call_once\<close> runs.
\<close>

record 'v Singleton =
  once_done :: bool
  singleton_value :: "'v option"

definition Singleton_init :: "'v Singleton" where
  "Singleton_init = \<lparr>once_done = False, singleton_value = None\<rparr>"

text \<open>The end of \<open>Instance\<close>: the assertion, and the dereferenced pointer.\<close>

definition Singleton_get :: "build \<Rightarrow> 'v Singleton \<Rightarrow> 'v result" where
  "Singleton_get bld st =
     bindR (assertR bld (singleton_value st \<noteq> None)) (\<lambda>_.
       case singleton_value st of None \<Rightarrow> Inl Undefined_behaviour | Some v \<Rightarrow> Inr v)"

text \<open>\<open>std::call_once\<close> constructs the value from the arguments of the first call only.\<close>

definition Singleton_Instance :: "build \<Rightarrow> 'v \<Rightarrow> 'v Singleton \<Rightarrow> ('v \<times> 'v Singleton) result" where
  "Singleton_Instance bld constructed st =
     (let st1 = (if once_done st then st else \<lparr>once_done = True, singleton_value = Some constructed\<rparr>) in
      bindR (Singleton_get bld st1) (\<lambda>v. Inr (v, st1)))"

text \<open>The pointer is released and the object destroyed.\<close>

definition Singleton_Destroy :: "'v Singleton \<Rightarrow> 'v Singleton" where
  "Singleton_Destroy st = st\<lparr>singleton_value := None\<rparr>"

subsection \<open>Threads that call Instance\<close>

text \<open>
  \<open>Entering a\<close> is a thread inside \<open>call_once\<close> that may still have to wait; \<open>a\<close> is what the
  constructor would make of its arguments, \<open>None\<close> if it throws. \<open>Making\<close> is the thread that runs the
  function, at the construction, \<open>Made\<close> the same one at the registration, \<open>Leaving\<close> a thread behind
  \<open>call_once\<close>.
\<close>

datatype 'v instance_pc = Outside | Entering "'v option" | Making "'v option" | Made | Leaving
  | Returned 'v | Threw | Failed fault

text \<open>
  \<open>once_runner\<close> is the thread that runs the function, \<open>at_exit\<close> says that \<open>Destroy\<close> is registered.
  \<open>value_gone\<close> says that the static pointer has been destroyed: whoever uses it then does what the
  language leaves undefined. The last two fields record the objects made and destroyed.
\<close>

record 'v singleton_run =
  singleton :: "'v Singleton"
  once_runner :: "nat option"
  at_exit :: bool
  value_gone :: bool
  callers :: "nat \<Rightarrow> 'v instance_pc"
  made :: "'v list"
  destroyed :: "'v list"

definition singleton_run_init :: "'v singleton_run \<Rightarrow> bool" where
  "singleton_run_init s \<longleftrightarrow> s = \<lparr>singleton = Singleton_init, once_runner = None, at_exit = False, value_gone = False,
     callers = (\<lambda>_. Outside), made = [], destroyed = []\<rparr>"

definition set_caller :: "nat \<Rightarrow> 'v instance_pc \<Rightarrow> 'v singleton_run \<Rightarrow> 'v singleton_run" where
  "set_caller t p s = s\<lparr>callers := (callers s)(t := p)\<rparr>"

fun outside :: "'v instance_pc \<Rightarrow> bool" where
  "outside Outside = True"
| "outside (Returned v) = True"
| "outside Threw = True"
| "outside _ = False"

text \<open>A caller goes past the flag when it is set, and runs the function when nobody does.\<close>

definition once_enter :: "nat \<Rightarrow> 'v option \<Rightarrow> 'v singleton_run \<Rightarrow> 'v singleton_run" where
  "once_enter t a s =
     (if once_done (singleton s) then set_caller t Leaving s
      else set_caller t (Making a) (s\<lparr>once_runner := Some t\<rparr>))"

definition once_make :: "nat \<Rightarrow> 'v option \<Rightarrow> 'v singleton_run \<Rightarrow> 'v singleton_run" where
  "once_make t a s =
     (case a of
        None \<Rightarrow> set_caller t Threw (s\<lparr>once_runner := None\<rparr>)
      | Some v \<Rightarrow>
          if value_gone s then set_caller t (Failed Undefined_behaviour) (s\<lparr>once_runner := None\<rparr>)
          else set_caller t Made
          (s\<lparr>singleton := (singleton s)\<lparr>singleton_value := Some v\<rparr>, made := made s @ [v]\<rparr>))"

definition once_register :: "bool \<Rightarrow> nat \<Rightarrow> 'v singleton_run \<Rightarrow> 'v singleton_run" where
  "once_register no_destroy t s =
     set_caller t Leaving (s\<lparr>at_exit := (if no_destroy then at_exit s else True), once_runner := None,
       singleton := (singleton s)\<lparr>once_done := True\<rparr>\<rparr>)"

definition instance_return :: "build \<Rightarrow> nat \<Rightarrow> 'v singleton_run \<Rightarrow> 'v singleton_run" where
  "instance_return bld t s =
     set_caller t
       (if value_gone s then Failed Undefined_behaviour
        else case Singleton_get bld (singleton s) of Inl f \<Rightarrow> Failed f | Inr v \<Rightarrow> Returned v) s"

definition run_at_exit :: "'v singleton_run \<Rightarrow> 'v singleton_run" where
  "run_at_exit s =
     s\<lparr>singleton := Singleton_Destroy (singleton s), at_exit := False,
       destroyed := destroyed s @ (case singleton_value (singleton s) of None \<Rightarrow> [] | Some v \<Rightarrow> [v])\<rparr>"

text \<open>The destructor of the static \<open>value_\<close>.\<close>

definition static_end :: "'v singleton_run \<Rightarrow> 'v singleton_run" where
  "static_end s =
     s\<lparr>singleton := (singleton s)\<lparr>singleton_value := None\<rparr>, value_gone := True,
       destroyed := destroyed s @ (case singleton_value (singleton s) of None \<Rightarrow> [] | Some v \<Rightarrow> [v])\<rparr>"

inductive instance_step :: "build \<Rightarrow> bool \<Rightarrow> nat \<Rightarrow> 'v singleton_run \<Rightarrow> 'v singleton_run \<Rightarrow> bool"
  for bld :: build and no_destroy :: bool and t :: nat where
  inst_call: "outside (callers s t) \<Longrightarrow> instance_step bld no_destroy t s (set_caller t (Entering a) s)"
| inst_enter: "callers s t = Entering a \<Longrightarrow> once_done (singleton s) \<or> once_runner s = None
    \<Longrightarrow> instance_step bld no_destroy t s (once_enter t a s)"
| inst_make: "callers s t = Making a \<Longrightarrow> instance_step bld no_destroy t s (once_make t a s)"
| inst_register: "callers s t = Made \<Longrightarrow> instance_step bld no_destroy t s (once_register no_destroy t s)"
| inst_return: "callers s t = Leaving \<Longrightarrow> instance_step bld no_destroy t s (instance_return bld t s)"

inductive singleton_step :: "build \<Rightarrow> bool \<Rightarrow> 'v singleton_run \<Rightarrow> 'v singleton_run \<Rightarrow> bool"
  for bld :: build and no_destroy :: bool where
  by_caller: "instance_step bld no_destroy t s s' \<Longrightarrow> singleton_step bld no_destroy s s'"
| by_exit: "at_exit s \<Longrightarrow> singleton_step bld no_destroy s (run_at_exit s)"
| by_static_end: "\<not> at_exit s \<Longrightarrow> \<not> value_gone s \<Longrightarrow> once_runner s = None
    \<Longrightarrow> singleton_step bld no_destroy s (static_end s)"

subsection \<open>What holds in every interleaving\<close>

text \<open>
  \<open>runner_inv\<close>: exactly the recorded thread runs the function. \<open>object_inv\<close>: before that function is
  past the construction there is no object, afterwards there is one until it is destroyed.
  \<open>answer_inv\<close>: what the callers know of it.
\<close>

fun running_once :: "'v instance_pc \<Rightarrow> bool" where
  "running_once (Making a) = True"
| "running_once Made = True"
| "running_once _ = False"

definition runner_inv :: "'v singleton_run \<Rightarrow> bool" where
  "runner_inv s \<longleftrightarrow> (\<forall>t. running_once (callers s t) \<longleftrightarrow> once_runner s = Some t)
     \<and> (once_done (singleton s) \<longrightarrow> once_runner s = None)"

definition object_phase :: "bool \<Rightarrow> bool \<Rightarrow> 'v singleton_run \<Rightarrow> bool" where
  "object_phase exists no_destroy s \<longleftrightarrow>
     (if exists
      then \<exists>v. made s = [v] \<and> (destroyed s = [] \<and> singleton_value (singleton s) = Some v
               \<or> destroyed s = [v] \<and> singleton_value (singleton s) = None)
      else made s = [] \<and> destroyed s = [] \<and> singleton_value (singleton s) = None)
     \<and> (at_exit s \<longleftrightarrow> once_done (singleton s) \<and> \<not> no_destroy \<and> destroyed s = [])
     \<and> (destroyed s \<noteq> [] \<longrightarrow> once_done (singleton s) \<and> (no_destroy \<longrightarrow> value_gone s))
     \<and> (value_gone s \<longrightarrow> destroyed s = made s)"

definition object_inv :: "bool \<Rightarrow> 'v singleton_run \<Rightarrow> bool" where
  "object_inv no_destroy s \<longleftrightarrow>
     object_phase (once_done (singleton s) \<or> (\<exists>t. callers s t = Made)) no_destroy s"

definition answer_inv :: "'v singleton_run \<Rightarrow> bool" where
  "answer_inv s \<longleftrightarrow> (\<forall>t. (\<forall>v. callers s t = Returned v \<longrightarrow> made s = [v])
     \<and> (callers s t = Leaving \<longrightarrow> once_done (singleton s))
     \<and> (\<forall>f. callers s t = Failed f \<longrightarrow> destroyed s \<noteq> [] \<or> value_gone s))"

definition singleton_inv :: "bool \<Rightarrow> 'v singleton_run \<Rightarrow> bool" where
  "singleton_inv no_destroy s \<longleftrightarrow> runner_inv s \<and> object_inv no_destroy s \<and> answer_inv s"

lemmas singleton_ops = set_caller_def once_enter_def once_make_def once_register_def instance_return_def
  run_at_exit_def Singleton_Destroy_def static_end_def

lemma singleton_inv_init: "singleton_run_init s \<Longrightarrow> singleton_inv no_destroy s"
  by (simp add: singleton_run_init_def singleton_inv_def runner_inv_def object_inv_def object_phase_def answer_inv_def
      Singleton_init_def)

text \<open>The recorded thread stays, a thread becomes the recorded one, and it stops being it.\<close>

lemma runner_keep:
  "runner_inv s \<Longrightarrow> running_once p = running_once (callers s t) \<Longrightarrow> callers s' = (callers s)(t := p)
    \<Longrightarrow> once_runner s' = once_runner s \<Longrightarrow> once_done (singleton s') = once_done (singleton s) \<Longrightarrow> runner_inv s'"
  by (simp add: runner_inv_def)

lemma runner_take:
  "runner_inv s \<Longrightarrow> once_runner s = None \<Longrightarrow> running_once p \<Longrightarrow> callers s' = (callers s)(t := p)
    \<Longrightarrow> once_runner s' = Some t \<Longrightarrow> \<not> once_done (singleton s') \<Longrightarrow> runner_inv s'"
  by (auto simp: runner_inv_def)

lemma runner_release:
  "runner_inv s \<Longrightarrow> running_once (callers s t) \<Longrightarrow> \<not> running_once p \<Longrightarrow> callers s' = (callers s)(t := p)
    \<Longrightarrow> once_runner s' = None \<Longrightarrow> runner_inv s'"
  by (auto simp: runner_inv_def)

lemma runner_step:
  assumes "instance_step bld no_destroy t s s'" and inv: "runner_inv s"
  shows "runner_inv s'"
  using assms(1)
proof cases
  case (inst_call a)
  show ?thesis by (rule runner_keep [OF inv, of "Entering a" t])
      (use inst_call in \<open>auto simp: singleton_ops elim: outside.elims\<close>)
next
  case (inst_enter a)
  show ?thesis
  proof (cases "once_done (singleton s)")
    case True
    show ?thesis by (rule runner_keep [OF inv, of Leaving t]) (use inst_enter True in \<open>simp_all add: singleton_ops\<close>)
  next
    case False
    show ?thesis by (rule runner_take [OF inv, of "Making a" _ t]) (use inst_enter False in \<open>simp_all add: singleton_ops\<close>)
  qed
next
  case (inst_make a)
  show ?thesis
  proof (cases a)
    case None
    show ?thesis by (rule runner_release [OF inv, of t Threw]) (use inst_make None in \<open>simp_all add: singleton_ops\<close>)
  next
    case (Some v)
    show ?thesis
    proof (cases "value_gone s")
      case True
      show ?thesis by (rule runner_release [OF inv, of t "Failed Undefined_behaviour"])
          (use inst_make Some True in \<open>simp_all add: singleton_ops\<close>)
    next
      case False
      show ?thesis by (rule runner_keep [OF inv, of Made t]) (use inst_make Some False in \<open>simp_all add: singleton_ops\<close>)
    qed
  qed
next
  case inst_register
  show ?thesis by (rule runner_release [OF inv, of t Leaving]) (use inst_register in \<open>simp_all add: singleton_ops\<close>)
next
  case inst_return
  show ?thesis
    by (rule runner_keep [OF inv, of "callers s' t" t]) (use inst_return in \<open>simp_all add: singleton_ops split: sum.split\<close>)
qed

text \<open>While somebody is at the construction, nobody has made the object.\<close>

lemma making_alone:
  assumes "runner_inv s" and "running_once (callers s t)"
  shows "\<not> once_done (singleton s)" and "callers s u = Made \<Longrightarrow> u = t"
  using assms by (auto simp: runner_inv_def)

lemma object_keep:
  "object_inv nd s \<Longrightarrow> callers s t \<noteq> Made \<Longrightarrow> p \<noteq> Made \<Longrightarrow> callers s' = (callers s)(t := p)
    \<Longrightarrow> singleton s' = singleton s \<Longrightarrow> made s' = made s \<Longrightarrow> destroyed s' = destroyed s \<Longrightarrow> at_exit s' = at_exit s
    \<Longrightarrow> value_gone s' = value_gone s \<Longrightarrow> object_inv nd s'"
proof -
  assume a: "object_inv nd s" "callers s t \<noteq> Made" "p \<noteq> Made" "callers s' = (callers s)(t := p)"
    "singleton s' = singleton s" "made s' = made s" "destroyed s' = destroyed s" "at_exit s' = at_exit s"
    "value_gone s' = value_gone s"
  have "(\<exists>u. callers s' u = Made) = (\<exists>u. callers s u = Made)" using a(2-4) by auto
  moreover have "object_phase b nd s' = object_phase b nd s" for b using a(5-9) by (simp add: object_phase_def)
  ultimately show "object_inv nd s'" using a(1,5) by (simp add: object_inv_def)
qed

lemma object_step:
  assumes "instance_step bld nd t s s'" and run: "runner_inv s" and inv: "object_inv nd s"
  shows "object_inv nd s'"
  using assms(1)
proof cases
  case (inst_call a)
  show ?thesis by (rule object_keep [OF inv, of t "Entering a"]) (use inst_call in \<open>auto simp: singleton_ops\<close>)
next
  case (inst_enter a)
  show ?thesis by (rule object_keep [OF inv, of t "callers s' t"]) (use inst_enter in \<open>simp_all add: singleton_ops\<close>)
next
  case (inst_make a)
  note alone = making_alone [OF run, of t]
  show ?thesis
  proof (cases a)
    case None
    show ?thesis by (rule object_keep [OF inv, of t Threw]) (use inst_make None in \<open>simp_all add: singleton_ops\<close>)
  next
    case (Some v)
    show ?thesis
    proof (cases "value_gone s")
      case True
      show ?thesis by (rule object_keep [OF inv, of t "Failed Undefined_behaviour"])
          (use inst_make Some True in \<open>simp_all add: singleton_ops\<close>)
    next
      case False
      have "\<not> (\<exists>u. callers s u = Made)" using alone(2) inst_make by auto
      then show ?thesis using inv alone(1) inst_make Some False
        by (simp add: object_inv_def object_phase_def singleton_ops exI [of _ t])
    qed
  qed
next
  case inst_register
  have "\<not> once_done (singleton s)" by (rule making_alone(1) [OF run, of t]) (simp add: inst_register(2))
  moreover have "\<exists>u. callers s u = Made" using inst_register(2) by blast
  then have "object_phase True nd s" using inv by (simp add: object_inv_def)
  ultimately have "object_phase True nd s'" by (auto simp: inst_register(1) object_phase_def singleton_ops)
  moreover have "once_done (singleton s')" by (simp add: inst_register(1) singleton_ops)
  ultimately show ?thesis by (simp add: object_inv_def)
next
  case inst_return
  show ?thesis
    by (rule object_keep [OF inv, of t "callers s' t"]) (use inst_return in \<open>simp_all add: singleton_ops split: sum.split\<close>)
qed

lemma answer_step:
  assumes "instance_step bld nd t s s'" and run: "runner_inv s" and obj: "object_inv nd s" and inv: "answer_inv s"
  shows "answer_inv s'"
proof -
  have none: "callers s u \<noteq> Returned v" "callers s u \<noteq> Leaving" "callers s u = Failed f \<longrightarrow> value_gone s"
    if "\<not> once_done (singleton s)" "made s = [] \<and> destroyed s = []" for u v f
    using inv that by (auto simp: answer_inv_def)
  show ?thesis
    using assms(1)
  proof cases
    case (inst_make a)
    note alone = making_alone [OF run, of t]
    have "\<not> (\<exists>u. callers s u = Made)" using alone(2) inst_make by auto
    then have "made s = [] \<and> destroyed s = []" using obj alone(1) inst_make
      by (simp add: object_inv_def object_phase_def)
    then show ?thesis using none alone(1) inst_make by (auto simp: answer_inv_def singleton_ops split: option.split)
  next
    case inst_return
    then have "once_done (singleton s)" using inv by (simp add: answer_inv_def)
    then obtain v where v: "made s = [v]" "destroyed s = [] \<and> singleton_value (singleton s) = Some v
        \<or> destroyed s = [v] \<and> singleton_value (singleton s) = None"
      using obj by (auto simp: object_inv_def object_phase_def)
    then show ?thesis using inst_return inv
      by (cases "value_gone s") (auto simp: answer_inv_def instance_return_def set_caller_def Singleton_get_def result_simps split: sum.split)
  qed (use inv in \<open>auto simp: answer_inv_def singleton_ops\<close>)
qed

lemma singleton_inv_step: "singleton_inv nd s \<Longrightarrow> singleton_step bld nd s s' \<Longrightarrow> singleton_inv nd s'"
proof -
  assume inv: "singleton_inv nd s" and step: "singleton_step bld nd s s'"
  show "singleton_inv nd s'"
    using step
  proof cases
    case (by_caller t)
    then show ?thesis using inv runner_step object_step answer_step unfolding singleton_inv_def by blast
  next
    case by_exit
    then have "runner_inv s'" "answer_inv s'" "object_inv nd s'"
      using inv by (auto simp: singleton_inv_def runner_inv_def answer_inv_def object_inv_def object_phase_def
          run_at_exit_def Singleton_Destroy_def)
    then show ?thesis by (simp add: singleton_inv_def)
  next
    case by_static_end
    have "\<not> running_once (callers s t)" for t
      using inv by_static_end(4) by (simp add: singleton_inv_def runner_inv_def)
    then have none: "callers s t \<noteq> Made" for t by (metis running_once.simps(2))
    have "runner_inv s'" "answer_inv s'"
      using inv by (auto simp: singleton_inv_def runner_inv_def answer_inv_def static_end_def by_static_end(1))
    moreover have "object_inv nd s'"
      using inv by_static_end none
      by (auto simp: singleton_inv_def object_inv_def object_phase_def static_end_def split: if_splits)
    ultimately show ?thesis by (simp add: singleton_inv_def)
  qed
qed

interpretation singleton_runs: invariant_system singleton_run_init "singleton_step bld nd" "singleton_inv nd" for bld nd
  by unfold_locales (auto intro: singleton_inv_init singleton_inv_step)

lemma object_history:
  assumes "singleton_inv nd s"
  shows "length (made s) \<le> 1" "destroyed s = [] \<or> destroyed s = made s" "destroyed s \<noteq> [] \<and> nd \<longrightarrow> value_gone s"
    "value_gone s \<longrightarrow> destroyed s = made s"
proof -
  obtain b where "object_phase b nd s" using assms by (auto simp: singleton_inv_def object_inv_def)
  then show "length (made s) \<le> 1" "destroyed s = [] \<or> destroyed s = made s" "destroyed s \<noteq> [] \<and> nd \<longrightarrow> value_gone s"
      "value_gone s \<longrightarrow> destroyed s = made s"
    by (cases b; auto simp: object_phase_def)+
qed

text \<open>
  C14: A singleton is one object. However many threads call Instance, in any interleaving and with
  constructors that may throw, while the process runs and exits, at most one object is made, every
  call that returns answers that object, and no call fails before the object or the static pointer to it
  is destroyed. The object is destroyed at most once, by the exit handler or by the destructor of the
  static pointer, with NoDestroy by the latter only; after that destructor no object is left.
\<close>

theorem Instance_is_one_object:
  assumes "reach singleton_run_init (singleton_step bld no_destroy) s"
  shows "length (made s) \<le> 1
    \<and> (\<forall>t v. callers s t = Returned v \<longrightarrow> made s = [v])
    \<and> (destroyed s = [] \<or> destroyed s = made s)
    \<and> (destroyed s \<noteq> [] \<and> no_destroy \<longrightarrow> value_gone s)
    \<and> (value_gone s \<longrightarrow> destroyed s = made s)
    \<and> (\<forall>t f. callers s t = Failed f \<longrightarrow> destroyed s \<noteq> [] \<or> value_gone s)"
proof -
  have inv: "singleton_inv no_destroy s" by (rule singleton_runs.reach_inv [OF assms])
  note object = object_history [OF inv]
  have answer: "\<forall>t v. callers s t = Returned v \<longrightarrow> made s = [v]"
      "\<forall>t f. callers s t = Failed f \<longrightarrow> destroyed s \<noteq> [] \<or> value_gone s"
    using inv by (auto simp: singleton_inv_def answer_inv_def)
  show ?thesis by (intro conjI object answer)
qed

subsection \<open>Every call comes back\<close>

definition calls_step :: "build \<Rightarrow> bool \<Rightarrow> 'v singleton_run \<Rightarrow> 'v singleton_run \<Rightarrow> bool" where
  "calls_step bld nd s s' \<longleftrightarrow> (\<exists>t. instance_step bld nd t s s')"

fun answered :: "'v instance_pc \<Rightarrow> bool" where
  "answered (Returned v) = True"
| "answered Threw = True"
| "answered (Failed f) = True"
| "answered _ = False"

lemma calls_destroyed: "(calls_step bld nd)\<^sup>*\<^sup>* s s' \<Longrightarrow> destroyed s' = destroyed s \<and> value_gone s' = value_gone s"
  by (induction rule: rtranclp_induct)
    (auto simp: calls_step_def singleton_ops elim!: instance_step.cases split: option.splits if_splits)

lemma calls_are_steps: "(calls_step bld nd)\<^sup>*\<^sup>* s s' \<Longrightarrow> (singleton_step bld nd)\<^sup>*\<^sup>* s s'"
  by (auto simp: calls_step_def elim!: rtranclp_mono [THEN predicate2D, rotated] intro: by_caller)

lemma leaving_returns:
  assumes "callers s t = Leaving"
  shows "\<exists>s'. (calls_step bld nd)\<^sup>*\<^sup>* s s' \<and> answered (callers s' t)"
proof (intro exI conjI)
  show "(calls_step bld nd)\<^sup>*\<^sup>* s (instance_return bld t s)"
    using inst_return [OF assms] unfolding calls_step_def by blast
  show "answered (callers (instance_return bld t s) t)" by (simp add: singleton_ops split: sum.split)
qed

text \<open>The thread that runs the function gets behind it on its own.\<close>

lemma runner_finishes:
  assumes "running_once (callers s u)"
  shows "\<exists>s'. (calls_step bld nd)\<^sup>*\<^sup>* s s' \<and> once_runner s' = None \<and> callers s' u \<in> {Leaving, Threw, Failed Undefined_behaviour}
    \<and> (\<forall>t. t \<noteq> u \<longrightarrow> callers s' t = callers s t)"
proof -
  have reg: "\<exists>s'. calls_step bld nd r s' \<and> once_runner s' = None \<and> callers s' u = Leaving
      \<and> (\<forall>t. t \<noteq> u \<longrightarrow> callers s' t = callers r t)" if "callers r u = Made" for r :: "'a singleton_run"
    using inst_register [OF that, of bld nd] unfolding calls_step_def
    by (intro exI [of _ "once_register nd u r"]) (auto simp: singleton_ops)
  from assms show ?thesis
  proof (cases "callers s u" rule: running_once.cases)
    case (1 a)
    then have st: "calls_step bld nd s (once_make u a s)" using inst_make unfolding calls_step_def by blast
    show ?thesis
    proof (cases a)
      case None
      then show ?thesis using st by (intro exI [of _ "once_make u a s"]) (auto simp: singleton_ops)
    next
      case some: (Some v)
      show ?thesis
      proof (cases "value_gone s")
        case True
        then show ?thesis using st some by (intro exI [of _ "once_make u a s"]) (auto simp: singleton_ops)
      next
        case False
      then have "callers (once_make u a s) u = Made" "\<forall>t. t \<noteq> u \<longrightarrow> callers (once_make u a s) t = callers s t"
        by (simp_all add: singleton_ops some)
      then show ?thesis using reg [of "once_make u a s"] st by (metis converse_rtranclp_into_rtranclp insertCI r_into_rtranclp)
      qed
    qed
  next
    case 2
    then show ?thesis using reg [of s] by (metis insertCI r_into_rtranclp)
  qed simp_all
qed

lemma running_returns:
  assumes "running_once (callers s t)"
  shows "\<exists>s'. (calls_step bld nd)\<^sup>*\<^sup>* s s' \<and> answered (callers s' t)"
proof -
  obtain r where r: "(calls_step bld nd)\<^sup>*\<^sup>* s r" "callers r t = Leaving \<or> callers r t = Threw
      \<or> callers r t = Failed Undefined_behaviour"
    using runner_finishes [OF assms] by blast
  then show ?thesis using leaving_returns [of r t bld nd] by (metis answered.simps(2,3) rtranclp_trans)
qed

lemma entering_returns:
  assumes "callers s t = Entering a" and "once_done (singleton s) \<or> once_runner s = None"
  shows "\<exists>s'. (calls_step bld nd)\<^sup>*\<^sup>* s s' \<and> answered (callers s' t)"
proof -
  have st: "calls_step bld nd s (once_enter t a s)" using inst_enter [OF assms] unfolding calls_step_def by blast
  have "callers (once_enter t a s) t = Leaving \<or> running_once (callers (once_enter t a s) t)"
    by (simp add: singleton_ops)
  then show ?thesis using leaving_returns [of "once_enter t a s" t] running_returns [of "once_enter t a s" t] st
    by (metis converse_rtranclp_into_rtranclp)
qed

lemma call_returns:
  assumes "runner_inv s" and "\<not> outside (callers s t)"
  shows "\<exists>s'. (calls_step bld nd)\<^sup>*\<^sup>* s s' \<and> answered (callers s' t)"
proof (cases "callers s t")
  case (Entering a)
  show ?thesis
  proof (cases "once_done (singleton s) \<or> once_runner s = None")
    case True
    then show ?thesis by (rule entering_returns [OF Entering])
  next
    case False
    then obtain u where "once_runner s = Some u" by auto
    then have u: "running_once (callers s u)" using assms(1) by (simp add: runner_inv_def)
    then have "u \<noteq> t" using Entering by auto
    obtain r where r: "(calls_step bld nd)\<^sup>*\<^sup>* s r" "once_runner r = None" "\<forall>w. w \<noteq> u \<longrightarrow> callers r w = callers s w"
      using runner_finishes [OF u] by blast
    then have "callers r t = Entering a" using \<open>u \<noteq> t\<close> Entering by simp
    then show ?thesis using entering_returns r(1,2) by (metis rtranclp_trans)
  qed
next
  case (Failed f)
  then show ?thesis by (intro exI [of _ s]) simp
next
  case (Making a)
  then show ?thesis by (intro running_returns) simp
next
  case Made
  then show ?thesis by (intro running_returns) simp
qed (use assms(2) leaving_returns in auto)

text \<open>
  No call of Instance is stuck. Before the object and the pointer to it are destroyed, whatever the other threads are
  doing, a call can be brought to its end: it returns the one object, or its own constructor threw.
\<close>

theorem Instance_returns:
  assumes "reach singleton_run_init (singleton_step bld no_destroy) s" and "\<not> outside (callers s t)"
    and "destroyed s = []" and "\<not> value_gone s"
  shows "\<exists>s'. (singleton_step bld no_destroy)\<^sup>*\<^sup>* s s'
    \<and> (callers s' t = Threw \<or> (\<exists>v. callers s' t = Returned v \<and> singleton_value (singleton s') = Some v))"
proof -
  have inv: "singleton_inv no_destroy s" by (rule singleton_runs.reach_inv [OF assms(1)])
  then have "runner_inv s" by (simp add: singleton_inv_def)
  then obtain s' where s': "(calls_step bld no_destroy)\<^sup>*\<^sup>* s s'" "answered (callers s' t)"
    using call_returns [OF _ assms(2)] by blast
  have run: "(singleton_step bld no_destroy)\<^sup>*\<^sup>* s s'" by (rule calls_are_steps [OF s'(1)])
  have "destroyed s' = []" "\<not> value_gone s'" using calls_destroyed [OF s'(1)] assms(3,4) by simp_all
  moreover have "singleton_inv no_destroy s'" by (rule singleton_runs.run_inv [OF run inv])
  ultimately have "callers s' t = Threw \<or> (\<exists>v. callers s' t = Returned v \<and> singleton_value (singleton s') = Some v)"
    using s'(2) by (cases "callers s' t")
      (auto simp: singleton_inv_def answer_inv_def object_inv_def object_phase_def split: if_splits)
  then show ?thesis using run by blast
qed

text \<open>
  A constructor that throws leaves the singleton as it was, so that a later call makes the object.
  After the exit handler has run a call fails, in a Debug build at the assertion, and after the
  destructor of the static pointer it uses an object that is gone.
\<close>

lemma throwing_constructor_leaves_nothing:
  "singleton (once_make t None s) = singleton s \<and> once_runner (once_make t None s) = None
    \<and> callers (once_make t None s) t = Threw"
  by (simp add: singleton_ops)

lemma Instance_after_exit:
  assumes "reach singleton_run_init (singleton_step bld no_destroy) s" and "destroyed s \<noteq> []"
  shows "callers (instance_return bld t s) t
    = Failed (if bld = Debug \<and> \<not> value_gone s then Assertion_failed else Undefined_behaviour)"
proof -
  have "singleton_value (singleton s) = None"
    using singleton_runs.reach_inv [OF assms(1)] assms(2)
    by (auto simp: singleton_inv_def object_inv_def object_phase_def split: if_splits)
  then show ?thesis by (cases bld) (simp_all add: singleton_ops Singleton_get_def)
qed

text \<open>A call that nothing interrupts is \<open>Singleton_Instance\<close>.\<close>

lemma Instance_uninterrupted:
  assumes "outside (callers s t)" and "once_runner s = None" and "\<not> value_gone s" and "Singleton_Instance bld v (singleton s) = Inr (x, sg)"
  shows "\<exists>s'. (calls_step bld nd)\<^sup>*\<^sup>* s s' \<and> callers s' t = Returned x \<and> singleton s' = sg"
proof -
  let ?s1 = "set_caller t (Entering (Some v)) s"
  let ?s2 = "once_enter t (Some v) ?s1"
  have "calls_step bld nd s ?s1" unfolding calls_step_def by (intro exI [of _ t] inst_call assms(1))
  moreover have "calls_step bld nd ?s1 ?s2"
    unfolding calls_step_def by (intro exI [of _ t] inst_enter) (simp_all add: set_caller_def assms(2))
  ultimately have s2: "(calls_step bld nd)\<^sup>*\<^sup>* s ?s2" by (meson converse_rtranclp_into_rtranclp r_into_rtranclp)
  have gone: "\<not> value_gone ?s2" using assms(3) by (simp add: singleton_ops)
  obtain r where r: "(calls_step bld nd)\<^sup>*\<^sup>* s r" "callers r t = Leaving" "singleton r = sg"
  proof (cases "once_done (singleton s)")
    case True
    then have "callers ?s2 t = Leaving" "singleton ?s2 = sg"
      using assms(4) by (auto simp: singleton_ops Singleton_Instance_def result_simps Let_def)
    then show thesis using s2 that by blast
  next
    case False
    let ?s3 = "once_make t (Some v) ?s2"
    let ?s4 = "once_register nd t ?s3"
    have "callers ?s2 t = Making (Some v)" "callers ?s3 t = Made" using False assms(3) by (simp_all add: singleton_ops)
    then have "calls_step bld nd ?s2 ?s3" "calls_step bld nd ?s3 ?s4"
      unfolding calls_step_def by (blast intro: inst_make, blast intro: inst_register)
    then have "(calls_step bld nd)\<^sup>*\<^sup>* s ?s4" using s2 by (meson rtranclp.rtrancl_into_rtrancl)
    moreover have "callers ?s4 t = Leaving" by (simp add: singleton_ops)
    moreover have "singleton ?s4 = sg"
      using assms(4) False assms(3) by (auto simp: singleton_ops Singleton_Instance_def result_simps Let_def)
    ultimately show thesis using that by blast
  qed
  have "Singleton_get bld sg = Inr x" using assms(4) by (auto simp: Singleton_Instance_def result_simps Let_def)
  then have "callers (instance_return bld t r) t = Returned x" "singleton (instance_return bld t r) = sg"
    using r(3) calls_destroyed [OF r(1)] assms(3) by (simp_all add: singleton_ops)
  moreover have "calls_step bld nd r (instance_return bld t r)" using inst_return [OF r(2)] unfolding calls_step_def by blast
  then have "(calls_step bld nd)\<^sup>*\<^sup>* s (instance_return bld t r)" using r(1) by (rule rtranclp.rtrancl_into_rtrancl [rotated])
  ultimately show ?thesis by blast
qed

subsection \<open>Witnesses\<close>

definition fresh_singleton :: "nat singleton_run" where
  "fresh_singleton = \<lparr>singleton = Singleton_init, once_runner = None, at_exit = False, value_gone = False,
     callers = (\<lambda>_. Outside), made = [], destroyed = []\<rparr>"

lemma fresh_reach: "reach singleton_run_init (singleton_step bld nd) fresh_singleton"
  by (rule reach_init) (simp add: fresh_singleton_def singleton_run_init_def)

theorem Instance_is_one_object_witness:
  "\<exists>s :: nat singleton_run. callers s 0 = Returned 7 \<and> value_gone s \<and> made s = [7] \<and> destroyed s = [7]"
proof -
  have "Singleton_Instance Debug 7 (singleton fresh_singleton) = Inr (7, \<lparr>once_done = True, singleton_value = Some 7\<rparr>)"
    by (simp add: fresh_singleton_def Singleton_Instance_def Singleton_get_def Singleton_init_def)
  then obtain s where s: "(calls_step Debug True)\<^sup>*\<^sup>* fresh_singleton s" "callers s 0 = Returned 7"
      "singleton s = \<lparr>once_done = True, singleton_value = Some 7\<rparr>"
    using Instance_uninterrupted [of fresh_singleton 0 Debug 7 7 _ True] by (auto simp: fresh_singleton_def)
  have r: "reach singleton_run_init (singleton_step Debug True) s"
    by (rule reach_trans [OF calls_are_steps [OF s(1)] fresh_reach])
  have inv: "singleton_inv True s" by (rule singleton_runs.reach_inv [OF r])
  then have "once_runner s = None" "\<not> at_exit s"
    using s(3) by (simp_all add: singleton_inv_def runner_inv_def object_inv_def object_phase_def)
  moreover have "\<not> value_gone s" using calls_destroyed [OF s(1)] by (simp add: fresh_singleton_def)
  ultimately have "singleton_step Debug True s (static_end s)" by (intro by_static_end)
  then have "reach singleton_run_init (singleton_step Debug True) (static_end s)" by (rule reach_step [OF r])
  from Instance_is_one_object [OF this]
  have "value_gone (static_end s) \<and> made (static_end s) = [7] \<and> destroyed (static_end s) = [7]
      \<and> callers (static_end s) 0 = Returned 7"
    using s(2) by (auto simp: static_end_def)
  then show ?thesis by blast
qed

theorem Instance_returns_witness:
  "\<exists>s'. (singleton_step Release False)\<^sup>*\<^sup>* (set_caller 3 (Entering (Some 7)) fresh_singleton) s'
    \<and> (callers s' 3 = Threw \<or> (\<exists>v. callers s' 3 = Returned v \<and> singleton_value (singleton s') = Some v))"
proof (rule Instance_returns)
  have "instance_step Release False 3 fresh_singleton (set_caller 3 (Entering (Some 7)) fresh_singleton)"
    by (rule inst_call) (simp add: fresh_singleton_def)
  then show "reach singleton_run_init (singleton_step Release False) (set_caller 3 (Entering (Some 7)) fresh_singleton)"
    using fresh_reach [of Release False] by (meson by_caller reach_step)
qed (simp_all add: fresh_singleton_def set_caller_def)

end
