(* ===== verification/Logger_Stream.thy ===== *)
theory Logger_Stream
  imports Turbo_Numerals
begin

section \<open>logger/fixed\_buffer and logger/log\_stream: formatting a log line\<close>

text \<open>
  \<open>FixedBuffer<SIZE>\<close> (\<open>src/logger/fixed_buffer.h\<close>) is an array and a pointer \<open>cur_\<close> into it; the
  model keeps the array and the offset of the pointer, and \<open>SIZE\<close> is the length of the array.
  \<open>LogStream\<close> (\<open>src/logger/log_stream.h\<close>, \<open>src/logger/log_stream.cpp\<close>) has one such buffer of 4000
  bytes and an overload of \<open>operator<<\<close> per type. Formatting writes straight into the array, so
  every store is checked against its bounds.
\<close>

record FixedBuffer =
  fb_data :: "char list"
  fb_cur :: nat

definition FixedBuffer_new :: "nat \<Rightarrow> FixedBuffer" where
  "FixedBuffer_new SIZE = \<lparr>fb_data = replicate SIZE NUL, fb_cur = 0\<rparr>"

definition FixedBuffer_Length :: "FixedBuffer \<Rightarrow> int" where
  "FixedBuffer_Length b = int (fb_cur b)"

definition FixedBuffer_Avail :: "FixedBuffer \<Rightarrow> int" where
  "FixedBuffer_Avail b = int (length (fb_data b)) - int (fb_cur b)"

text \<open>The comparison casts \<open>Avail()\<close> to \<open>size_t\<close>; a negative value would become huge.\<close>

definition FixedBuffer_Append :: "string \<Rightarrow> FixedBuffer \<Rightarrow> FixedBuffer result" where
  "FixedBuffer_Append buf b =
     (if length buf < unat (word_of_int (FixedBuffer_Avail b) :: size_t)
      then bindR (storeR (fb_cur b) buf (fb_data b)) (\<lambda>m.
             Inr (b\<lparr>fb_data := m, fb_cur := fb_cur b + length buf\<rparr>))
      else Inr b)"

definition FixedBuffer_Add :: "nat \<Rightarrow> FixedBuffer \<Rightarrow> FixedBuffer" where
  "FixedBuffer_Add len b = b\<lparr>fb_cur := fb_cur b + len\<rparr>"

definition FixedBuffer_Reset :: "FixedBuffer \<Rightarrow> FixedBuffer" where
  "FixedBuffer_Reset b = b\<lparr>fb_cur := 0\<rparr>"

definition FixedBuffer_BZero :: "FixedBuffer \<Rightarrow> FixedBuffer" where
  "FixedBuffer_BZero b = b\<lparr>fb_data := replicate (length (fb_data b)) NUL\<rparr>"

definition FixedBuffer_ToString :: "FixedBuffer \<Rightarrow> string" where
  "FixedBuffer_ToString b = take (fb_cur b) (fb_data b)"

definition FixedBuffer_inv :: "FixedBuffer \<Rightarrow> bool" where
  "FixedBuffer_inv b \<longleftrightarrow> fb_cur b \<le> length (fb_data b) \<and> length (fb_data b) < 2 ^ 31"

subsection \<open>Number formatting\<close>

definition kSmallBuffer :: nat where
  "kSmallBuffer = 4000"

definition kLargeBuffer :: nat where
  "kLargeBuffer = 4000 * 1000"

definition kMaxNumericSize :: int where
  "kMaxNumericSize = 48"

type_synonym LogStream = FixedBuffer

definition LogStream_GetBuffer :: "LogStream \<Rightarrow> FixedBuffer" where
  [simp]: "LogStream_GetBuffer s = s"

definition LogStream_ResetBuffer :: "LogStream \<Rightarrow> LogStream" where
  "LogStream_ResetBuffer s = FixedBuffer_Reset s"

text \<open>\<open>zero\<close> points at the middle of \<open>digits\<close>, so that it can be indexed by the remainder of a
  negative number.\<close>

definition digits_table :: string where
  "digits_table = ''9876543210123456789''"

definition zero_at :: "int \<Rightarrow> char" where
  "zero_at lsd = digits_table ! nat (9 + lsd)"

definition digits_hex :: string where
  "digits_hex = ''0123456789ABCDEF''"

text \<open>The two loops, least significant digit first.\<close>

function decimal_loop :: "int \<Rightarrow> string" where
  "decimal_loop i =
     (let lsd = i smod 10; i' = i sdiv 10
      in zero_at lsd # (if i' \<noteq> 0 then decimal_loop i' else []))"
  by pat_completeness auto
termination
  by (relation "measure (\<lambda>i. nat \<bar>i\<bar>)") (auto simp: signed_divide_int_def abs_mult sgn_if split: if_splits)

declare decimal_loop.simps [simp del]

fun hex_loop :: "nat \<Rightarrow> string" where
  "hex_loop i =
     (let lsd = i mod 16; i' = i div 16
      in digits_hex ! lsd # (if i' \<noteq> 0 then hex_loop i' else []))"

declare hex_loop.simps [simp del]

definition FormatInteger :: "int \<Rightarrow> LogStream \<Rightarrow> LogStream result" where
  "FormatInteger v b =
     (if FixedBuffer_Avail b < kMaxNumericSize then Inr b
      else let cs = decimal_loop v @ (if v < 0 then ''-'' else [])
           in bindR (storeR (fb_cur b) (rev cs @ [NUL]) (fb_data b)) (\<lambda>m.
                Inr (FixedBuffer_Add (length cs) (b\<lparr>fb_data := m\<rparr>))))"

definition FormatPointer :: "64 word \<Rightarrow> LogStream \<Rightarrow> LogStream result" where
  "FormatPointer v b =
     (if FixedBuffer_Avail b < kMaxNumericSize then Inr b
      else let cs = hex_loop (unat v)
           in bindR (storeR (fb_cur b) (''0x'' @ rev cs @ [NUL]) (fb_data b)) (\<lambda>m.
                Inr (FixedBuffer_Add (length cs + 2) (b\<lparr>fb_data := m\<rparr>))))"

text \<open>\<open>fmt v\<close> is the text of \<open>%.12g\<close>; \<open>snprintf\<close> stores at most 47 characters and a NUL and
  returns the full length.\<close>

definition FormatDouble :: "('d \<Rightarrow> string) \<Rightarrow> 'd \<Rightarrow> LogStream \<Rightarrow> LogStream result" where
  "FormatDouble fmt v b =
     (if FixedBuffer_Avail b < kMaxNumericSize then Inr b
      else bindR (storeR (fb_cur b) (snprintf_text (nat kMaxNumericSize) (fmt v) @ [NUL]) (fb_data b)) (\<lambda>m.
             Inr (FixedBuffer_Add (length (fmt v)) (b\<lparr>fb_data := m\<rparr>))))"

subsection \<open>The overloads of \<open>operator<<\<close>\<close>

datatype 'd log_arg =
    ABool bool
  | AShort "16 word" | AUShort "16 word"
  | AInt "32 word" | AUInt "32 word"
  | ALong "64 word" | AULong "64 word"
  | ALongLong "64 word" | AULongLong "64 word"
  | AFloat 'd | ADouble 'd
  | AChar char
  | ACString "string option" | AUCString "string option"
  | APointer "64 word"
  | AString string
  | ABuffer FixedBuffer

definition LogStream_put_cstring :: "string option \<Rightarrow> LogStream \<Rightarrow> LogStream result" where
  "LogStream_put_cstring v b =
     (case v of Some s \<Rightarrow> FixedBuffer_Append s b | None \<Rightarrow> FixedBuffer_Append ''(null)'' b)"

fun LogStream_put :: "('d \<Rightarrow> string) \<Rightarrow> 'd log_arg \<Rightarrow> LogStream \<Rightarrow> LogStream result" where
  "LogStream_put fmt (ABool v) b = FixedBuffer_Append (if v then ''1'' else ''0'') b"
| "LogStream_put fmt (AShort v) b = FormatInteger (sint (scast v :: 32 word)) b"
| "LogStream_put fmt (AUShort v) b = FormatInteger (uint (ucast v :: 32 word)) b"
| "LogStream_put fmt (AInt v) b = FormatInteger (sint v) b"
| "LogStream_put fmt (AUInt v) b = FormatInteger (uint v) b"
| "LogStream_put fmt (ALong v) b = FormatInteger (sint v) b"
| "LogStream_put fmt (AULong v) b = FormatInteger (uint v) b"
| "LogStream_put fmt (ALongLong v) b = FormatInteger (sint v) b"
| "LogStream_put fmt (AULongLong v) b = FormatInteger (uint v) b"
| "LogStream_put fmt (AFloat v) b = FormatDouble fmt v b"
| "LogStream_put fmt (ADouble v) b = FormatDouble fmt v b"
| "LogStream_put fmt (AChar v) b = FixedBuffer_Append [v] b"
| "LogStream_put fmt (ACString v) b = LogStream_put_cstring v b"
| "LogStream_put fmt (AUCString v) b = LogStream_put_cstring v b"
| "LogStream_put fmt (APointer v) b = FormatPointer v b"
| "LogStream_put fmt (AString v) b = FixedBuffer_Append v b"
| "LogStream_put fmt (ABuffer v) b = FixedBuffer_Append (FixedBuffer_ToString v) b"

subsection \<open>The digit loops print numerals\<close>

lemma zero_at_digit: "\<bar>k\<bar> < 10 \<Longrightarrow> zero_at k = dec_digit (nat \<bar>k\<bar>)"
proof -
  assume "\<bar>k\<bar> < 10"
  then have "k = -9 \<or> k = -8 \<or> k = -7 \<or> k = -6 \<or> k = -5 \<or> k = -4 \<or> k = -3 \<or> k = -2 \<or> k = -1
      \<or> k = 0 \<or> k = 1 \<or> k = 2 \<or> k = 3 \<or> k = 4 \<or> k = 5 \<or> k = 6 \<or> k = 7 \<or> k = 8 \<or> k = 9"
    by arith
  then show ?thesis
    by (elim disjE) (simp_all add: zero_at_def digits_table_def dec_digit_def)
qed

lemma abs_sdiv_10: "\<bar>i sdiv 10\<bar> = \<bar>i\<bar> div (10 :: int)" and abs_smod_10: "\<bar>i smod 10\<bar> = \<bar>i\<bar> mod (10 :: int)"
  by (cases "i = 0"; simp add: signed_divide_int_def smod_int_alt_def abs_mult)+

lemma decimal_loop_rev: "decimal_loop i = rev (dec_nat (nat \<bar>i\<bar>))"
proof (induction i rule: decimal_loop.induct)
  case (1 i)
  have lsd: "zero_at (i smod 10) = dec_digit (nat \<bar>i\<bar> mod 10)"
    by (simp add: zero_at_digit abs_smod_10 nat_mod_distrib)
  have zero: "i sdiv 10 = 0 \<longleftrightarrow> nat \<bar>i\<bar> < 10"
  proof -
    have "i sdiv 10 = 0 \<longleftrightarrow> \<bar>i\<bar> div 10 = 0"
      by (metis abs_sdiv_10 abs_eq_0)
    also have "\<dots> \<longleftrightarrow> nat \<bar>i\<bar> < 10"
      by arith
    finally show ?thesis .
  qed
  have rest: "nat \<bar>i sdiv 10\<bar> = nat \<bar>i\<bar> div 10"
    by (simp add: abs_sdiv_10 nat_div_distrib)
  show ?case
    using "1.IH" [OF refl refl] decimal.render_nat_rec [of "nat \<bar>i\<bar>"]
    by (subst decimal_loop.simps) (auto simp: Let_def lsd zero rest dec_nat_def)
qed

lemma FormatInteger_chars: "rev (decimal_loop v @ (if v < 0 then ''-'' else [])) = dec_int v"
  by (simp add: decimal_loop_rev dec_int_def)

definition hex_digit :: "nat \<Rightarrow> char" where
  "hex_digit d = digits_hex ! d"

definition hex_value :: "char \<Rightarrow> nat option" where
  "hex_value c =
     (let k = of_char c :: nat
      in if 48 \<le> k \<and> k \<le> 57 then Some (k - 48) else if 65 \<le> k \<and> k \<le> 70 then Some (k - 55) else None)"

interpretation hexadecimal: digit_system 16 hex_digit hex_value
proof unfold_locales
  fix d :: nat
  assume "d < 16"
  then have "d \<in> set [0..<16]" by simp
  then show "hex_value (hex_digit d) = Some d"
    by (auto simp: upt_rec hex_digit_def digits_hex_def hex_value_def)
qed simp

definition hex_nat :: "nat \<Rightarrow> string" where
  "hex_nat n = render_nat 16 hex_digit n"

lemma hex_loop_rev: "hex_loop n = rev (hex_nat n)"
proof (induction n rule: hex_loop.induct)
  case (1 n)
  then show ?case
    using hexadecimal.render_nat_rec [of n]
    by (subst hex_loop.simps) (auto simp: Let_def hex_nat_def hex_digit_def)
qed

lemma length_dec_int_64: "\<bar>v\<bar> < 2 ^ 64 \<Longrightarrow> length (dec_int v) \<le> 21"
  using length_dec_int [of v 19] by simp

lemma length_hex_nat_64: "n < 2 ^ 64 \<Longrightarrow> length (hex_nat n) \<le> 16"
  using length_render_nat [of 16 n 15 hex_digit] by (simp add: hex_nat_def)

subsection \<open>Stores into the buffer\<close>

abbreviation fb_free :: "FixedBuffer \<Rightarrow> nat" where
  "fb_free b \<equiv> length (fb_data b) - fb_cur b"

lemma Avail_free: "FixedBuffer_inv b \<Longrightarrow> FixedBuffer_Avail b = int (fb_free b)"
  by (simp add: FixedBuffer_Avail_def FixedBuffer_inv_def of_nat_diff)

lemma unat_Avail:
  assumes "FixedBuffer_inv b"
  shows "unat (word_of_int (FixedBuffer_Avail b) :: size_t) = fb_free b"
proof -
  have "fb_free b < 2 ^ 64"
    using assms by (auto simp: FixedBuffer_inv_def)
  then show ?thesis
    using assms by (simp add: Avail_free unat_of_nat_size_t del: of_nat_diff)
qed

lemma Append_spec:
  assumes inv: "FixedBuffer_inv b"
  shows "\<exists>b'. FixedBuffer_Append s b = Inr b' \<and> FixedBuffer_inv b'
     \<and> (if Suc (length s) \<le> fb_free b
        then FixedBuffer_ToString b' = FixedBuffer_ToString b @ s \<and> fb_free b' + length s = fb_free b
        else b' = b)"
proof (cases "length s < fb_free b")
  case True
  then have "fb_cur b + length s \<le> length (fb_data b)"
    using inv by (simp add: FixedBuffer_inv_def)
  with True inv show ?thesis
    by (auto simp: FixedBuffer_Append_def unat_Avail FixedBuffer_ToString_def FixedBuffer_inv_def take_poke)
next
  case False
  with inv show ?thesis
    by (auto simp: FixedBuffer_Append_def unat_Avail)
qed

lemma numeric_store:
  assumes inv: "FixedBuffer_inv b" and room: "48 \<le> fb_free b" and short: "length s \<le> 47"
  shows "\<exists>m. storeR (fb_cur b) (s @ [NUL]) (fb_data b) = Inr m
     \<and> FixedBuffer_inv (FixedBuffer_Add (length s) (b\<lparr>fb_data := m\<rparr>))
     \<and> FixedBuffer_ToString (FixedBuffer_Add (length s) (b\<lparr>fb_data := m\<rparr>)) = FixedBuffer_ToString b @ s
     \<and> fb_free (FixedBuffer_Add (length s) (b\<lparr>fb_data := m\<rparr>)) + length s = fb_free b"
  using assms take_poke_prefix [of "fb_cur b" "fb_data b" s "[NUL]"]
  by (auto simp: FixedBuffer_Add_def FixedBuffer_ToString_def FixedBuffer_inv_def)

lemma FormatInteger_alt:
  "FormatInteger v b =
     (if FixedBuffer_Avail b < kMaxNumericSize then Inr b
      else bindR (storeR (fb_cur b) (dec_int v @ [NUL]) (fb_data b)) (\<lambda>m.
             Inr (FixedBuffer_Add (length (dec_int v)) (b\<lparr>fb_data := m\<rparr>))))"
proof -
  have "length (decimal_loop v @ (if v < 0 then ''-'' else [])) = length (dec_int v)"
    by (subst FormatInteger_chars [symmetric]) (rule length_rev [symmetric])
  then show ?thesis
    by (simp only: FormatInteger_def FormatInteger_chars Let_def)
qed

lemma FormatInteger_spec:
  assumes inv: "FixedBuffer_inv b" and v: "\<bar>v\<bar> < 2 ^ 64"
  shows "\<exists>b'. FormatInteger v b = Inr b' \<and> FixedBuffer_inv b'
     \<and> (if 48 \<le> fb_free b
        then FixedBuffer_ToString b' = FixedBuffer_ToString b @ dec_int v
          \<and> fb_free b' + length (dec_int v) = fb_free b
        else b' = b)"
proof (cases "48 \<le> fb_free b")
  case True
  have "\<not> FixedBuffer_Avail b < kMaxNumericSize"
    using inv True by (simp add: Avail_free kMaxNumericSize_def)
  then show ?thesis
    using True numeric_store [OF inv True, of "dec_int v"] length_dec_int_64 [OF v]
    by (auto simp: FormatInteger_alt)
next
  case False
  then show ?thesis
    using inv by (simp add: FormatInteger_def Avail_free kMaxNumericSize_def)
qed

lemma FormatPointer_spec:
  assumes inv: "FixedBuffer_inv b"
  shows "\<exists>b'. FormatPointer v b = Inr b' \<and> FixedBuffer_inv b'
     \<and> (if 48 \<le> fb_free b
        then FixedBuffer_ToString b' = FixedBuffer_ToString b @ ''0x'' @ hex_nat (unat v)
          \<and> fb_free b' + length (''0x'' @ hex_nat (unat v)) = fb_free b
        else b' = b)"
proof (cases "48 \<le> fb_free b")
  case True
  have "length (hex_nat (unat v)) \<le> 16"
    using unat_size_t_less [of v] by (rule length_hex_nat_64)
  moreover have "\<not> FixedBuffer_Avail b < kMaxNumericSize"
    using inv True by (simp add: Avail_free kMaxNumericSize_def)
  ultimately show ?thesis
    using True numeric_store [OF inv True, of "''0x'' @ hex_nat (unat v)"]
    by (auto simp: FormatPointer_def hex_loop_rev Let_def)
next
  case False
  then show ?thesis
    using inv by (simp add: FormatPointer_def Avail_free kMaxNumericSize_def)
qed

lemma FormatDouble_spec:
  assumes inv: "FixedBuffer_inv b" and short: "length (fmt v) \<le> 47"
  shows "\<exists>b'. FormatDouble fmt v b = Inr b' \<and> FixedBuffer_inv b'
     \<and> (if 48 \<le> fb_free b
        then FixedBuffer_ToString b' = FixedBuffer_ToString b @ fmt v
          \<and> fb_free b' + length (fmt v) = fb_free b
        else b' = b)"
proof (cases "48 \<le> fb_free b")
  case True
  have "\<not> FixedBuffer_Avail b < kMaxNumericSize"
    using inv True by (simp add: Avail_free kMaxNumericSize_def)
  then show ?thesis
    using True numeric_store [OF inv True short] short
    by (auto simp: FormatDouble_def kMaxNumericSize_def)
next
  case False
  then show ?thesis
    using inv by (simp add: FormatDouble_def Avail_free kMaxNumericSize_def)
qed

subsection \<open>All or nothing\<close>

text \<open>
  A log sink takes an item whole if it has room for it and otherwise stays as it is. The
  locale states the contract per item and proves what a chain of insertions does.
\<close>

fun accepted :: "('a \<Rightarrow> nat) \<Rightarrow> ('a \<Rightarrow> string) \<Rightarrow> nat \<Rightarrow> 'a list \<Rightarrow> string" where
  "accepted need render n [] = []"
| "accepted need render n (a # as) =
     (if need a \<le> n then render a @ accepted need render (n - length (render a)) as
      else accepted need render n as)"

fun put_all :: "('a \<Rightarrow> 's \<Rightarrow> 's result) \<Rightarrow> 'a list \<Rightarrow> 's \<Rightarrow> 's result" where
  "put_all put [] s = Inr s"
| "put_all put (a # as) s = bindR (put a s) (put_all put as)"

locale log_sink =
  fixes inv :: "'s \<Rightarrow> bool" and view :: "'s \<Rightarrow> string" and free :: "'s \<Rightarrow> nat"
    and ok :: "'a \<Rightarrow> bool" and need :: "'a \<Rightarrow> nat" and render :: "'a \<Rightarrow> string"
    and put :: "'a \<Rightarrow> 's \<Rightarrow> 's result" and slack :: nat
  assumes put_exact: "inv s \<Longrightarrow> ok a \<Longrightarrow> \<exists>s'. put a s = Inr s' \<and> inv s'
      \<and> (if need a \<le> free s then view s' = view s @ render a \<and> free s' + length (render a) = free s
         else s' = s)"
    and need_slack: "ok a \<Longrightarrow> need a \<le> length (render a) + slack"
begin

lemma put_all_exact:
  "inv s \<Longrightarrow> \<forall>a \<in> set as. ok a \<Longrightarrow>
     \<exists>s'. put_all put as s = Inr s' \<and> inv s' \<and> view s' = view s @ accepted need render (free s) as"
proof (induction as arbitrary: s)
  case Nil
  then show ?case by simp
next
  case (Cons a as)
  then obtain s' where s': "put a s = Inr s'" "inv s'"
      "if need a \<le> free s then view s' = view s @ render a \<and> free s' + length (render a) = free s
       else s' = s"
    using put_exact [of s a] by auto
  then have "need a \<le> free s \<Longrightarrow> free s' = free s - length (render a)"
    by auto
  with s' Cons.IH [of s'] Cons.prems show ?case
    by (auto split: if_splits)
qed

lemma accepted_all:
  "\<forall>a \<in> set as. ok a \<Longrightarrow> (\<Sum>a \<leftarrow> as. length (render a)) + slack \<le> n \<Longrightarrow>
     accepted need render n as = concat (map render as)"
proof (induction as arbitrary: n)
  case (Cons a as)
  then have "need a \<le> n"
    using need_slack [of a] by simp
  with Cons show ?case by simp
qed simp

lemma accepted_length:
  "\<forall>a \<in> set as. ok a \<Longrightarrow> inv s \<Longrightarrow> length (accepted need render (free s) as) \<le> free s"
proof (induction as arbitrary: s)
  case (Cons a as)
  then obtain s' where "inv s'" and s': "if need a \<le> free s
      then view s' = view s @ render a \<and> free s' + length (render a) = free s else s' = s"
    using put_exact [of s a] by auto
  then have "need a \<le> free s \<Longrightarrow> free s' = free s - length (render a)"
    by auto
  with s' Cons.IH [of s'] Cons.IH [of s] Cons.prems \<open>inv s'\<close> show ?case
    by auto
qed simp

lemma put_all_length:
  assumes "inv s" and "\<forall>a \<in> set as. ok a"
  shows "\<exists>s'. put_all put as s = Inr s' \<and> inv s' \<and> length (view s') \<le> length (view s) + free s"
  using put_all_exact [OF assms] accepted_length [OF assms(2,1)] by auto

lemma put_all_fits:
  assumes "inv s" and "\<forall>a \<in> set as. ok a" and "(\<Sum>a \<leftarrow> as. length (render a)) + slack \<le> free s"
  shows "\<exists>s'. put_all put as s = Inr s' \<and> inv s' \<and> view s' = view s @ concat (map render as)"
  using put_all_exact [OF assms(1,2)] accepted_all [OF assms(2,3)] by simp

end

fun render_arg :: "('d \<Rightarrow> string) \<Rightarrow> 'd log_arg \<Rightarrow> string" where
  "render_arg fmt (ABool v) = (if v then ''1'' else ''0'')"
| "render_arg fmt (AShort v) = dec_int (sint v)"
| "render_arg fmt (AUShort v) = dec_int (uint v)"
| "render_arg fmt (AInt v) = dec_int (sint v)"
| "render_arg fmt (AUInt v) = dec_int (uint v)"
| "render_arg fmt (ALong v) = dec_int (sint v)"
| "render_arg fmt (AULong v) = dec_int (uint v)"
| "render_arg fmt (ALongLong v) = dec_int (sint v)"
| "render_arg fmt (AULongLong v) = dec_int (uint v)"
| "render_arg fmt (AFloat v) = fmt v"
| "render_arg fmt (ADouble v) = fmt v"
| "render_arg fmt (AChar v) = [v]"
| "render_arg fmt (ACString v) = case_option ''(null)'' id v"
| "render_arg fmt (AUCString v) = case_option ''(null)'' id v"
| "render_arg fmt (APointer v) = ''0x'' @ hex_nat (unat v)"
| "render_arg fmt (AString v) = v"
| "render_arg fmt (ABuffer v) = FixedBuffer_ToString v"

fun need_arg :: "'d log_arg \<Rightarrow> nat" where
  "need_arg (ABool v) = 2"
| "need_arg (AChar v) = 2"
| "need_arg (ACString v) = Suc (length (case_option ''(null)'' id v))"
| "need_arg (AUCString v) = Suc (length (case_option ''(null)'' id v))"
| "need_arg (AString v) = Suc (length v)"
| "need_arg (ABuffer v) = Suc (length (FixedBuffer_ToString v))"
| "need_arg _ = 48"

fun ok_arg :: "('d \<Rightarrow> string) \<Rightarrow> 'd log_arg \<Rightarrow> bool" where
  "ok_arg fmt (AFloat v) \<longleftrightarrow> length (fmt v) \<le> 47"
| "ok_arg fmt (ADouble v) \<longleftrightarrow> length (fmt v) \<le> 47"
| "ok_arg fmt (ABuffer v) \<longleftrightarrow> FixedBuffer_inv v"
| "ok_arg fmt _ \<longleftrightarrow> True"

lemma sint_scast_up: "sint (scast (v :: 16 word) :: 32 word) = sint v"
  by (rule sint_up_scast) (simp add: is_up)

lemma uint_ucast_up: "uint (ucast (v :: 16 word) :: 32 word) = uint v"
  by (rule uint_up_ucast) (simp add: is_up)

lemma abs_sint_less:
  "\<bar>sint (v :: 16 word)\<bar> < 2 ^ 64" "\<bar>sint (w :: 32 word)\<bar> < 2 ^ 64" "\<bar>sint (x :: 64 word)\<bar> < 2 ^ 64"
  using sint_range_size [of v] sint_range_size [of w] sint_range_size [of x]
  by (auto simp: word_size abs_less_iff)

lemma abs_uint_less:
  "\<bar>uint (v :: 16 word)\<bar> < 2 ^ 64" "\<bar>uint (w :: 32 word)\<bar> < 2 ^ 64" "\<bar>uint (x :: 64 word)\<bar> < 2 ^ 64"
  using uint_bounded [of v] uint_bounded [of w] uint_bounded [of x] by auto

lemmas machine_int_ranges = sint_scast_up uint_ucast_up abs_sint_less abs_uint_less

lemma put_exact_arg:
  assumes inv: "FixedBuffer_inv b" and ok: "ok_arg fmt a"
  shows "\<exists>b'. LogStream_put fmt a b = Inr b' \<and> FixedBuffer_inv b'
     \<and> (if need_arg a \<le> fb_free b
        then FixedBuffer_ToString b' = FixedBuffer_ToString b @ render_arg fmt a
          \<and> fb_free b' + length (render_arg fmt a) = fb_free b
        else b' = b)"
proof (cases a)
  case (ACString v)
  with Append_spec [OF inv, of "case_option ''(null)'' id v"] show ?thesis
    by (cases v) (auto simp: LogStream_put_cstring_def)
next
  case (AUCString v)
  with Append_spec [OF inv, of "case_option ''(null)'' id v"] show ?thesis
    by (cases v) (auto simp: LogStream_put_cstring_def)
next
  case (ABool v)
  with Append_spec [OF inv, of "if v then ''1'' else ''0''"] show ?thesis
    by (cases v) (auto simp: numeral_2_eq_2)
next
  case (AChar v)
  with Append_spec [OF inv, of "[v]"] show ?thesis
    by (auto simp: numeral_2_eq_2)
qed (use ok in \<open>simp_all only: LogStream_put.simps need_arg.simps render_arg.simps ok_arg.simps
      machine_int_ranges FormatInteger_spec [OF inv] FormatPointer_spec [OF inv]
      FormatDouble_spec [OF inv] Append_spec [OF inv]\<close>)

lemma need_arg_slack: "need_arg a \<le> length (render_arg fmt a) + 48"
  by (cases a) (auto split: option.split)

interpretation stream_sink: log_sink FixedBuffer_inv FixedBuffer_ToString fb_free "ok_arg fmt"
    need_arg "render_arg fmt" "LogStream_put fmt" 48
  for fmt :: "'d \<Rightarrow> string"
  by unfold_locales (rule put_exact_arg, assumption+, rule need_arg_slack)

lemma FixedBuffer_new_inv: "n < 2 ^ 31 \<Longrightarrow> FixedBuffer_inv (FixedBuffer_new n)"
  by (simp add: FixedBuffer_inv_def FixedBuffer_new_def)

lemma FixedBuffer_new_view: "FixedBuffer_ToString (FixedBuffer_new n) = []"
    "fb_free (FixedBuffer_new n) = n"
  by (simp_all add: FixedBuffer_ToString_def FixedBuffer_new_def)

subsection \<open>Properties\<close>

text \<open>The number an integer overload of \<open>operator<<\<close> is given.\<close>

fun int_value :: "'d log_arg \<Rightarrow> int option" where
  "int_value (AShort v) = Some (sint v)"
| "int_value (AUShort v) = Some (uint v)"
| "int_value (AInt v) = Some (sint v)"
| "int_value (AUInt v) = Some (uint v)"
| "int_value (ALong v) = Some (sint v)"
| "int_value (AULong v) = Some (uint v)"
| "int_value (ALongLong v) = Some (sint v)"
| "int_value (AULongLong v) = Some (uint v)"
| "int_value _ = None"

lemma render_int_value: "int_value a = Some v \<Longrightarrow> render_arg fmt a = dec_int v \<and> need_arg a = 48 \<and> ok_arg fmt a"
  by (cases a) auto

text \<open>C25: Numbers in a log line read back. While 48 bytes are free, \<open>operator<<\<close> of every signed and
  unsigned integer type appends a numeral that parses to the number of that type it was given
  (the least negative one included, which cannot be negated), and that of pointers appends \<open>0x\<close> and
  a hexadecimal numeral of the address; both stay inside the array, NUL included, and keep what was
  there.\<close>

theorem numbers_read_back:
  assumes inv: "FixedBuffer_inv b" and room: "48 \<le> FixedBuffer_Avail b"
  shows "(int_value a = Some v \<longrightarrow> (\<exists>b1 s. LogStream_put fmt a b = Inr b1 \<and> FixedBuffer_inv b1
           \<and> FixedBuffer_ToString b1 = FixedBuffer_ToString b @ s \<and> parse_int s = Some v))
       \<and> (\<exists>b2 s. LogStream_put fmt (APointer p) b = Inr b2 \<and> FixedBuffer_inv b2
           \<and> FixedBuffer_ToString b2 = FixedBuffer_ToString b @ ''0x'' @ s
           \<and> parse_nat 16 hex_value s = Some (unat p))"
proof
  have free: "48 \<le> fb_free b"
    using room inv by (simp add: Avail_free)
  show "int_value a = Some v \<longrightarrow> (\<exists>b1 s. LogStream_put fmt a b = Inr b1 \<and> FixedBuffer_inv b1
           \<and> FixedBuffer_ToString b1 = FixedBuffer_ToString b @ s \<and> parse_int s = Some v)"
    using free put_exact_arg [OF inv, of fmt a] render_int_value [of a v fmt] parse_dec_int by auto
  show "\<exists>b2 s. LogStream_put fmt (APointer p) b = Inr b2 \<and> FixedBuffer_inv b2
           \<and> FixedBuffer_ToString b2 = FixedBuffer_ToString b @ ''0x'' @ s
           \<and> parse_nat 16 hex_value s = Some (unat p)"
    using free put_exact_arg [OF inv, of fmt "APointer p"] hexadecimal.parse_render by (auto simp: hex_nat_def)
qed

theorem numbers_read_back_witness:
  "\<exists>b1 s. LogStream_put (\<lambda>d :: nat. []) (AShort (- (2 ^ 15))) (FixedBuffer_new 64) = Inr b1
     \<and> FixedBuffer_ToString b1 = s \<and> parse_int s = Some (- (2 ^ 15))"
  using numbers_read_back [of "FixedBuffer_new 64" "AShort (- (2 ^ 15))" "- (2 ^ 15)" "\<lambda>d :: nat. []" 0]
  by (auto simp: FixedBuffer_new_def FixedBuffer_inv_def FixedBuffer_Avail_def FixedBuffer_ToString_def)

text \<open>C35: A log stream takes each inserted item whole or not at all, in order, and never faults.
  Starting from the empty stream the text is the concatenation of the items that still fit when
  their turn comes; in particular every item is there when their total length is at most 3952.
  The only condition is that \<open>%.12g\<close> yields at most 47 characters.\<close>

theorem LogStream_all_or_nothing:
  assumes ok: "\<forall>a \<in> set as. ok_arg fmt a"
  shows "\<exists>b. put_all (LogStream_put fmt) as (FixedBuffer_new kSmallBuffer) = Inr b \<and> FixedBuffer_inv b
     \<and> FixedBuffer_ToString b = accepted need_arg (render_arg fmt) kSmallBuffer as
     \<and> ((\<Sum>a \<leftarrow> as. length (render_arg fmt a)) \<le> 3952 \<longrightarrow>
          FixedBuffer_ToString b = concat (map (render_arg fmt) as))"
proof -
  have inv: "FixedBuffer_inv (FixedBuffer_new kSmallBuffer)"
    by (rule FixedBuffer_new_inv) (simp add: kSmallBuffer_def)
  show ?thesis
    using stream_sink.put_all_exact [OF inv ok] stream_sink.accepted_all [OF ok, of kSmallBuffer]
    by (auto simp: FixedBuffer_new_view kSmallBuffer_def)
qed

theorem LogStream_all_or_nothing_witness:
  "\<exists>b. put_all (LogStream_put (\<lambda>v :: nat. ''1.5'')) [AString ''fd = '', AInt 7, AChar (CHR '' ''), ADouble 0]
         (FixedBuffer_new kSmallBuffer) = Inr b
     \<and> FixedBuffer_ToString b = ''fd = 7 1.5''"
proof -
  have seven: "dec_int 7 = ''7''"
    by (simp add: dec_int_def dec_nat_def decimal.render_nat_rec dec_digit_def)
  show ?thesis
    using LogStream_all_or_nothing [where fmt = "\<lambda>v :: nat. ''1.5''" and
        as = "[AString ''fd = '', AInt 7, AChar (CHR '' ''), ADouble 0]"]
    by (auto simp: seven)
qed

end
