(* ===== verification/Logger_Logger.thy ===== *)
theory Logger_Logger
  imports Logger_Stream Base_Timestamp Base_CurrentThread
begin

section \<open>logger/logger: one log statement\<close>

text \<open>
  \<open>turbo::Logger\<close> (\<open>src/logger/logger.h\<close>, \<open>src/logger/logger.cpp\<close>): a statement constructs a
  temporary \<open>Logger\<close>, which writes the header of the line into its stream, takes the inserted
  values, and in its destructor ends the line, hands it to the output function and, for the level
  \<open>FATAL\<close>, flushes and calls \<open>abort\<close>.
\<close>

datatype LogLevel = DEBUG | INFO | WARN | ERROR | FATAL | NUM_LOG_LEVELS

fun level_value :: "LogLevel \<Rightarrow> nat" where
  "level_value DEBUG = 0"
| "level_value INFO = 1"
| "level_value WARN = 2"
| "level_value ERROR = 3"
| "level_value FATAL = 4"
| "level_value NUM_LOG_LEVELS = 5"

lemma level_value_inj: "level_value a = level_value b \<Longrightarrow> a = b"
  by (cases a; cases b) simp_all

instantiation LogLevel :: linorder
begin

definition less_eq_LogLevel :: "LogLevel \<Rightarrow> LogLevel \<Rightarrow> bool" where
  "less_eq_LogLevel a b \<longleftrightarrow> level_value a \<le> level_value b"

definition less_LogLevel :: "LogLevel \<Rightarrow> LogLevel \<Rightarrow> bool" where
  "less_LogLevel a b \<longleftrightarrow> level_value a < level_value b"

instance
  by standard (auto simp: less_eq_LogLevel_def less_LogLevel_def intro: level_value_inj)

end

definition kLogLevelName :: "string list" where
  "kLogLevelName = [''DEBUG '', ''INFO  '', ''WARN  '', ''ERROR '', ''FATAL '']"

subsection \<open>Source files\<close>

record SourceFile =
  sf_data :: string
  sf_size :: int

text \<open>\<open>strrchr\<close>: the offset of the last occurrence of a character in a C string.\<close>

fun strrchr :: "string \<Rightarrow> char \<Rightarrow> nat option" where
  "strrchr [] c = None"
| "strrchr (x # xs) c =
     (case strrchr xs c of Some i \<Rightarrow> Some (Suc i) | None \<Rightarrow> if x = c then Some 0 else None)"

definition SourceFile_array :: "string \<Rightarrow> SourceFile" where
  "SourceFile_array arr =
     (let size0 = int (length arr + 1) - 1
      in case strrchr arr (CHR ''/'') of
           None \<Rightarrow> \<lparr>sf_data = arr, sf_size = size0\<rparr>
         | Some slash \<Rightarrow> \<lparr>sf_data = drop (slash + 1) arr, sf_size = size0 - int (slash + 1)\<rparr>)"

definition SourceFile_pointer :: "string \<Rightarrow> SourceFile" where
  "SourceFile_pointer file_name =
     (let d = (case strrchr file_name (CHR ''/'') of None \<Rightarrow> file_name
               | Some slash \<Rightarrow> drop (slash + 1) file_name)
      in \<lparr>sf_data = d, sf_size = int (length d)\<rparr>)"

subsection \<open>Items of a log line\<close>

text \<open>
  The file adds two overloads of \<open>operator<<\<close>, for a C string of known length (class \<open>T\<close>) and
  for a source file. Both copy \<open>len\<close> bytes from the string if they fit, so a length beyond the
  terminator would read outside the string.
\<close>

definition LogStream_Append :: "string \<Rightarrow> nat \<Rightarrow> LogStream \<Rightarrow> LogStream result" where
  "LogStream_Append str len b =
     (if len < unat (word_of_int (FixedBuffer_Avail b) :: size_t)
      then bindR (loadR 0 len (str @ [NUL])) (\<lambda>xs. FixedBuffer_Append xs b)
      else Inr b)"

datatype 'd log_item = Arg "'d log_arg" | T string nat | Source SourceFile

fun item_put :: "('d \<Rightarrow> string) \<Rightarrow> 'd log_item \<Rightarrow> LogStream \<Rightarrow> LogStream result" where
  "item_put fmt (Arg a) b = LogStream_put fmt a b"
| "item_put fmt (T str len) b = LogStream_Append str len b"
| "item_put fmt (Source v) b = LogStream_Append (sf_data v) (nat (sf_size v)) b"

text \<open>A string literal, whose length the constructor of \<open>T\<close> takes from the array type.\<close>

abbreviation T_literal :: "string \<Rightarrow> 'd log_item" where
  "T_literal s \<equiv> T s (length s)"

subsection \<open>Thread-local state and environment\<close>

record log_thread =
  current_thread :: CurrentThread
  t_last_seconds :: int
  t_time_str :: string
  t_erno_buf :: string

definition log_thread_init :: log_thread where
  "log_thread_init = \<lparr>current_thread = CurrentThread_init, t_last_seconds = 0, t_time_str = [],
     t_erno_buf = []\<rparr>"

record log_env =
  env_localtime :: "int \<Rightarrow> tm option"
  env_strerror_r :: "int \<Rightarrow> string option"
  env_gettid :: int

definition refresh_time_cache :: "log_env \<Rightarrow> Timestamp \<Rightarrow> log_thread \<Rightarrow> log_thread result" where
  "refresh_time_cache env ts th =
     (let seconds = TimeSinceEpochSeconds ts
      in if t_last_seconds th \<noteq> seconds
         then bindR (ToFormatString (env_localtime env) False ts) (\<lambda>s.
                Inr (th\<lparr>t_last_seconds := seconds, t_time_str := s\<rparr>))
         else Inr th)"

definition microseconds_text :: "Timestamp \<Rightarrow> string" where
  "microseconds_text ts =
     snprintf_text 8 (''.'' @ dec_padded 6 (TimeSinceEpochMicroSeconds ts smod kMicroSecondsPerSecond))"

definition FormatTime :: "('d \<Rightarrow> string) \<Rightarrow> log_env \<Rightarrow> Timestamp \<Rightarrow> log_thread \<times> LogStream
    \<Rightarrow> (log_thread \<times> LogStream) result" where
  "FormatTime fmt env ts = (\<lambda>(th, b).
     bindR (refresh_time_cache env ts th) (\<lambda>th'.
     bindR (put_all (item_put fmt) [T (t_time_str th') 19, T (microseconds_text ts) 7] b) (\<lambda>b'.
       Inr (th', b'))))"

text \<open>
  \<open>strerror_r\<close> comes in two versions. The one of POSIX stores the text in the buffer; that of GNU
  returns it and may leave the buffer alone, which is \<open>None\<close> here. \<open>StrErrorR\<close> answers the buffer.
\<close>

definition StrErrorR :: "log_env \<Rightarrow> int \<Rightarrow> log_thread \<Rightarrow> string \<times> log_thread" where
  "StrErrorR env errno_info th =
     (let th' = (case env_strerror_r env errno_info of Some s \<Rightarrow> th\<lparr>t_erno_buf := take 511 s\<rparr> | None \<Rightarrow> th)
      in (t_erno_buf th', th'))"

definition errno_items :: "string \<Rightarrow> int \<Rightarrow> 'd log_item list" where
  "errno_items msg errno_info =
     (if errno_info \<noteq> 0
      then [Arg (ACString (Some msg)), T_literal '' (errno='',
            Arg (AInt (word_of_int errno_info)), T_literal '') '']
      else [])"

definition Logger_Impl :: "('d \<Rightarrow> string) \<Rightarrow> log_env \<Rightarrow> LogLevel \<Rightarrow> int \<Rightarrow> string \<Rightarrow> cint \<Rightarrow> Timestamp
    \<Rightarrow> log_thread \<Rightarrow> (log_thread \<times> LogStream) result" where
  "Logger_Impl fmt env log_level errno_info file line now th =
     bindR (FormatTime fmt env now (th, FixedBuffer_new kSmallBuffer)) (\<lambda>(th1, b1).
       let (tid, cur) = CachedTid (env_gettid env) (current_thread th1);
           th2 = th1\<lparr>current_thread := cur\<rparr>;
           (msg, th3) = (if errno_info \<noteq> 0 then StrErrorR env errno_info th2 else ([], th2))
       in if level_value log_level < length kLogLevelName
          then bindR (put_all (item_put fmt)
                 ([T_literal '' - thread:'', T (TidString cur) (TidStringLength cur),
                   T_literal '' - '', T (kLogLevelName ! level_value log_level) 6,
                   Source (SourceFile_pointer file), Arg (AChar (CHR '':'')), Arg (AInt line),
                   T_literal '': ''] @ errno_items msg errno_info) b1) (\<lambda>b2. Inr (th3, b2))
          else Inl Undefined_behaviour)"

subsection \<open>Constructors, macros and the destructor\<close>

text \<open>The four constructors: with a function name, plain, with a level, with \<open>is_abort\<close>.\<close>

datatype log_ctor = Ctor_func string | Ctor_plain | Ctor_level LogLevel | Ctor_errno bool

fun ctor_level :: "log_ctor \<Rightarrow> LogLevel" where
  "ctor_level (Ctor_func f) = DEBUG"
| "ctor_level Ctor_plain = INFO"
| "ctor_level (Ctor_level l) = l"
| "ctor_level (Ctor_errno is_abort) = (if is_abort then ERROR else FATAL)"

fun ctor_errno :: "int \<Rightarrow> log_ctor \<Rightarrow> int" where
  "ctor_errno errno_now (Ctor_errno is_abort) = errno_now"
| "ctor_errno errno_now _ = 0"

fun ctor_items :: "log_ctor \<Rightarrow> 'd log_item list" where
  "ctor_items (Ctor_func f) =
     [Arg (ACString (Some ''('')), Arg (ACString (Some f)), Arg (ACString (Some ''): ''))]"
| "ctor_items _ = []"

datatype log_macro = LOG_DEBUG string | LOG_INFO | LOG_WARN | LOG_ERROR | LOG_FATAL
  | LOG_SYS_ERROR | LOG_SYS_FATAL

fun macro_enabled :: "LogLevel \<Rightarrow> log_macro \<Rightarrow> bool" where
  "macro_enabled s_log_level (LOG_DEBUG f) \<longleftrightarrow> s_log_level \<le> DEBUG"
| "macro_enabled s_log_level LOG_INFO \<longleftrightarrow> s_log_level \<le> INFO"
| "macro_enabled s_log_level _ \<longleftrightarrow> True"

fun macro_ctor :: "log_macro \<Rightarrow> log_ctor" where
  "macro_ctor (LOG_DEBUG f) = Ctor_func f"
| "macro_ctor LOG_INFO = Ctor_plain"
| "macro_ctor LOG_WARN = Ctor_level WARN"
| "macro_ctor LOG_ERROR = Ctor_level ERROR"
| "macro_ctor LOG_FATAL = Ctor_level FATAL"
| "macro_ctor LOG_SYS_ERROR = Ctor_errno False"
| "macro_ctor LOG_SYS_FATAL = Ctor_errno True"

text \<open>What a statement does: the line handed to the output function, whether the flush function
  ran, and whether the process was aborted afterwards.\<close>

record log_effect =
  output_line :: string
  flushed :: bool
  aborted :: bool

definition Impl_Finish :: "('d \<Rightarrow> string) \<Rightarrow> LogStream \<Rightarrow> LogStream result" where
  "Impl_Finish fmt b = item_put fmt (Arg (AChar (CHR 0x0A))) b"

definition Logger_destroy :: "('d \<Rightarrow> string) \<Rightarrow> LogLevel \<Rightarrow> LogStream \<Rightarrow> log_effect result" where
  "Logger_destroy fmt log_level b =
     bindR (Impl_Finish fmt b) (\<lambda>b'.
       let out = \<lparr>output_line = FixedBuffer_ToString (LogStream_GetBuffer b'), flushed = False, aborted = False\<rparr>
       in if log_level = FATAL then Inr (out\<lparr>flushed := True, aborted := True\<rparr>) else Inr out)"

definition log_statement :: "('d \<Rightarrow> string) \<Rightarrow> log_env \<Rightarrow> LogLevel \<Rightarrow> log_macro \<Rightarrow> string \<Rightarrow> cint
    \<Rightarrow> 'd log_item list \<Rightarrow> int \<Rightarrow> Timestamp \<Rightarrow> log_thread \<Rightarrow> (log_effect option \<times> log_thread) result" where
  "log_statement fmt env s_log_level m file line args errno_now now th =
     (if macro_enabled s_log_level m
      then let c = macro_ctor m
           in bindR (Logger_Impl fmt env (ctor_level c) (ctor_errno errno_now c) file line now th) (\<lambda>(th1, b1).
              bindR (put_all (item_put fmt) (ctor_items c @ args) b1) (\<lambda>b2.
              bindR (Logger_destroy fmt (ctor_level c) b2) (\<lambda>e. Inr (Some e, th1))))
      else Inr (None, th))"

text \<open>What a caller that ignores the text can rely on: whether control comes back.\<close>

definition log_fate :: "LogLevel \<Rightarrow> log_macro \<Rightarrow> unit result" where
  "log_fate s_log_level m =
     (if macro_enabled s_log_level m \<and> ctor_level (macro_ctor m) = FATAL
      then Inl Process_aborted else Inr ())"

subsection \<open>Source file names\<close>

lemma strrchr_None: "strrchr s c = None \<longleftrightarrow> c \<notin> set s"
  by (induction s) (auto split: option.split)

lemma strrchr_Some:
  "strrchr s c = Some i \<Longrightarrow> i < length s \<and> s ! i = c \<and> c \<notin> set (drop (Suc i) s)"
proof (induction s arbitrary: i)
  case (Cons x xs)
  then show ?case
    by (auto split: option.splits if_splits simp: strrchr_None)
qed simp

text \<open>The file name without its directory.\<close>

definition basename :: "string \<Rightarrow> string" where
  "basename f = sf_data (SourceFile_pointer f)"

lemma SourceFile_pointer_basename: "SourceFile_pointer f = \<lparr>sf_data = basename f, sf_size = int (length (basename f))\<rparr>"
  by (simp add: basename_def SourceFile_pointer_def Let_def)

lemma basename_split: "\<exists>dir. f = dir @ basename f \<and> (dir = [] \<or> last dir = CHR ''/'') \<and> CHR ''/'' \<notin> set (basename f)"
proof (cases "strrchr f (CHR ''/'')")
  case None
  then show ?thesis
    using strrchr_None [of f "CHR ''/''"] by (simp add: basename_def SourceFile_pointer_def Let_def)
next
  case (Some i)
  then have "i < length f" "f ! i = CHR ''/''" "CHR ''/'' \<notin> set (drop (Suc i) f)"
    using strrchr_Some by blast+
  moreover from this have "last (take (Suc i) f) = CHR ''/''"
    by (simp add: take_Suc_conv_app_nth)
  ultimately show ?thesis
    using Some by (intro exI [of _ "take (Suc i) f"]) (auto simp: basename_def SourceFile_pointer_def Let_def)
qed

subsection \<open>Items are all or nothing\<close>

fun render_item :: "('d \<Rightarrow> string) \<Rightarrow> 'd log_item \<Rightarrow> string" where
  "render_item fmt (Arg a) = render_arg fmt a"
| "render_item fmt (T str len) = take len str"
| "render_item fmt (Source v) = take (nat (sf_size v)) (sf_data v)"

fun need_item :: "'d log_item \<Rightarrow> nat" where
  "need_item (Arg a) = need_arg a"
| "need_item (T str len) = Suc len"
| "need_item (Source v) = Suc (nat (sf_size v))"

fun ok_item :: "('d \<Rightarrow> string) \<Rightarrow> 'd log_item \<Rightarrow> bool" where
  "ok_item fmt (Arg a) \<longleftrightarrow> ok_arg fmt a"
| "ok_item fmt (T str len) \<longleftrightarrow> len \<le> length str"
| "ok_item fmt (Source v) \<longleftrightarrow> nat (sf_size v) \<le> length (sf_data v)"

lemma LogStream_Append_take:
  assumes "len \<le> length str"
  shows "LogStream_Append str len b = FixedBuffer_Append (take len str) b"
  using assms by (simp add: LogStream_Append_def FixedBuffer_Append_def segment_def min_absorb2)

interpretation item_sink: log_sink FixedBuffer_inv FixedBuffer_ToString fb_free "ok_item fmt"
    need_item "render_item fmt" "item_put fmt" 48
  for fmt :: "'d \<Rightarrow> string"
proof unfold_locales
  fix b :: LogStream and a :: "'d log_item"
  assume "FixedBuffer_inv b" and "ok_item fmt a"
  then show "\<exists>s'. item_put fmt a b = Inr s' \<and> FixedBuffer_inv s' \<and>
      (if need_item a \<le> fb_free b
       then FixedBuffer_ToString s' = FixedBuffer_ToString b @ render_item fmt a
         \<and> fb_free s' + length (render_item fmt a) = fb_free b
       else s' = b)"
  proof (cases a)
    case (Arg x)
    with \<open>FixedBuffer_inv b\<close> \<open>ok_item fmt a\<close> show ?thesis
      using put_exact_arg [of b fmt x]
      by (simp only: item_put.simps need_item.simps render_item.simps ok_item.simps)
  next
    case (T str len)
    with \<open>ok_item fmt a\<close> have len: "len \<le> length str" by simp
    show ?thesis
      using Append_spec [OF \<open>FixedBuffer_inv b\<close>, of "take len str"] len
      by (simp only: T item_put.simps need_item.simps render_item.simps LogStream_Append_take
          length_take min_absorb2)
  next
    case (Source v)
    with \<open>ok_item fmt a\<close> have len: "nat (sf_size v) \<le> length (sf_data v)" by simp
    show ?thesis
      using Append_spec [OF \<open>FixedBuffer_inv b\<close>, of "take (nat (sf_size v)) (sf_data v)"] len
      by (simp only: Source item_put.simps need_item.simps render_item.simps LogStream_Append_take
          length_take min_absorb2)
  qed
next
  fix a :: "'d log_item"
  assume "ok_item fmt a"
  then show "need_item a \<le> length (render_item fmt a) + 48"
    using need_arg_slack by (cases a) (auto simp: min_absorb2)
qed

lemma put_all_append: "put_all put (xs @ ys) s = bindR (put_all put xs s) (put_all put ys)"
proof (induction xs arbitrary: s)
  case (Cons a xs)
  then show ?case by (cases "put a s") simp_all
qed simp

subsection \<open>The time cache\<close>

definition time_cache_ok :: "log_env \<Rightarrow> log_thread \<Rightarrow> bool" where
  "time_cache_ok env th \<longleftrightarrow> t_last_seconds th = 0
     \<or> (\<exists>lt. env_localtime env (t_last_seconds th) = Some lt \<and> t_time_str th = snprintf_text 64 (format_date lt))"

lemma ToFormatString_short:
  "ToFormatString localtime False ts =
     (case localtime (TimeSinceEpochSeconds ts) of None \<Rightarrow> Inl Undefined_behaviour
      | Some lt \<Rightarrow> Inr (snprintf_text 64 (format_date lt)))"
  by (simp add: ToFormatString_def split: option.split)

lemma refresh_time_cache_spec:
  assumes "time_cache_ok env th" and "TimeSinceEpochSeconds ts \<noteq> 0"
    and "env_localtime env (TimeSinceEpochSeconds ts) = Some lt"
  shows "\<exists>th'. refresh_time_cache env ts th = Inr th' \<and> time_cache_ok env th'
     \<and> t_time_str th' = snprintf_text 64 (format_date lt) \<and> current_thread th' = current_thread th
     \<and> t_erno_buf th' = t_erno_buf th"
  using assms by (auto simp: refresh_time_cache_def time_cache_ok_def ToFormatString_short Let_def)

lemma microseconds_text_eq:
  assumes "0 \<le> TimeSinceEpoch ts"
  shows "microseconds_text ts = ''.'' @ dec_padded 6 (TimeSinceEpochMicroSeconds ts mod 1000000)"
    and "length (microseconds_text ts) = 7"
  using length_dec_padded [of "TimeSinceEpochMicroSeconds ts mod 1000000" 5]
  by (simp_all add: microseconds_text_def micros_split [OF assms])

subsection \<open>The whole line\<close>

definition place_items :: "log_env \<Rightarrow> string \<Rightarrow> LogLevel \<Rightarrow> int \<Rightarrow> string \<Rightarrow> cint \<Rightarrow> 'd log_item list" where
  "place_items env msg lvl errno_info file line =
     [T_literal '' - thread:'', T_literal (dec_int (env_gettid env)), T_literal '' - '',
      T (kLogLevelName ! level_value lvl) 6, Source (SourceFile_pointer file), Arg (AChar (CHR '':'')),
      Arg (AInt line), T_literal '': ''] @ errno_items msg errno_info"

definition header_items :: "log_env \<Rightarrow> string \<Rightarrow> LogLevel \<Rightarrow> int \<Rightarrow> string \<Rightarrow> cint \<Rightarrow> string \<Rightarrow> string \<Rightarrow> 'd log_item list" where
  "header_items env msg lvl errno_info file line date micros =
     [T date 19, T micros 7] @ place_items env msg lvl errno_info file line"

lemma StrErrorR_spec:
  "t_erno_buf th' = t_erno_buf th \<Longrightarrow> fst (StrErrorR env e th') = fst (StrErrorR env e th)"
  "time_cache_ok env (snd (StrErrorR env e th)) = time_cache_ok env th"
  "current_thread (snd (StrErrorR env e th)) = current_thread th"
  by (simp_all add: StrErrorR_def time_cache_ok_def Let_def split: option.split)

lemma errno_items_zero [simp]: "errno_items msg 0 = []"
  by (simp add: errno_items_def)

lemma Logger_Impl_spec:
  assumes cache: "time_cache_ok env th" and tid: "tid_cache_ok (env_gettid env) (current_thread th)"
    and local: "env_localtime env (TimeSinceEpochSeconds now) = Some lt"
    and epoch: "TimeSinceEpochSeconds now \<noteq> 0" and lvl: "lvl \<noteq> NUM_LOG_LEVELS"
    and msg: "msg = fst (StrErrorR env errno_info th)"
  shows "\<exists>th'. time_cache_ok env th' \<and> tid_cache_ok (env_gettid env) (current_thread th')
     \<and> Logger_Impl fmt env lvl errno_info file line now th =
         bindR (put_all (item_put fmt) (header_items env msg lvl errno_info file line
           (snprintf_text 64 (format_date lt)) (microseconds_text now)) (FixedBuffer_new kSmallBuffer))
         (\<lambda>b. Inr (th', b))"
proof -
  obtain th1 where th1: "refresh_time_cache env now th = Inr th1" "time_cache_ok env th1"
      "t_time_str th1 = snprintf_text 64 (format_date lt)" "current_thread th1 = current_thread th"
      "t_erno_buf th1 = t_erno_buf th"
    using refresh_time_cache_spec [OF cache epoch local] by blast
  let ?cur = "snd (CachedTid (env_gettid env) (current_thread th1))"
  let ?th2 = "th1\<lparr>current_thread := ?cur\<rparr>"
  let ?err = "if errno_info \<noteq> 0 then StrErrorR env errno_info ?th2 else ([], ?th2)"
  have cur: "CachedTid (env_gettid env) (current_thread th1) = (fst (CachedTid (env_gettid env) (current_thread th1)), ?cur)"
    by simp
  note ids = CachedTid_spec [OF tid, folded th1(4)]
  have "level_value lvl < length kLogLevelName"
    using lvl by (cases lvl) (simp_all add: kLogLevelName_def)
  moreover have "time_cache_ok env ?th2"
    using th1(2) by (simp add: time_cache_ok_def)
  then have after: "time_cache_ok env (snd ?err)" "current_thread (snd ?err) = ?cur"
    by (simp_all add: StrErrorR_spec)
  have items: "fst (StrErrorR env errno_info ?th2) = msg"
    unfolding msg by (rule StrErrorR_spec(1)) (simp add: th1(5))
  ultimately have "Logger_Impl fmt env lvl errno_info file line now th =
      bindR (put_all (item_put fmt) [T (t_time_str th1) 19, T (microseconds_text now) 7] (FixedBuffer_new kSmallBuffer))
        (\<lambda>b1. bindR (put_all (item_put fmt) (place_items env msg lvl errno_info file line) b1)
          (\<lambda>b. Inr (snd ?err, b)))"
    using ids th1(1) items
    by (simp add: Logger_Impl_def FormatTime_def place_items_def bindR_assoc split_beta Let_def
        del: put_all.simps)
  with after ids(4) show ?thesis
    by (intro exI [of _ "snd ?err"])
      (simp only: header_items_def put_all_append bindR_assoc th1(3) simp_thms)
qed

definition statement_items :: "log_env \<Rightarrow> string \<Rightarrow> log_macro \<Rightarrow> int \<Rightarrow> string \<Rightarrow> cint \<Rightarrow> string \<Rightarrow> string
    \<Rightarrow> 'd log_item list \<Rightarrow> 'd log_item list" where
  "statement_items env msg m errno_now file line date micros args =
     header_items env msg (ctor_level (macro_ctor m)) (ctor_errno errno_now (macro_ctor m)) file line date micros
       @ (ctor_items (macro_ctor m) @ args) @ [Arg (AChar (CHR 0x0A))]"

definition effect_of :: "LogLevel \<Rightarrow> LogStream \<Rightarrow> log_effect" where
  "effect_of lvl b = \<lparr>output_line = FixedBuffer_ToString b, flushed = (lvl = FATAL), aborted = (lvl = FATAL)\<rparr>"

lemma Logger_destroy_effect:
  "Logger_destroy fmt lvl b =
     bindR (put_all (item_put fmt) [Arg (AChar (CHR 0x0A))] b) (\<lambda>b'. Inr (effect_of lvl b'))"
proof -
  have "bindR m Inr = m" for m :: "LogStream result"
    by (rule bindR_Inr_right)
  then show ?thesis
    by (cases "item_put fmt (Arg (AChar (CHR 0x0A))) b") (auto simp: Logger_destroy_def Impl_Finish_def effect_of_def Let_def)
qed

lemma macro_level_named: "ctor_level (macro_ctor m) \<noteq> NUM_LOG_LEVELS"
  by (cases m) simp_all

definition error_text :: "log_env \<Rightarrow> log_thread \<Rightarrow> log_macro \<Rightarrow> int \<Rightarrow> string" where
  "error_text env th m errno_now = fst (StrErrorR env (ctor_errno errno_now (macro_ctor m)) th)"

lemma log_statement_spec:
  assumes "time_cache_ok env th" and "tid_cache_ok (env_gettid env) (current_thread th)"
    and "env_localtime env (TimeSinceEpochSeconds now) = Some lt" and "TimeSinceEpochSeconds now \<noteq> 0"
    and enabled: "macro_enabled s_log_level m"
  shows "\<exists>th'. time_cache_ok env th' \<and> tid_cache_ok (env_gettid env) (current_thread th')
     \<and> log_statement fmt env s_log_level m file line args errno_now now th =
         bindR (put_all (item_put fmt) (statement_items env (error_text env th m errno_now) m errno_now file line
           (snprintf_text 64 (format_date lt)) (microseconds_text now) args) (FixedBuffer_new kSmallBuffer))
         (\<lambda>b. Inr (Some (effect_of (ctor_level (macro_ctor m)) b), th'))"
proof -
  let ?c = "macro_ctor m"
  let ?header = "header_items env (error_text env th m errno_now) (ctor_level ?c) (ctor_errno errno_now ?c) file line
           (snprintf_text 64 (format_date lt)) (microseconds_text now)"
  obtain th' where th': "time_cache_ok env th'" "tid_cache_ok (env_gettid env) (current_thread th')"
      "Logger_Impl fmt env (ctor_level ?c) (ctor_errno errno_now ?c) file line now th =
         bindR (put_all (item_put fmt) ?header (FixedBuffer_new kSmallBuffer)) (\<lambda>b. Inr (th', b))"
    using Logger_Impl_spec [OF assms(1-4) macro_level_named error_text_def] by blast
  have "log_statement fmt env s_log_level m file line args errno_now now th =
      bindR (put_all (item_put fmt) ?header (FixedBuffer_new kSmallBuffer)) (\<lambda>b1.
      bindR (put_all (item_put fmt) (ctor_items ?c @ args) b1) (\<lambda>b2.
      bindR (put_all (item_put fmt) [Arg (AChar (CHR 0x0A))] b2) (\<lambda>b.
        Inr (Some (effect_of (ctor_level ?c) b), th'))))"
    using enabled th'(3)
    by (simp add: log_statement_def Logger_destroy_effect bindR_assoc Let_def del: put_all.simps)
  then have "log_statement fmt env s_log_level m file line args errno_now now th =
         bindR (put_all (item_put fmt) (statement_items env (error_text env th m errno_now) m errno_now file line
           (snprintf_text 64 (format_date lt)) (microseconds_text now) args) (FixedBuffer_new kSmallBuffer))
         (\<lambda>b. Inr (Some (effect_of (ctor_level ?c) b), th'))"
    by (simp only: statement_items_def put_all_append bindR_assoc)
  with th'(1,2) show ?thesis by blast
qed

text \<open>The environment a statement is assumed to run in, and what the items of the header need.\<close>

definition log_context :: "('d \<Rightarrow> string) \<Rightarrow> log_env \<Rightarrow> Timestamp \<Rightarrow> tm \<Rightarrow> log_thread \<Rightarrow> 'd log_item list \<Rightarrow> bool" where
  "log_context fmt env now lt th args \<longleftrightarrow> time_cache_ok env th
     \<and> tid_cache_ok (env_gettid env) (current_thread th)
     \<and> env_localtime env (TimeSinceEpochSeconds now) = Some lt \<and> valid_tm lt
     \<and> 0 < TimeSinceEpochSeconds now \<and> 0 \<le> TimeSinceEpoch now \<and> (\<forall>a \<in> set args. ok_item fmt a)"

lemma level_name_length: "lvl \<noteq> NUM_LOG_LEVELS \<Longrightarrow> length (kLogLevelName ! level_value lvl) = 6"
  by (cases lvl) (simp_all add: kLogLevelName_def)

lemma statement_items_ok:
  assumes "log_context fmt env now lt th args"
  shows "\<forall>a \<in> set (statement_items env msg m errno_now file line
     (snprintf_text 64 (format_date lt)) (microseconds_text now) args). ok_item fmt a"
proof -
  have "length (snprintf_text 64 (format_date lt)) = 19" and "length (microseconds_text now) = 7"
    and "\<forall>a \<in> set args. ok_item fmt a"
    using assms format_date_fields(1) [of lt] microseconds_text_eq(2) [of now]
    by (auto simp: log_context_def)
  then show ?thesis
    by (cases m) (auto simp: statement_items_def header_items_def place_items_def errno_items_def
      SourceFile_pointer_basename kLogLevelName_def split: if_splits)
qed

text \<open>The line a reader of the log expects.\<close>

fun function_text :: "log_macro \<Rightarrow> string" where
  "function_text (LOG_DEBUG f) = ''('' @ f @ ''): ''"
| "function_text _ = []"

definition errno_text :: "string \<Rightarrow> int \<Rightarrow> string" where
  "errno_text msg e =
     (if e = 0 then [] else msg @ '' (errno='' @ dec_int (sint (word_of_int e :: cint)) @ '') '')"

definition log_line :: "('d \<Rightarrow> string) \<Rightarrow> log_env \<Rightarrow> string \<Rightarrow> log_macro \<Rightarrow> string \<Rightarrow> cint \<Rightarrow> 'd log_item list \<Rightarrow> int
    \<Rightarrow> Timestamp \<Rightarrow> tm \<Rightarrow> string" where
  "log_line fmt env msg m file line args errno_now now lt =
     format_date lt @ ''.'' @ dec_padded 6 (TimeSinceEpochMicroSeconds now mod 1000000)
     @ '' - thread:'' @ dec_int (env_gettid env) @ '' - ''
     @ kLogLevelName ! level_value (ctor_level (macro_ctor m))
     @ basename file @ '':'' @ dec_int (sint line) @ '': ''
     @ errno_text msg (ctor_errno errno_now (macro_ctor m)) @ function_text m
     @ concat (map (render_item fmt) args) @ [CHR 0x0A]"

lemma render_statement:
  assumes "log_context fmt env now lt th args"
  shows "concat (map (render_item fmt) (statement_items env msg m errno_now file line
     (snprintf_text 64 (format_date lt)) (microseconds_text now) args))
     = log_line fmt env msg m file line args errno_now now lt"
proof -
  have date: "snprintf_text 64 (format_date lt) = format_date lt" "length (format_date lt) = 19"
    using assms format_date_fields(1) [of lt] by (auto simp: log_context_def)
  have micros: "microseconds_text now = ''.'' @ dec_padded 6 (TimeSinceEpochMicroSeconds now mod 1000000)"
    "length (microseconds_text now) = 7"
    using assms microseconds_text_eq [of now] by (auto simp: log_context_def)
  have func: "concat (map (render_item fmt) (ctor_items (macro_ctor m))) = function_text m"
    by (cases m) simp_all
  have err: "concat (map (render_item fmt) (errno_items msg e)) = errno_text msg e" for e
    by (simp add: errno_items_def errno_text_def)
  show ?thesis
    using date micros func err level_name_length [OF macro_level_named, of m]
    by (simp add: statement_items_def header_items_def place_items_def log_line_def
        SourceFile_pointer_basename)
qed

text \<open>
  What remains of a line in a buffer of 4000 characters: the parts that fit when their turn comes. It is
  the line itself when that has at most 3952 characters.
\<close>

definition kept_line :: "('d \<Rightarrow> string) \<Rightarrow> log_env \<Rightarrow> string \<Rightarrow> log_macro \<Rightarrow> string \<Rightarrow> cint \<Rightarrow> 'd log_item list \<Rightarrow> int
    \<Rightarrow> Timestamp \<Rightarrow> tm \<Rightarrow> string" where
  "kept_line fmt env msg m file line args errno_now now lt =
     accepted need_item (render_item fmt) kSmallBuffer (statement_items env msg m errno_now file line
       (snprintf_text 64 (format_date lt)) (microseconds_text now) args)"

lemma kept_line_fits:
  assumes ctx: "log_context fmt env now lt th args"
    and fits: "length (log_line fmt env msg m file line args errno_now now lt) \<le> 3952"
  shows "kept_line fmt env msg m file line args errno_now now lt = log_line fmt env msg m file line args errno_now now lt"
proof -
  have "(\<Sum>a \<leftarrow> statement_items env msg m errno_now file line (snprintf_text 64 (format_date lt)) (microseconds_text now) args.
      length (render_item fmt a)) \<le> 3952"
    using fits by (simp add: render_statement [OF ctx, symmetric] length_concat comp_def del: length_append)
  then show ?thesis
    unfolding kept_line_def render_statement [OF ctx, symmetric]
    by (intro item_sink.accepted_all statement_items_ok [OF ctx]) (simp add: kSmallBuffer_def)
qed

text \<open>What every enabled statement does, however long its line.\<close>

lemma log_statement_kept:
  assumes ctx: "log_context fmt env now lt th args" and enabled: "macro_enabled s_log_level m"
  shows "\<exists>e th'. log_statement fmt env s_log_level m file line args errno_now now th = Inr (Some e, th')
     \<and> output_line e = kept_line fmt env (error_text env th m errno_now) m file line args errno_now now lt
     \<and> length (output_line e) \<le> kSmallBuffer
     \<and> time_cache_ok env th' \<and> tid_cache_ok (env_gettid env) (current_thread th')
     \<and> (aborted e \<longleftrightarrow> m = LOG_FATAL \<or> m = LOG_SYS_ERROR) \<and> (flushed e \<longleftrightarrow> aborted e)"
proof -
  let ?items = "statement_items env (error_text env th m errno_now) m errno_now file line (snprintf_text 64 (format_date lt))
     (microseconds_text now) args"
  have inv: "FixedBuffer_inv (FixedBuffer_new kSmallBuffer)"
    by (rule FixedBuffer_new_inv) (simp add: kSmallBuffer_def)
  note ok = statement_items_ok [OF ctx, of "error_text env th m errno_now" m errno_now "file" line]
  obtain b where b: "put_all (item_put fmt) ?items (FixedBuffer_new kSmallBuffer) = Inr b"
      "FixedBuffer_ToString b = accepted need_item (render_item fmt) kSmallBuffer ?items"
    using item_sink.put_all_exact [OF inv ok] by (auto simp: FixedBuffer_new_view)
  have len: "length (FixedBuffer_ToString b) \<le> kSmallBuffer"
    using item_sink.accepted_length [OF ok inv] by (simp add: b(2) FixedBuffer_new_view)
  obtain th' where "time_cache_ok env th'" "tid_cache_ok (env_gettid env) (current_thread th')"
      "log_statement fmt env s_log_level m file line args errno_now now th =
         bindR (put_all (item_put fmt) ?items (FixedBuffer_new kSmallBuffer))
         (\<lambda>b. Inr (Some (effect_of (ctor_level (macro_ctor m)) b), th'))"
    using log_statement_spec [of env th now lt s_log_level m fmt "file" line args errno_now] ctx enabled
    by (auto simp: log_context_def)
  moreover have "ctor_level (macro_ctor m) = FATAL \<longleftrightarrow> m = LOG_FATAL \<or> m = LOG_SYS_ERROR"
    by (cases m) simp_all
  ultimately show ?thesis
    using b len by (simp add: effect_of_def kept_line_def)
qed

lemma log_statement_ok:
  assumes ctx: "log_context fmt env now lt th args" and enabled: "macro_enabled s_log_level m"
  shows "\<exists>e th'. log_statement fmt env s_log_level m file line args errno_now now th = Inr (Some e, th')
     \<and> (aborted e \<longleftrightarrow> m = LOG_FATAL \<or> m = LOG_SYS_ERROR) \<and> (flushed e \<longleftrightarrow> aborted e)
     \<and> (aborted e \<longleftrightarrow> log_fate s_log_level m = Inl Process_aborted)
     \<and> length (output_line e) \<le> kSmallBuffer"
proof -
  have "log_fate s_log_level m = Inl Process_aborted \<longleftrightarrow> m = LOG_FATAL \<or> m = LOG_SYS_ERROR"
    using enabled by (cases m) (simp_all add: log_fate_def)
  then show ?thesis using log_statement_kept [OF assms] by (metis (no_types, lifting))
qed

text \<open>A line that fits is handed on whole.\<close>

lemma log_statement_line:
  assumes ctx: "log_context fmt env now lt th args" and enabled: "macro_enabled s_log_level m"
    and fits: "length (log_line fmt env (error_text env th m errno_now) m file line args errno_now now lt) \<le> 3952"
  shows "\<exists>e th'. log_statement fmt env s_log_level m file line args errno_now now th = Inr (Some e, th')
     \<and> output_line e = log_line fmt env (error_text env th m errno_now) m file line args errno_now now lt
     \<and> time_cache_ok env th' \<and> tid_cache_ok (env_gettid env) (current_thread th')"
  using log_statement_kept [OF ctx enabled, of "file" line errno_now] unfolding kept_line_fits [OF ctx fits] by blast

subsection \<open>Properties\<close>

text \<open>C16: A log line is what it should be. When a statement of any macro is enabled and its line is at
  most 3952 characters long, the line handed to the output function is: the local date and time
  to the microsecond, the thread id, the level name, the file name without its directories, the
  line number, for the \<open>LOG_SYS\<close> macros with an \<open>errno\<close> what \<open>StrErrorR\<close> answers (nothing, if \<open>strerror_r\<close> is
  the version that returns its text) and the number, the function name for
  \<open>LOG_DEBUG\<close>, the inserted values and a newline. This holds with any valid state of the cached
  date and thread id.\<close>

theorem log_line_layout:
  assumes ctx: "log_context fmt env now lt th args" and enabled: "macro_enabled s_log_level m"
    and fits: "length (log_line fmt env (error_text env th m errno_now) m file line args errno_now now lt) \<le> 3952"
  shows "\<exists>e th'. log_statement fmt env s_log_level m file line args errno_now now th = Inr (Some e, th')
     \<and> output_line e = log_line fmt env (error_text env th m errno_now) m file line args errno_now now lt
     \<and> time_cache_ok env th' \<and> tid_cache_ok (env_gettid env) (current_thread th')"
  using log_statement_line [OF assms] by blast

theorem log_line_layout_witness:
  "\<exists>env e th'. log_statement (\<lambda>d :: nat. []) env INFO LOG_WARN ''src/net/a.cpp'' 7
       [Arg (AString ''hello'')] 0 (Timestamp 1700000000000000000) log_thread_init = Inr (Some e, th')
     \<and> length (output_line e) = 64"
proof -
  let ?lt = "\<lparr>tm_year = 123, tm_mon = 10, tm_mday = 14, tm_hour = 22, tm_min = 13, tm_sec = 20\<rparr>"
  let ?env = "\<lparr>env_localtime = (\<lambda>_. Some ?lt), env_strerror_r = (\<lambda>_. None), env_gettid = 4242\<rparr>"
  let ?now = "Timestamp 1700000000000000000"
  let ?line = "log_line (\<lambda>d :: nat. []) ?env [] LOG_WARN ''src/net/a.cpp'' 7 [Arg (AString ''hello'')] 0 ?now ?lt"
  have ctx: "log_context (\<lambda>d :: nat. []) ?env ?now ?lt log_thread_init [Arg (AString ''hello'')]"
    by (simp add: log_context_def log_thread_init_def time_cache_ok_def tid_cache_init valid_tm_def
        TimeSinceEpochSeconds_def duration_cast_def)
  have seven: "length (dec_int (sint (7 :: cint))) = 1" "length (dec_int 4242) = 4"
    by (simp_all add: dec_int_def dec_nat_def decimal.render_nat_rec)
  have zero: "length (dec_padded 6 (TimeSinceEpochMicroSeconds ?now mod 1000000)) = 6"
    using length_dec_padded [of "TimeSinceEpochMicroSeconds ?now mod 1000000" 5] by simp
  have none: "error_text ?env log_thread_init LOG_WARN 0 = []"
    by (simp add: error_text_def StrErrorR_def log_thread_init_def)
  have len: "length ?line = 64"
    using format_date_fields(1) [of ?lt] seven zero
    by (simp add: log_line_def errno_text_def kLogLevelName_def basename_def SourceFile_pointer_def valid_tm_def)
  then show ?thesis
    using log_line_layout [OF ctx, of INFO LOG_WARN 0 "''src/net/a.cpp''" 7] unfolding none by fastforce
qed

text \<open>C36: No log statement faults, however long its line: parts that do not fit are left out whole.
  Control comes back, with nothing flushed, except from \<open>LOG_FATAL\<close> and \<open>LOG_SYS_ERROR\<close>, which
  flush and abort after the line was handed on. (The two \<open>LOG_SYS\<close> macros are the wrong way round: the
  constructor they use maps \<open>is_abort\<close> to \<open>ERROR\<close> and its absence to \<open>FATAL\<close>.)\<close>

theorem log_statement_fate:
  assumes ctx: "log_context fmt env now lt th args" and enabled: "macro_enabled s_log_level m"
  shows "\<exists>e th'. log_statement fmt env s_log_level m file line args errno_now now th = Inr (Some e, th')
     \<and> (aborted e \<longleftrightarrow> m = LOG_FATAL \<or> m = LOG_SYS_ERROR) \<and> (flushed e \<longleftrightarrow> aborted e)
     \<and> (aborted e \<longleftrightarrow> log_fate s_log_level m = Inl Process_aborted)
     \<and> length (output_line e) \<le> kSmallBuffer"
  by (rule log_statement_ok [OF assms])

theorem log_statement_fate_witness:
  "\<exists>env e th'. log_statement (\<lambda>d :: nat. []) env INFO LOG_SYS_ERROR ''a.cpp'' 7
       [] 98 (Timestamp 1700000000000000000) log_thread_init = Inr (Some e, th') \<and> aborted e"
proof -
  let ?lt = "\<lparr>tm_year = 123, tm_mon = 10, tm_mday = 14, tm_hour = 22, tm_min = 13, tm_sec = 20\<rparr>"
  let ?env = "\<lparr>env_localtime = (\<lambda>_. Some ?lt), env_strerror_r = (\<lambda>_. None), env_gettid = 4242\<rparr>"
  have ctx: "log_context (\<lambda>d :: nat. []) ?env (Timestamp 1700000000000000000) ?lt log_thread_init []"
    by (simp add: log_context_def log_thread_init_def time_cache_ok_def tid_cache_init valid_tm_def
        TimeSinceEpochSeconds_def duration_cast_def)
  then show ?thesis
    using log_statement_fate [OF ctx, of INFO LOG_SYS_ERROR "''a.cpp''" 7 98] by fastforce
qed

text \<open>A sequence of statements of one thread, as far as the date cache is concerned.\<close>

fun refresh_all :: "log_env \<Rightarrow> Timestamp list \<Rightarrow> log_thread \<Rightarrow> log_thread result" where
  "refresh_all env [] th = Inr th"
| "refresh_all env (ts # tss) th = bindR (refresh_time_cache env ts th) (refresh_all env tss)"

lemma refresh_all_ok:
  "time_cache_ok env th \<Longrightarrow> \<forall>ts \<in> set tss. TimeSinceEpochSeconds ts \<noteq> 0
     \<and> env_localtime env (TimeSinceEpochSeconds ts) \<noteq> None \<Longrightarrow>
   \<exists>th'. refresh_all env tss th = Inr th' \<and> time_cache_ok env th'"
proof (induction tss arbitrary: th)
  case (Cons ts tss)
  then obtain lt where "env_localtime env (TimeSinceEpochSeconds ts) = Some lt" and "TimeSinceEpochSeconds ts \<noteq> 0"
    by auto
  then obtain th1 where "refresh_time_cache env ts th = Inr th1" "time_cache_ok env th1"
    using refresh_time_cache_spec Cons.prems(1) by blast
  with Cons show ?case by simp
qed simp

lemma refresh_all_snoc:
  "refresh_all env (tss @ [ts]) th = bindR (refresh_all env tss th) (refresh_time_cache env ts)"
proof (induction tss arbitrary: th)
  case (Cons t tss)
  then show ?case by (cases "refresh_time_cache env t th") simp_all
next
  case Nil
  show ?case by (cases "refresh_time_cache env ts th") simp_all
qed

text \<open>C37: The cache of the formatted date is transparent. After any sequence of statements at times
  after the first second of the epoch, in any order and with any repetitions, the cached text is the one
  \<open>ToFormatString\<close> computes afresh for the last of them.\<close>

theorem time_cache_transparent:
  assumes "\<forall>ts \<in> set (tss @ [now]). TimeSinceEpochSeconds ts \<noteq> 0
     \<and> env_localtime env (TimeSinceEpochSeconds ts) \<noteq> None"
  shows "\<exists>th. refresh_all env (tss @ [now]) log_thread_init = Inr th
     \<and> ToFormatString (env_localtime env) False now = Inr (t_time_str th)"
proof -
  have init: "time_cache_ok env log_thread_init"
    by (simp add: time_cache_ok_def log_thread_init_def)
  obtain th where "refresh_all env tss log_thread_init = Inr th" "time_cache_ok env th"
    using refresh_all_ok [OF init] assms by fastforce
  moreover obtain lt where "env_localtime env (TimeSinceEpochSeconds now) = Some lt"
    using assms by auto
  ultimately show ?thesis
    using refresh_time_cache_spec [of env th now lt] assms
    by (auto simp: refresh_all_snoc ToFormatString_short)
qed

theorem time_cache_transparent_witness:
  "\<exists>th. refresh_all \<lparr>env_localtime = (\<lambda>s. Some \<lparr>tm_year = 70, tm_mon = 0, tm_mday = 1, tm_hour = 0,
       tm_min = 0, tm_sec = s mod 60\<rparr>), env_strerror_r = (\<lambda>_. None), env_gettid = 1\<rparr>
     ([Timestamp 5000000000, Timestamp 5900000000] @ [Timestamp 7000000000]) log_thread_init = Inr th
     \<and> ToFormatString (\<lambda>s. Some \<lparr>tm_year = 70, tm_mon = 0, tm_mday = 1, tm_hour = 0,
       tm_min = 0, tm_sec = s mod 60\<rparr>) False (Timestamp 7000000000) = Inr (t_time_str th)"
  using time_cache_transparent [where tss = "[Timestamp 5000000000, Timestamp 5900000000]" and
      now = "Timestamp 7000000000" and
      env = "\<lparr>env_localtime = (\<lambda>s. Some \<lparr>tm_year = 70, tm_mon = 0, tm_mday = 1, tm_hour = 0,
       tm_min = 0, tm_sec = s mod 60\<rparr>), env_strerror_r = (\<lambda>_. None), env_gettid = 1\<rparr>"]
  by (simp add: TimeSinceEpochSeconds_def duration_cast_def)

end
