(* ===== verification/Logger_File.thy ===== *)
theory Logger_File
  imports Base_Timestamp
begin

section \<open>logger/file\_util, logger/log\_file: the rolling log file\<close>

text \<open>
  \<open>FileUtil\<close> (\<open>src/logger/file_util.cpp\<close>) appends to one stdio stream and counts bytes,
  \<open>LogFile\<close> (\<open>src/logger/log_file.cpp\<close>) starts a new file when the current one is too big or a
  new day has begun. The operating system is an explicit state: successive readings of the clock,
  how many bytes each \<open>fwrite\<close> takes, whether a file can be opened, and the journal of what was
  written to which stream, in order. A stream has a buffer of 64 KB; \<open>os_saved\<close> counts the bytes of
  the journal that have left the buffers for the files, which are the ones that survive the process,
  and \<open>os_drain\<close> says how many more the library passes on during a write. Only the open stream has
  anything in its buffer. A \<open>LogFile\<close> made with its mutex does the same under it.
\<close>

record os =
  os_clock :: "nat \<Rightarrow> int"
  os_reads :: nat
  os_localtime :: "int \<Rightarrow> tm option"
  os_host :: "string option"
  os_pid :: int
  os_fopen :: "string \<Rightarrow> bool"
  os_fwrite :: "nat \<Rightarrow> nat \<Rightarrow> nat"
  os_writes :: nat
  os_journal :: "(string \<times> string) list"
  os_drain :: "nat \<Rightarrow> nat"
  os_saved :: nat

definition os_now :: "os \<Rightarrow> Timestamp \<times> os" where
  "os_now w = (Timestamp_Now (os_clock w (os_reads w)), w\<lparr>os_reads := Suc (os_reads w)\<rparr>)"

definition journal_text :: "os \<Rightarrow> string" where
  "journal_text w = concat (map snd (os_journal w))"

definition saved_text :: "os \<Rightarrow> string" where
  "saved_text w = take (os_saved w) (journal_text w)"

subsection \<open>The host and the process\<close>

text \<open>\<open>gethostname\<close> fails or fills a block of 256 bytes, the last of which is then overwritten.\<close>

definition GetHostName :: "os \<Rightarrow> string" where
  "GetHostName w =
     (case os_host w of
        None \<Rightarrow> ''Unknown Host''
      | Some name \<Rightarrow> takeWhile (\<lambda>c. c \<noteq> NUL) (take 255 name))"

definition GetPid :: "os \<Rightarrow> string" where
  "GetPid w = dec_int (os_pid w)"

subsection \<open>FileUtil\<close>

definition stdio_buffer_size :: nat where
  "stdio_buffer_size = 64 * 1024"

record FileUtil =
  fu_name :: string
  written_bytes :: int

text \<open>A stream that could not be opened is null, and \<open>setbuffer\<close> dereferences it.\<close>

definition FileUtil_new :: "string \<Rightarrow> os \<Rightarrow> FileUtil result" where
  "FileUtil_new file_name w =
     (if os_fopen w file_name then Inr \<lparr>fu_name = file_name, written_bytes = 0\<rparr> else Inl Undefined_behaviour)"

text \<open>After a write no more stays in the buffer than it can hold.\<close>

definition pass_on :: "nat \<Rightarrow> os \<Rightarrow> os" where
  "pass_on n w =
     (let total = length (journal_text w)
      in w\<lparr>os_saved := min total (max (os_saved w + n) (total - stdio_buffer_size))\<rparr>)"

definition FileUtil_Write :: "string \<Rightarrow> FileUtil \<Rightarrow> os \<Rightarrow> nat \<times> os" where
  "FileUtil_Write data f w =
     (let n = min (os_fwrite w (os_writes w) (length data)) (length data) in
      (n, pass_on (os_drain w (os_writes w))
            (w\<lparr>os_writes := Suc (os_writes w), os_journal := os_journal w @ [(fu_name f, take n data)]\<rparr>)))"

lemma FileUtil_Write_le: "FileUtil_Write data f w = (n, w') \<Longrightarrow> n \<le> length data"
  by (auto simp: FileUtil_Write_def Let_def)

text \<open>The loop of \<open>Append\<close>: it goes on while something remains and the last call made progress.\<close>

function append_loop :: "string \<Rightarrow> FileUtil \<Rightarrow> os \<Rightarrow> os" where
  "append_loop remain f w =
     (if remain = [] then w
      else (let (x, w') = FileUtil_Write remain f w in
            if x = 0 then w' else append_loop (drop x remain) f w'))"
  by pat_completeness auto
termination
  by (relation "measure (\<lambda>(remain, _, _). length remain)") auto

declare append_loop.simps [simp del]

definition FileUtil_Append :: "string \<Rightarrow> FileUtil \<Rightarrow> os \<Rightarrow> FileUtil \<times> os" where
  "FileUtil_Append data f w =
     (let (n, w1) = FileUtil_Write data f w; w2 = append_loop (drop n data) f w1 in
      (f\<lparr>written_bytes := written_bytes f + int (length data)\<rparr>, w2))"

definition FileUtil_Flush :: "FileUtil \<Rightarrow> os \<Rightarrow> os" where
  "FileUtil_Flush f w = w\<lparr>os_saved := length (journal_text w)\<rparr>"

text \<open>\<open>fclose\<close> writes out what is in the buffer.\<close>

definition FileUtil_destroy :: "FileUtil \<Rightarrow> os \<Rightarrow> os" where
  "FileUtil_destroy f w = w\<lparr>os_saved := length (journal_text w)\<rparr>"

definition WrittenBytes :: "FileUtil \<Rightarrow> int" where
  "WrittenBytes f = written_bytes f"

subsection \<open>LogFile\<close>

text \<open>
  \<open>count_\<close> is an \<open>int\<close> that is counted up and never set back. It is kept at its width and wraps around
  here; in the code the overflow at \<open>2 ^ 31\<close> is undefined, and the theorems that depend on the count
  speak about fewer appends than that.
\<close>

record LogFile =
  base_name :: string
  roll_size :: int
  flush_interval :: int
  check_every_n :: int
  lf_count :: cint
  lf_file :: "FileUtil option"
  thread_safe :: bool
  start_period :: int
  last_roll :: int
  last_flush :: int

definition GetLogFileName :: "LogFile \<Rightarrow> os \<Rightarrow> (string \<times> Timestamp \<times> os) result" where
  "GetLogFileName lf w =
     (let (now_time, w1) = os_now w in
      bindR (ToFormatString (os_localtime w1) False now_time) (\<lambda>date.
        Inr (base_name lf @ date @ GetHostName w1 @ GetPid w1 @ ''.log'', now_time, w1)))"

text \<open>Assigning to the \<open>unique_ptr\<close> destroys the stream it held, after the new one was opened.\<close>

definition drop_file :: "FileUtil option \<Rightarrow> os \<Rightarrow> os" where
  "drop_file p w = (case p of None \<Rightarrow> w | Some f \<Rightarrow> FileUtil_destroy f w)"

definition RollFile :: "LogFile \<Rightarrow> os \<Rightarrow> (LogFile \<times> os) result" where
  "RollFile lf w =
     bindR (GetLogFileName lf w) (\<lambda>(file_name, now_time, w1).
       let now_time_seconds = TimeSinceEpochSeconds now_time in
       if now_time_seconds > last_roll lf
       then bindR (FileUtil_new file_name w1) (\<lambda>f.
              Inr (lf\<lparr>start_period := TimeSinceEpochDays now_time, last_roll := now_time_seconds,
                     last_flush := now_time_seconds, lf_file := Some f\<rparr>, drop_file (lf_file lf) w1))
       else Inr (lf, w1))"

definition LogFile_new :: "build \<Rightarrow> string \<Rightarrow> int \<Rightarrow> bool \<Rightarrow> int \<Rightarrow> int \<Rightarrow> os \<Rightarrow> (LogFile \<times> os) result" where
  "LogFile_new bld base roll safe interval every w =
     bindR (assertR bld (CHR ''/'' \<notin> set base)) (\<lambda>_.
       RollFile \<lparr>base_name = base, roll_size = roll, flush_interval = interval, check_every_n = every, lf_count = 0,
         lf_file = None, thread_safe = safe, start_period = 0, last_roll = 0, last_flush = 0\<rparr> w)"

definition AppendUnLocked :: "string \<Rightarrow> LogFile \<Rightarrow> os \<Rightarrow> (LogFile \<times> os) result" where
  "AppendUnLocked data lf w =
     (case lf_file lf of
        None \<Rightarrow> Inl Undefined_behaviour
      | Some f \<Rightarrow>
          let (f1, w1) = FileUtil_Append data f w; lf1 = lf\<lparr>lf_file := Some f1\<rparr> in
          if WrittenBytes f1 > roll_size lf then RollFile lf1 w1
          else let lf2 = lf1\<lparr>lf_count := lf_count lf1 + 1\<rparr> in
               if sint (lf_count lf2) \<ge> check_every_n lf2
               then let (now_time, w2) = os_now w1; now_seconds = TimeSinceEpochSeconds now_time in
                    if TimeSinceEpochDays now_time > start_period lf2 then RollFile lf2 w2
                    else if now_seconds - last_flush lf2 > flush_interval lf2
                    then Inr (lf2\<lparr>last_flush := now_seconds\<rparr>, FileUtil_Flush f1 w2)
                    else Inr (lf2, w2)
               else Inr (lf2, w1))"

definition LogFile_Append :: "string \<Rightarrow> LogFile \<Rightarrow> os \<Rightarrow> (LogFile \<times> os) result" where
  "LogFile_Append data lf w = AppendUnLocked data lf w"

definition LogFile_Flush :: "LogFile \<Rightarrow> os \<Rightarrow> os result" where
  "LogFile_Flush lf w =
     (case lf_file lf of None \<Rightarrow> Inl Undefined_behaviour | Some f \<Rightarrow> Inr (FileUtil_Flush f w))"

definition LogFile_destroy :: "LogFile \<Rightarrow> os \<Rightarrow> os" where
  "LogFile_destroy lf w = drop_file (lf_file lf) w"

subsection \<open>What the file system is assumed to do\<close>

text \<open>
  Files open, an \<open>fwrite\<close> of something writes something, the local time is known, and the clock
  is past the first second of the epoch.
\<close>

definition os_ok :: "os \<Rightarrow> bool" where
  "os_ok w \<longleftrightarrow> (\<forall>name. os_fopen w name) \<and> (\<forall>i n. 0 < n \<longrightarrow> 0 < os_fwrite w i n)
     \<and> (\<forall>s. os_localtime w s \<noteq> None) \<and> (\<forall>i. 1000000000 \<le> os_clock w i)"

text \<open>No more is saved than was written, and what is not saved fits into the buffer.\<close>

definition disk_ok :: "os \<Rightarrow> bool" where
  "disk_ok w \<longleftrightarrow> os_saved w \<le> length (journal_text w) \<and> length (journal_text w) - os_saved w \<le> stdio_buffer_size"

text \<open>The part of the state no operation changes; what is saved stays so.\<close>

definition same_os :: "os \<Rightarrow> os \<Rightarrow> bool" where
  "same_os w w' \<longleftrightarrow> os_fopen w' = os_fopen w \<and> os_fwrite w' = os_fwrite w \<and> os_localtime w' = os_localtime w
     \<and> os_clock w' = os_clock w \<and> os_host w' = os_host w \<and> os_pid w' = os_pid w
     \<and> (disk_ok w \<longrightarrow> disk_ok w' \<and> os_saved w \<le> os_saved w')"

lemma same_os_ok: "same_os w w' \<Longrightarrow> os_ok w \<Longrightarrow> os_ok w'"
  by (simp add: same_os_def os_ok_def)

lemma same_os_refl [simp]: "same_os w w"
  by (simp add: same_os_def)

lemma same_os_trans: "same_os u v \<Longrightarrow> same_os v w \<Longrightarrow> same_os u w"
  by (auto simp: same_os_def)

text \<open>The text of a stream that is flushed or closed is saved whole.\<close>

lemma FileUtil_saves [simp]:
  "saved_text (FileUtil_Flush f w) = journal_text w" "journal_text (FileUtil_Flush f w) = journal_text w"
  "saved_text (FileUtil_destroy f w) = journal_text w" "journal_text (FileUtil_destroy f w) = journal_text w"
  by (simp_all add: FileUtil_Flush_def FileUtil_destroy_def saved_text_def journal_text_def)

lemma disk_ok_saved: "disk_ok w \<Longrightarrow> \<exists>rest. journal_text w = saved_text w @ rest \<and> length rest \<le> stdio_buffer_size"
  by (intro exI [of _ "drop (os_saved w) (journal_text w)"]) (auto simp: disk_ok_def saved_text_def)

lemma same_os_Flush [simp]: "same_os w (FileUtil_Flush f w)" "same_os w (FileUtil_destroy f w)"
  by (auto simp: same_os_def FileUtil_Flush_def FileUtil_destroy_def disk_ok_def journal_text_def)

lemma drop_file_keeps [simp]: "same_os w (drop_file p w)" "journal_text (drop_file p w) = journal_text w"
    "os_reads (drop_file p w) = os_reads w"
  by (cases p; simp add: drop_file_def; simp add: FileUtil_destroy_def)+

lemma same_os_reads [simp]: "same_os w (w\<lparr>os_reads := n\<rparr>)" "journal_text (w\<lparr>os_reads := n\<rparr>) = journal_text w"
  by (simp_all add: same_os_def disk_ok_def journal_text_def)

lemma Write_keeps:
  assumes "FileUtil_Write data f w = (n, w')"
  shows "same_os w w' \<and> os_reads w' = os_reads w \<and> journal_text w' = journal_text w @ take n data
    \<and> set (os_journal w') \<subseteq> set (os_journal w) \<union> {fu_name f} \<times> UNIV"
  using assms
  by (auto simp: FileUtil_Write_def pass_on_def Let_def same_os_def disk_ok_def journal_text_def)

subsection \<open>FileUtil\<close>

lemma append_loop_text:
  "os_ok w \<Longrightarrow> same_os w (append_loop remain f w) \<and> os_reads (append_loop remain f w) = os_reads w
     \<and> journal_text (append_loop remain f w) = journal_text w @ remain
     \<and> set (os_journal (append_loop remain f w)) \<subseteq> set (os_journal w) \<union> {fu_name f} \<times> UNIV"
proof (induction remain f w rule: append_loop.induct)
  case (1 remain f w)
  show ?case
  proof (cases "remain = []")
    case True
    then show ?thesis by (subst (1 2 3 4) append_loop.simps) simp
  next
    case False
    obtain x w' where w: "FileUtil_Write remain f w = (x, w')" by fastforce
    have pos: "0 < x" using "1.prems" False w by (auto simp: FileUtil_Write_def Let_def os_ok_def)
    have same: "same_os w w'" "os_reads w' = os_reads w" "journal_text w' = journal_text w @ take x remain"
        "set (os_journal w') \<subseteq> set (os_journal w) \<union> {fu_name f} \<times> UNIV"
      using Write_keeps [OF w] by blast+
    have "append_loop remain f w = append_loop (drop x remain) f w'"
      using False pos w by (subst append_loop.simps) simp
    then show ?thesis
      using "1.IH" [OF False w [symmetric] refl] pos same same_os_ok [OF same(1) "1.prems"]
      by (auto dest: same_os_trans)
  qed
qed

lemma FileUtil_Append_text:
  assumes "os_ok w" and "FileUtil_Append data f w = (f', w')"
  shows "same_os w w' \<and> os_reads w' = os_reads w \<and> journal_text w' = journal_text w @ data \<and> fu_name f' = fu_name f
     \<and> written_bytes f' = written_bytes f + int (length data)
     \<and> set (os_journal w') \<subseteq> set (os_journal w) \<union> {fu_name f} \<times> UNIV"
proof -
  obtain n w1 where w1: "FileUtil_Write data f w = (n, w1)" by fastforce
  have "same_os w w1" "os_reads w1 = os_reads w" "journal_text w1 = journal_text w @ take n data"
      "set (os_journal w1) \<subseteq> set (os_journal w) \<union> {fu_name f} \<times> UNIV"
    using Write_keeps [OF w1] by blast+
  then show ?thesis
    using append_loop_text [of w1 "drop n data" f] same_os_ok [of w w1] assms w1
    by (auto simp: FileUtil_Append_def dest: same_os_trans)
qed

subsection \<open>LogFile\<close>

definition LogFile_inv :: "LogFile \<Rightarrow> bool" where
  "LogFile_inv lf \<longleftrightarrow> lf_file lf \<noteq> None"

lemma GetLogFileName_ok:
  assumes "os_ok w"
  shows "\<exists>name. GetLogFileName lf w
    = Inr (name, Timestamp (os_clock w (os_reads w)), w\<lparr>os_reads := Suc (os_reads w)\<rparr>)"
proof -
  obtain lt where "os_localtime w (TimeSinceEpochSeconds (Timestamp (os_clock w (os_reads w)))) = Some lt"
    using assms unfolding os_ok_def by blast
  then show ?thesis by (simp add: GetLogFileName_def os_now_def Timestamp_Now_def ToFormatString_def)
qed

text \<open>Rolling opens a fresh file exactly when the second has changed since the last roll.\<close>

definition rolled :: "string \<Rightarrow> Timestamp \<Rightarrow> LogFile \<Rightarrow> LogFile" where
  "rolled name now lf =
     (if TimeSinceEpochSeconds now > last_roll lf
      then lf\<lparr>start_period := TimeSinceEpochDays now, last_roll := TimeSinceEpochSeconds now,
             last_flush := TimeSinceEpochSeconds now, lf_file := Some \<lparr>fu_name = name, written_bytes = 0\<rparr>\<rparr>
      else lf)"

lemma RollFile_ok:
  assumes "os_ok w"
  shows "\<exists>name w'. RollFile lf w = Inr (rolled name (Timestamp (os_clock w (os_reads w))) lf, w')
    \<and> same_os w w' \<and> journal_text w' = journal_text w \<and> os_reads w' = Suc (os_reads w)"
proof -
  obtain name where "GetLogFileName lf w
    = Inr (name, Timestamp (os_clock w (os_reads w)), w\<lparr>os_reads := Suc (os_reads w)\<rparr>)"
    using GetLogFileName_ok [OF assms] by blast
  moreover have "os_fopen w name" using assms by (simp add: os_ok_def)
  ultimately show ?thesis
    using same_os_trans [OF same_os_reads(1) drop_file_keeps(1), of w]
    by (intro exI [of _ name]) (auto simp: RollFile_def FileUtil_new_def rolled_def Let_def)
qed

lemma RollFile_keeps:
  assumes "os_ok w" and "LogFile_inv lf"
  shows "\<exists>lf' w'. RollFile lf w = Inr (lf', w') \<and> LogFile_inv lf' \<and> same_os w w' \<and> journal_text w' = journal_text w
    \<and> lf_count lf' = lf_count lf"
  using RollFile_ok [OF assms(1), of lf] assms(2)
  by (auto simp: LogFile_inv_def rolled_def split: if_splits)

lemma LogFile_new_ok:
  assumes "os_ok w" and "bld = Debug \<longrightarrow> CHR ''/'' \<notin> set base"
  shows "\<exists>lf w'. LogFile_new bld base roll safe interval every w = Inr (lf, w') \<and> LogFile_inv lf \<and> same_os w w'
    \<and> journal_text w' = journal_text w \<and> lf_count lf = 0"
proof -
  have "1 \<le> os_clock w (os_reads w) div 1000000000" using assms(1) zdiv_mono1 [of 1000000000 _ 1000000000]
    by (simp add: os_ok_def)
  moreover have "0 \<le> os_clock w (os_reads w)" using assms(1) by (metis order_trans zero_le_numeral os_ok_def)
  ultimately have "0 < TimeSinceEpochSeconds (Timestamp (os_clock w (os_reads w)))"
    by (simp add: TimeSinceEpochSeconds_def duration_cast_def signed_divide_int_def)
  then show ?thesis
    using RollFile_ok [OF assms(1), of "\<lparr>base_name = base, roll_size = roll, flush_interval = interval,
        check_every_n = every, lf_count = 0, lf_file = None, thread_safe = safe, start_period = 0, last_roll = 0,
        last_flush = 0\<rparr>"] assms(2)
    by (auto simp: LogFile_new_def assertR_def LogFile_inv_def rolled_def)
qed

lemma AppendUnLocked_ok:
  assumes "os_ok w" and "LogFile_inv lf"
  shows "\<exists>lf' w'. AppendUnLocked data lf w = Inr (lf', w') \<and> LogFile_inv lf' \<and> same_os w w'
    \<and> journal_text w' = journal_text w @ data"
proof -
  obtain f where f: "lf_file lf = Some f" using assms(2) by (auto simp: LogFile_inv_def)
  obtain f1 w1 where a: "FileUtil_Append data f w = (f1, w1)" by fastforce
  note t = FileUtil_Append_text [OF assms(1) a]
  have ok: "os_ok w1" using t same_os_ok assms(1) by blast
  have roll: "\<exists>lf' w'. RollFile lf1 w2 = Inr (lf', w') \<and> LogFile_inv lf' \<and> same_os w w' \<and> journal_text w' = journal_text w @ data"
    if "same_os w1 w2" "journal_text w2 = journal_text w1" "lf_file lf1 = Some f1" for lf1 w2
  proof -
    have "os_ok w2" "LogFile_inv lf1" "same_os w w2" "journal_text w2 = journal_text w @ data"
      using that t ok same_os_ok [of w1 w2] same_os_trans [of w w1 w2] by (simp_all add: LogFile_inv_def)
    then show ?thesis using RollFile_keeps [of w2 lf1] same_os_trans [of w w2] by fastforce
  qed
  let ?w2 = "w1\<lparr>os_reads := Suc (os_reads w1)\<rparr>"
  have "same_os w ?w2" using t same_os_trans [of w w1 ?w2] by simp
  moreover from this have "same_os w (FileUtil_Flush f1 ?w2)" by (rule same_os_trans) simp
  ultimately show ?thesis
    using f a t roll [of w1] roll [of ?w2]
    by (auto simp: AppendUnLocked_def os_now_def Let_def LogFile_inv_def)
qed

text \<open>
  What the users of a log file rely on, whatever it does with the text: an append succeeds, keeps
  the file usable and puts the message behind what was written before.
\<close>

fun append_list :: "(string \<Rightarrow> 'f \<Rightarrow> 'w \<Rightarrow> ('f \<times> 'w) result) \<Rightarrow> string list \<Rightarrow> 'f \<Rightarrow> 'w \<Rightarrow> ('f \<times> 'w) result" where
  "append_list put [] lf w = Inr (lf, w)"
| "append_list put (m # ms) lf w = bindR (put m lf w) (\<lambda>(lf1, w1). append_list put ms lf1 w1)"

locale line_store =
  fixes usable :: "'f \<Rightarrow> 'w \<Rightarrow> bool"
    and written :: "'w \<Rightarrow> string"
    and later :: "'w \<Rightarrow> 'w \<Rightarrow> bool"
    and put :: "string \<Rightarrow> 'f \<Rightarrow> 'w \<Rightarrow> ('f \<times> 'w) result"
  assumes later_refl: "later w w"
    and later_trans: "later u v \<Longrightarrow> later v w \<Longrightarrow> later u w"
    and put_ok: "usable f w \<Longrightarrow> \<exists>f' w'. put m f w = Inr (f', w') \<and> usable f' w' \<and> later w w'
      \<and> written w' = written w @ m"
begin

lemma append_list_ok:
  "usable f w \<Longrightarrow> \<exists>f' w'. append_list put ms f w = Inr (f', w') \<and> usable f' w' \<and> later w w'
     \<and> written w' = written w @ concat ms"
proof (induction ms arbitrary: f w)
  case (Cons m ms)
  obtain f1 w1 where a: "put m f w = Inr (f1, w1)" "usable f1 w1" "later w w1" "written w1 = written w @ m"
    using put_ok [OF Cons.prems] by blast
  with Cons.IH [OF a(2)] later_trans [OF a(3)] show ?case by fastforce
qed (simp add: later_refl)

end

interpretation log_file_store: line_store "\<lambda>lf w. os_ok w \<and> LogFile_inv lf" journal_text same_os LogFile_Append
proof
  show "\<exists>f' w'. LogFile_Append m f w = Inr (f', w') \<and> (os_ok w' \<and> LogFile_inv f') \<and> same_os w w'
      \<and> journal_text w' = journal_text w @ m"
    if "os_ok w \<and> LogFile_inv f" for f w m
    using that AppendUnLocked_ok [of w f m] by (auto simp: LogFile_Append_def dest: same_os_ok)
qed (auto dest: same_os_trans)

lemmas LogFile_Append_ok = log_file_store.put_ok [OF conjI]

abbreviation append_all :: "string list \<Rightarrow> LogFile \<Rightarrow> os \<Rightarrow> (LogFile \<times> os) result" where
  "append_all \<equiv> append_list LogFile_Append"

lemmas append_all_ok = log_file_store.append_list_ok [OF conjI]

text \<open>An append counts up by one or, when the file is full, not at all.\<close>

lemma sint_count_up: "sint (c :: cint) + 1 < 2 ^ 31 \<Longrightarrow> sint (c + 1) = sint c + 1"
  using sint_ge [of c] by (simp add: sint_word_ariths signed_take_bit_int_eq_self)

lemma append_counts:
  assumes "os_ok w" and "LogFile_inv lf" and a: "LogFile_Append m lf w = Inr (lf', w')"
  shows "lf_count lf' = lf_count lf \<or> lf_count lf' = lf_count lf + 1"
proof -
  obtain f where f: "lf_file lf = Some f" using assms(2) by (auto simp: LogFile_inv_def)
  obtain f1 w1 where b: "FileUtil_Append m f w = (f1, w1)" by fastforce
  have ok: "os_ok w1" using FileUtil_Append_text [OF assms(1) b] same_os_ok assms(1) by blast
  let ?w2 = "w1\<lparr>os_reads := Suc (os_reads w1)\<rparr>"
  have ok2: "os_ok ?w2" using ok by (simp add: os_ok_def)
  show ?thesis
    using a f b RollFile_ok [OF ok, of "lf\<lparr>lf_file := Some f1\<rparr>"]
      RollFile_ok [OF ok2, of "lf\<lparr>lf_file := Some f1, lf_count := lf_count lf + 1\<rparr>"]
    by (auto simp: LogFile_Append_def AppendUnLocked_def os_now_def Let_def rolled_def split: if_splits)
qed

lemma append_all_counts:
  "os_ok w \<Longrightarrow> LogFile_inv lf \<Longrightarrow> append_all ms lf w = Inr (lf', w') \<Longrightarrow> sint (lf_count lf) + int (length ms) < 2 ^ 31
    \<Longrightarrow> sint (lf_count lf) \<le> sint (lf_count lf') \<and> sint (lf_count lf') \<le> sint (lf_count lf) + int (length ms)"
proof (induction ms arbitrary: lf w)
  case (Cons m ms)
  obtain lf1 w1 where a: "LogFile_Append m lf w = Inr (lf1, w1)" "LogFile_inv lf1" "same_os w w1"
    using AppendUnLocked_ok [OF Cons.prems(1,2), of m] by (auto simp: LogFile_Append_def)
  have rest: "append_all ms lf1 w1 = Inr (lf', w')" using Cons.prems(3) a(1) by simp
  have "sint (lf_count lf1) = sint (lf_count lf) \<or> sint (lf_count lf1) = sint (lf_count lf) + 1"
    using append_counts [OF Cons.prems(1,2) a(1)] sint_count_up [of "lf_count lf"] Cons.prems(4) by auto
  then show ?case
    using Cons.IH [OF same_os_ok [OF a(3) Cons.prems(1)] a(2) rest] Cons.prems(4) by auto
qed simp

text \<open>An append reads the clock when the file is full, and always once the count has been reached.\<close>

lemma append_reads_clock:
  assumes "os_ok w" and "LogFile_inv lf" and "check_every_n lf - 1 \<le> sint (lf_count lf)"
    and "sint (lf_count lf) + 1 < 2 ^ 31" and a: "LogFile_Append m lf w = Inr (lf', w')"
  shows "os_reads w < os_reads w' \<and> check_every_n lf' - 1 \<le> sint (lf_count lf')
    \<and> sint (lf_count lf') \<le> sint (lf_count lf) + 1"
proof -
  obtain f where f: "lf_file lf = Some f" using assms(2) by (auto simp: LogFile_inv_def)
  obtain f1 w1 where b: "FileUtil_Append m f w = (f1, w1)" by fastforce
  note t = FileUtil_Append_text [OF assms(1) b]
  have ok: "os_ok w1" using t same_os_ok assms(1) by blast
  let ?w2 = "w1\<lparr>os_reads := Suc (os_reads w1)\<rparr>"
  have ok2: "os_ok ?w2" using ok by (simp add: os_ok_def)
  show ?thesis
    using a f b t assms(3) sint_count_up [OF assms(4)] RollFile_ok [OF ok, of "lf\<lparr>lf_file := Some f1\<rparr>"]
      RollFile_ok [OF ok2, of "lf\<lparr>lf_file := Some f1, lf_count := lf_count lf + 1\<rparr>"]
    by (auto simp: LogFile_Append_def AppendUnLocked_def os_now_def Let_def FileUtil_Flush_def rolled_def split: if_splits)
qed

lemma append_all_reads_clock:
  "os_ok w \<Longrightarrow> LogFile_inv lf \<Longrightarrow> check_every_n lf - 1 \<le> sint (lf_count lf)
    \<Longrightarrow> sint (lf_count lf) + int (length ms) < 2 ^ 31 \<Longrightarrow> append_all ms lf w = Inr (lf', w')
    \<Longrightarrow> os_reads w + length ms \<le> os_reads w'"
proof (induction ms arbitrary: lf w)
  case (Cons m ms)
  obtain lf1 w1 where a: "LogFile_Append m lf w = Inr (lf1, w1)" "LogFile_inv lf1" "same_os w w1"
    using AppendUnLocked_ok [OF Cons.prems(1,2), of m] by (auto simp: LogFile_Append_def)
  have "append_all ms lf1 w1 = Inr (lf', w')" using Cons.prems(5) a(1) by simp
  note rest = Cons.IH [OF same_os_ok [OF a(3) Cons.prems(1)] a(2) _ _ this]
  have "sint (lf_count lf) + 1 < 2 ^ 31" using Cons.prems(4) by simp
  from append_reads_clock [OF Cons.prems(1-3) this a(1)] rest Cons.prems(4)
  show ?case by simp
qed simp

subsection \<open>Properties\<close>

text \<open>
  C15: A log file that could be created takes any messages, fewer than \<open>2 ^ 31\<close> of them, without a
  fault or an overflow of its counter, and what is written to its streams, across every roll to a new file, is the messages in their order, each
  once and whole, also where a write of the system takes only a part. At any time no more than the last 64 KB of them have yet to reach the files, and
  after Flush, or when the log file is destroyed, all of them have.
\<close>

theorem LogFile_keeps_everything:
  assumes "os_ok w" and "disk_ok w" and "bld = Debug \<longrightarrow> CHR ''/'' \<notin> set base" and "length msgs < 2 ^ 31"
  shows "\<exists>lf w'. bindR (LogFile_new bld base roll safe interval every w) (\<lambda>(lf, w1). append_all msgs lf w1) = Inr (lf, w')
    \<and> journal_text w' = journal_text w @ concat msgs
    \<and> 0 \<le> sint (lf_count lf) \<and> sint (lf_count lf) \<le> int (length msgs)
    \<and> (\<exists>rest. journal_text w' = saved_text w' @ rest \<and> length rest \<le> stdio_buffer_size)
    \<and> (\<exists>w''. LogFile_Flush lf w' = Inr w'' \<and> saved_text w'' = journal_text w')
    \<and> saved_text (LogFile_destroy lf w') = journal_text w'"
proof -
  obtain lf1 w1 where n: "LogFile_new bld base roll safe interval every w = Inr (lf1, w1)" "LogFile_inv lf1" "same_os w w1"
      "journal_text w1 = journal_text w" "lf_count lf1 = 0"
    using LogFile_new_ok [OF assms(1,3)] by blast
  obtain lf w' where a: "append_all msgs lf1 w1 = Inr (lf, w')" "LogFile_inv lf" "same_os w1 w'"
      "journal_text w' = journal_text w @ concat msgs"
    using append_all_ok [OF same_os_ok [OF n(3) assms(1)] n(2), of msgs] n(4) by auto
  have "0 \<le> sint (lf_count lf) \<and> sint (lf_count lf) \<le> int (length msgs)"
    using append_all_counts [OF same_os_ok [OF n(3) assms(1)] n(2) a(1)] n(5) assms(4) by simp
  moreover have "disk_ok w'" using assms(2) n(3) a(3) by (simp add: same_os_def)
  moreover obtain f where "lf_file lf = Some f" using a(2) by (auto simp: LogFile_inv_def)
  ultimately show ?thesis
    using n(1) a(1,4) disk_ok_saved [of w'] by (simp add: LogFile_Flush_def LogFile_destroy_def drop_file_def)
qed

text \<open>One second passes with every reading of the clock, and \<open>fwrite\<close> takes two bytes at a time.\<close>

definition slow_os :: os where
  "slow_os = \<lparr>os_clock = (\<lambda>i. 1700000000000000000 + int i * 1000000000), os_reads = 0,
     os_localtime = (\<lambda>s. Some \<lparr>tm_year = 123, tm_mon = 10, tm_mday = 14, tm_hour = 22, tm_min = 13, tm_sec = s mod 60\<rparr>),
     os_host = Some ''host'', os_pid = 42, os_fopen = (\<lambda>_. True), os_fwrite = (\<lambda>_ n. min n 2), os_writes = 0,
     os_journal = [], os_drain = (\<lambda>_. 0), os_saved = 0\<rparr>"

lemma slow_os_ok: "os_ok slow_os" "disk_ok slow_os" "os_saved slow_os = 0" "journal_text slow_os = []"
  by (simp_all add: os_ok_def slow_os_def disk_ok_def journal_text_def)

theorem LogFile_keeps_everything_witness:
  "\<exists>lf w'. bindR (LogFile_new Debug ''turbo'' 4 False 3 1024 slow_os) (\<lambda>(lf, w1). append_all [''hello'', ''world''] lf w1)
      = Inr (lf, w') \<and> journal_text w' = ''helloworld''"
  using LogFile_keeps_everything [OF slow_os_ok(1,2), of Debug "''turbo''" "[''hello'', ''world'']" 4 False 3 1024]
  by (auto simp: slow_os_ok)

text \<open>
  The size limit: an append that takes the file above the roll size starts a new, empty file
  if the second has changed since the last roll and goes on in the same file otherwise, so within
  one second a file grows beyond any limit; an append that stays below it, before the count of
  messages is reached, neither rolls nor looks at the clock.
\<close>

theorem LogFile_rolls_when_full:
  assumes "os_ok w" and "lf_file lf = Some f"
  shows "\<exists>lf' w' f'. LogFile_Append m lf w = Inr (lf', w') \<and> lf_file lf' = Some f'
    \<and> (let size = written_bytes f + int (length m); now = Timestamp (os_clock w (os_reads w)) in
       if size > roll_size lf
       then written_bytes f' = (if TimeSinceEpochSeconds now > last_roll lf then 0 else size)
         \<and> last_roll lf' = max (last_roll lf) (TimeSinceEpochSeconds now)
       else sint (lf_count lf + 1) < check_every_n lf \<longrightarrow> f' = f\<lparr>written_bytes := size\<rparr> \<and> os_reads w' = os_reads w)"
proof -
  obtain f1 w1 where b: "FileUtil_Append m f w = (f1, w1)" by fastforce
  note t = FileUtil_Append_text [OF assms(1) b]
  have f1: "f1 = f\<lparr>written_bytes := written_bytes f + int (length m)\<rparr>"
    using b by (auto simp: FileUtil_Append_def Let_def split: prod.splits)
  have ok: "os_ok w1" "os_clock w1 = os_clock w" using t same_os_ok assms(1) by (auto simp: same_os_def)
  have inv: "LogFile_inv lf" using assms(2) by (simp add: LogFile_inv_def)
  obtain lf' w' where a: "LogFile_Append m lf w = Inr (lf', w')" "LogFile_inv lf'"
    using AppendUnLocked_ok [OF assms(1) inv, of m] by (auto simp: LogFile_Append_def)
  then obtain f' where f': "lf_file lf' = Some f'" by (auto simp: LogFile_inv_def)
  show ?thesis
  proof (cases "written_bytes f + int (length m) > roll_size lf")
    case True
    then have "LogFile_Append m lf w = RollFile (lf\<lparr>lf_file := Some f1\<rparr>) w1"
      by (simp add: LogFile_Append_def AppendUnLocked_def assms(2) b f1 WrittenBytes_def)
    moreover obtain name w2 where "RollFile (lf\<lparr>lf_file := Some f1\<rparr>) w1
        = Inr (rolled name (Timestamp (os_clock w (os_reads w))) (lf\<lparr>lf_file := Some f1\<rparr>), w2)"
      using RollFile_ok [OF ok(1), of "lf\<lparr>lf_file := Some f1\<rparr>"] ok(2) t by auto
    ultimately show ?thesis using True by (auto simp: f1 rolled_def Let_def)
  next
    case False
    show ?thesis
    proof (cases "sint (lf_count lf + 1) < check_every_n lf")
      case small: True
      have "LogFile_Append m lf w = Inr (lf\<lparr>lf_file := Some f1, lf_count := lf_count lf + 1\<rparr>, w1)"
        using False small by (simp add: LogFile_Append_def AppendUnLocked_def assms(2) b f1 WrittenBytes_def Let_def)
      then show ?thesis using False t by (simp add: f1)
    qed (use a(1) f' False in simp)
  qed
qed

theorem LogFile_rolls_when_full_witness:
  "\<exists>lf' w' f'. LogFile_Append ''hello'' \<lparr>base_name = ''turbo'', roll_size = 4, flush_interval = 3, check_every_n = 1024,
      lf_count = 0, lf_file = Some \<lparr>fu_name = ''a'', written_bytes = 0\<rparr>, thread_safe = False, start_period = 0,
      last_roll = 0, last_flush = 0\<rparr> slow_os = Inr (lf', w') \<and> lf_file lf' = Some f' \<and> written_bytes f' = 0"
proof -
  let ?lf = "\<lparr>base_name = ''turbo'', roll_size = 4, flush_interval = 3, check_every_n = 1024,
      lf_count = 0, lf_file = Some \<lparr>fu_name = ''a'', written_bytes = 0\<rparr>, thread_safe = False, start_period = 0,
      last_roll = 0, last_flush = 0\<rparr>"
  have "0 < TimeSinceEpochSeconds (Timestamp (os_clock slow_os (os_reads slow_os)))"
    by (simp add: slow_os_def TimeSinceEpochSeconds_def duration_cast_def signed_divide_int_def)
  then show ?thesis
    using LogFile_rolls_when_full [OF slow_os_ok(1), of ?lf "\<lparr>fu_name = ''a'', written_bytes = 0\<rparr>" "''hello''"]
    by (auto simp: Let_def)
qed

text \<open>
  The count of messages is never set back: once it has reached the number after which the
  clock is to be checked, every further append reads the clock, as long as the count does not
  overflow.
\<close>

theorem LogFile_checks_clock_forever:
  assumes "os_ok w" and "LogFile_inv lf" and "check_every_n lf - 1 \<le> sint (lf_count lf)"
    and "sint (lf_count lf) + int (length msgs) < 2 ^ 31"
  shows "\<exists>lf' w'. append_all msgs lf w = Inr (lf', w') \<and> os_reads w + length msgs \<le> os_reads w'"
  using append_all_ok [OF assms(1,2)] append_all_reads_clock [OF assms] by blast

theorem LogFile_checks_clock_forever_witness:
  "\<exists>lf' w'. append_all [''a'', ''b'', ''c''] \<lparr>base_name = ''turbo'', roll_size = 1000, flush_interval = 3,
      check_every_n = 2, lf_count = 1, lf_file = Some \<lparr>fu_name = ''a'', written_bytes = 0\<rparr>, thread_safe = False,
      start_period = 20000, last_roll = 1700000000, last_flush = 1700000000\<rparr> slow_os = Inr (lf', w') \<and> 3 \<le> os_reads w'"
  using LogFile_checks_clock_forever [OF slow_os_ok(1), of "\<lparr>base_name = ''turbo'', roll_size = 1000, flush_interval = 3,
      check_every_n = 2, lf_count = 1, lf_file = Some \<lparr>fu_name = ''a'', written_bytes = 0\<rparr>, thread_safe = False,
      start_period = 20000, last_roll = 1700000000, last_flush = 1700000000\<rparr>" "[''a'', ''b'', ''c'']"]
  by (simp add: LogFile_inv_def slow_os_def numeral_3_eq_3 del: append_list.simps)

end
