(* ===== verification/Logger_Async.thy ===== *)
theory Logger_Async
  imports Logger_File Logger_Stream Turbo_Steps
begin

section \<open>logger/async\_logging: the double-buffered queue\<close>

text \<open>
  \<open>AsyncLogging\<close> (\<open>src/logger/async_logging.cpp\<close>): threads append to a current buffer, a background
  thread takes the filled buffers away and writes them to a \<open>LogFile\<close>. A \<open>std::unique_ptr\<close> is an
  option, \<open>std::move\<close> leaves \<open>None\<close>, and using a null one is undefined behaviour. One step is one
  critical section of the mutex, or one stretch of the background thread between two of them.
  Between the check of \<open>running_\<close> at the head of its loop and taking the buffers the background
  thread may wait on the condition, so other threads run in between. The size of a buffer is a
  parameter: \<open>kLargeBuffer\<close> in the program. Three fields are for the properties only: what Append
  has accepted, whether the background thread has dropped buffers, and the build.
\<close>

type_synonym BufferPtr = "FixedBuffer option"

datatype worker_pc = Not_started | Created | Loop_head | In_loop | Taken | Finished

record AsyncLogging =
  al_build :: build
  al_size :: nat
  al_base :: string
  al_roll :: int
  running :: bool
  current_buffer :: BufferPtr
  next_buffer :: BufferPtr
  buffers :: "BufferPtr list"
  worker :: worker_pc
  al_joined :: bool
  new_buffer_1 :: BufferPtr
  new_buffer_2 :: BufferPtr
  buffers_to_write :: "BufferPtr list"
  log_output :: "LogFile option"
  al_os :: os
  accepted_text :: string
  dropped :: bool

definition deref :: "'a option \<Rightarrow> 'a result" where
  "deref p = (case p of None \<Rightarrow> Inl Undefined_behaviour | Some x \<Rightarrow> Inr x)"

definition make_buffer :: "nat \<Rightarrow> BufferPtr" where
  "make_buffer SIZE = Some (FixedBuffer_BZero (FixedBuffer_new SIZE))"

definition AsyncLogging_new :: "build \<Rightarrow> nat \<Rightarrow> string \<Rightarrow> int \<Rightarrow> os \<Rightarrow> AsyncLogging" where
  "AsyncLogging_new bld SIZE base roll w =
     \<lparr>al_build = bld, al_size = SIZE, al_base = base, al_roll = roll, running = False,
      current_buffer = make_buffer SIZE, next_buffer = make_buffer SIZE, buffers = [], worker = Not_started, al_joined = False,
      new_buffer_1 = None, new_buffer_2 = None, buffers_to_write = [], log_output = None, al_os = w,
      accepted_text = [], dropped = False\<rparr>"

text \<open>What a buffer of \<open>SIZE\<close> bytes takes: its \<open>Append\<close> wants one byte to spare.\<close>

definition note_accepted :: "string \<Rightarrow> AsyncLogging \<Rightarrow> AsyncLogging" where
  "note_accepted data s =
     (if length data < al_size s then s\<lparr>accepted_text := accepted_text s @ data\<rparr> else s)"

definition AsyncLogging_Append :: "string \<Rightarrow> AsyncLogging \<Rightarrow> AsyncLogging result" where
  "AsyncLogging_Append data s =
     bindR (deref (current_buffer s)) (\<lambda>cur.
       if FixedBuffer_Avail cur > sint (of_nat (length data) :: cint)
       then bindR (FixedBuffer_Append data cur) (\<lambda>cur'.
              Inr (note_accepted data (s\<lparr>current_buffer := Some cur'\<rparr>)))
       else let s1 = s\<lparr>buffers := buffers s @ [current_buffer s], current_buffer := None\<rparr>;
                s2 = (if next_buffer s1 \<noteq> None then s1\<lparr>current_buffer := next_buffer s1, next_buffer := None\<rparr>
                      else s1\<lparr>current_buffer := Some (FixedBuffer_new (al_size s1))\<rparr>)
            in bindR (deref (current_buffer s2)) (\<lambda>cur2.
               bindR (FixedBuffer_Append data cur2) (\<lambda>cur'.
                 Inr (note_accepted data (s2\<lparr>current_buffer := Some cur'\<rparr>)))))"

text \<open>
  \<open>Start\<close> starts the thread, which asserts that it was not started before. In a Release build a
  second thread replaces the \<open>std::thread\<close>, which ends the process when that was not joined.
\<close>

definition AsyncLogging_Start :: "AsyncLogging \<Rightarrow> AsyncLogging result" where
  "AsyncLogging_Start s =
     bindR (assertR (al_build s) (worker s = Not_started)) (\<lambda>_.
       if worker s \<noteq> Not_started \<and> \<not> al_joined s then Inl Process_aborted
       else Inr (s\<lparr>running := True, worker := Created\<rparr>))"

text \<open>
  \<open>Stop\<close> up to the join, which comes back when the thread has finished. Joining a thread that was
  not started or was joined before fails an assertion; in a Release build it follows a null
  pointer, and \<open>std::thread::join\<close> throws.
\<close>

definition AsyncLogging_Stop :: "AsyncLogging \<Rightarrow> AsyncLogging result" where
  "AsyncLogging_Stop s =
     bindR (assertR (al_build s) (worker s \<noteq> Not_started \<and> \<not> al_joined s)) (\<lambda>_.
       if worker s = Not_started then Inl Undefined_behaviour
       else if al_joined s then Inl System_error
       else Inr (s\<lparr>running := False, al_joined := True\<rparr>))"

definition AsyncLogging_destroy :: "AsyncLogging \<Rightarrow> AsyncLogging result" where
  "AsyncLogging_destroy s = (if running s then AsyncLogging_Stop s else Inr s)"

subsection \<open>ThreadFunc\<close>

text \<open>Before the loop.\<close>

definition worker_enter :: "AsyncLogging \<Rightarrow> AsyncLogging result" where
  "worker_enter s =
     bindR (assertR (al_build s) (running s)) (\<lambda>_.
     bindR (LogFile_new (al_build s) (al_base s) (al_roll s) False 3 1024 (al_os s)) (\<lambda>(output, w).
       Inr (s\<lparr>log_output := Some output, al_os := w, new_buffer_1 := make_buffer (al_size s),
              new_buffer_2 := make_buffer (al_size s), buffers_to_write := [], worker := Loop_head\<rparr>)))"

definition assert_fresh :: "build \<Rightarrow> BufferPtr \<Rightarrow> unit result" where
  "assert_fresh bld p = assertR bld (case p of None \<Rightarrow> False | Some b \<Rightarrow> FixedBuffer_Length b = 0)"

definition worker_check :: "AsyncLogging \<Rightarrow> AsyncLogging" where
  "worker_check s = s\<lparr>worker := In_loop\<rparr>"

text \<open>The assertions of the loop and its critical section.\<close>

definition worker_take :: "AsyncLogging \<Rightarrow> AsyncLogging result" where
  "worker_take s =
     bindR (assert_fresh (al_build s) (new_buffer_1 s)) (\<lambda>_.
     bindR (assert_fresh (al_build s) (new_buffer_2 s)) (\<lambda>_.
     bindR (assertR (al_build s) (buffers_to_write s = [])) (\<lambda>_.
       let s1 = s\<lparr>buffers := buffers s @ [current_buffer s], current_buffer := new_buffer_1 s, new_buffer_1 := None\<rparr>;
           s2 = s1\<lparr>buffers_to_write := buffers s1, buffers := buffers_to_write s1\<rparr>;
           s3 = (if next_buffer s2 = None then s2\<lparr>next_buffer := new_buffer_2 s2, new_buffer_2 := None\<rparr> else s2)
       in Inr (s3\<lparr>worker := Taken\<rparr>))))"

fun write_buffers :: "BufferPtr list \<Rightarrow> LogFile \<Rightarrow> os \<Rightarrow> (LogFile \<times> os) result" where
  "write_buffers [] lf w = Inr (lf, w)"
| "write_buffers (p # ps) lf w =
     bindR (deref p) (\<lambda>b.
     bindR (LogFile_Append (FixedBuffer_ToString b) lf w) (\<lambda>(lf1, w1). write_buffers ps lf1 w1))"

text \<open>More than 25 buffers: a note goes to the file and all but two buffers are dropped.\<close>

definition drop_message :: "string \<Rightarrow> nat \<Rightarrow> string" where
  "drop_message date n =
     snprintf_text 256 (''Drop log messages at '' @ date @ '', '' @ dec_nat (n - 2) @ '' larger buffers'' @ [CHR 0x0A])"

definition drop_excess :: "BufferPtr list \<Rightarrow> LogFile \<Rightarrow> os \<Rightarrow> (BufferPtr list \<times> LogFile \<times> os) result" where
  "drop_excess bs lf w =
     (if length bs > 25
      then let (now, w1) = os_now w in
           bindR (ToFormatString (os_localtime w1) False now) (\<lambda>date.
           bindR (LogFile_Append (drop_message date (length bs)) lf w1) (\<lambda>(lf1, w2). Inr (take 2 bs, lf1, w2)))
      else Inr (bs, lf, w))"

text \<open>A buffer pointer that was given away is refilled from the written ones.\<close>

definition refill :: "build \<Rightarrow> BufferPtr \<Rightarrow> BufferPtr list \<Rightarrow> (BufferPtr \<times> BufferPtr list) result" where
  "refill bld p bs =
     (if p = None
      then bindR (assertR bld (bs \<noteq> [])) (\<lambda>_.
           if bs = [] then Inl Undefined_behaviour
           else bindR (deref (last bs)) (\<lambda>b. Inr (Some (FixedBuffer_Reset b), butlast bs)))
      else Inr (p, bs))"

text \<open>The rest of the loop body, outside the critical section.\<close>

definition worker_write :: "AsyncLogging \<Rightarrow> AsyncLogging result" where
  "worker_write s =
     bindR (assertR (al_build s) (buffers_to_write s \<noteq> [])) (\<lambda>_.
     bindR (deref (log_output s)) (\<lambda>output.
     bindR (drop_excess (buffers_to_write s) output (al_os s)) (\<lambda>(bs, lf, w).
     bindR (write_buffers bs lf w) (\<lambda>(lf1, w1).
     bindR (refill (al_build s) (new_buffer_1 s) bs) (\<lambda>(nb1, bs1).
     bindR (refill (al_build s) (new_buffer_2 s) bs1) (\<lambda>(nb2, bs2).
     bindR (LogFile_Flush lf1 w1) (\<lambda>w2.
       Inr (s\<lparr>new_buffer_1 := nb1, new_buffer_2 := nb2, buffers_to_write := [], log_output := Some lf1, al_os := w2,
              worker := Loop_head, dropped := (dropped s \<or> length (buffers_to_write s) > 25)\<rparr>))))))))"

text \<open>After the loop; at its end the function destroys its log file.\<close>

definition worker_exit :: "AsyncLogging \<Rightarrow> AsyncLogging result" where
  "worker_exit s =
     bindR (deref (log_output s)) (\<lambda>lf. bindR (LogFile_Flush lf (al_os s)) (\<lambda>w.
       Inr (s\<lparr>al_os := LogFile_destroy lf w, log_output := None, worker := Finished\<rparr>)))"

subsection \<open>All interleavings\<close>

inductive async_step :: "AsyncLogging \<Rightarrow> AsyncLogging \<Rightarrow> bool" where
  do_append: "length data < 2 ^ 31 \<Longrightarrow> AsyncLogging_Append data s = Inr s' \<Longrightarrow> async_step s s'"
| do_start: "worker s = Not_started \<Longrightarrow> AsyncLogging_Start s = Inr s' \<Longrightarrow> async_step s s'"
| do_enter: "worker s = Created \<Longrightarrow> worker_enter s = Inr s' \<Longrightarrow> async_step s s'"
| do_check: "worker s = Loop_head \<Longrightarrow> running s \<Longrightarrow> async_step s (worker_check s)"
| do_take: "worker s = In_loop \<Longrightarrow> worker_take s = Inr s' \<Longrightarrow> async_step s s'"
| do_write: "worker s = Taken \<Longrightarrow> worker_write s = Inr s' \<Longrightarrow> async_step s s'"
| do_stop: "worker s \<in> {Loop_head, In_loop, Taken, Finished} \<Longrightarrow> AsyncLogging_Stop s = Inr s' \<Longrightarrow> async_step s s'"
| do_exit: "worker s = Loop_head \<Longrightarrow> \<not> running s \<Longrightarrow> worker_exit s = Inr s' \<Longrightarrow> async_step s s'"

inductive_cases async_stepE: "async_step s s'"

text \<open>The next action of the background thread.\<close>

fun background_action :: "worker_pc \<Rightarrow> AsyncLogging \<Rightarrow> AsyncLogging result option" where
  "background_action Not_started s = None"
| "background_action Created s = Some (worker_enter s)"
| "background_action Loop_head s = Some (if running s then Inr (worker_check s) else worker_exit s)"
| "background_action In_loop s = Some (worker_take s)"
| "background_action Taken s = Some (worker_write s)"
| "background_action Finished s = None"

definition background_step :: "AsyncLogging \<Rightarrow> AsyncLogging \<Rightarrow> bool" where
  "background_step s s' \<longleftrightarrow> background_action (worker s) s = Some (Inr s')"

lemma background_async: "background_step s s' \<Longrightarrow> async_step s s'"
  by (cases "worker s") (auto simp: background_step_def intro: do_enter do_check do_take do_write do_exit split: if_splits)

definition async_init :: "build \<Rightarrow> nat \<Rightarrow> AsyncLogging \<Rightarrow> bool" where
  "async_init bld SIZE s \<longleftrightarrow> 0 < SIZE \<and> SIZE < 2 ^ 31 \<and> (\<exists>base roll w. os_ok w \<and> os_journal w = [] \<and> os_saved w = 0
     \<and> CHR ''/'' \<notin> set base \<and> s = AsyncLogging_new bld SIZE base roll w)"

subsection \<open>Invariant\<close>

definition buf_ok :: "nat \<Rightarrow> BufferPtr \<Rightarrow> bool" where
  "buf_ok SIZE p \<longleftrightarrow> (\<exists>b. p = Some b \<and> FixedBuffer_inv b \<and> length (fb_data b) = SIZE)"

definition fresh_ok :: "nat \<Rightarrow> BufferPtr \<Rightarrow> bool" where
  "fresh_ok SIZE p \<longleftrightarrow> (\<exists>b. p = Some b \<and> FixedBuffer_inv b \<and> length (fb_data b) = SIZE \<and> fb_cur b = 0)"

definition ptr_text :: "BufferPtr \<Rightarrow> string" where
  "ptr_text p = (case p of None \<Rightarrow> [] | Some b \<Rightarrow> FixedBuffer_ToString b)"

definition bufs_text :: "BufferPtr list \<Rightarrow> string" where
  "bufs_text ps = concat (map ptr_text ps)"

lemma bufs_text_simps [simp]:
  "bufs_text [] = []" "bufs_text (p # ps) = ptr_text p @ bufs_text ps" "bufs_text (ps @ qs) = bufs_text ps @ bufs_text qs"
  by (simp_all add: bufs_text_def)

lemma ptr_text_simps [simp]: "ptr_text None = []" "ptr_text (Some b) = FixedBuffer_ToString b"
  by (simp_all add: ptr_text_def)

lemma fresh_is_ok: "fresh_ok SIZE p \<Longrightarrow> buf_ok SIZE p"
  by (auto simp: fresh_ok_def buf_ok_def)

lemma fresh_text: "fresh_ok SIZE p \<Longrightarrow> ptr_text p = []"
  by (auto simp: fresh_ok_def FixedBuffer_ToString_def)

definition queue_inv :: "AsyncLogging \<Rightarrow> bool" where
  "queue_inv s \<longleftrightarrow> 0 < al_size s \<and> al_size s < 2 ^ 31 \<and> buf_ok (al_size s) (current_buffer s)
     \<and> (next_buffer s = None \<or> fresh_ok (al_size s) (next_buffer s))
     \<and> (\<forall>p \<in> set (buffers s). buf_ok (al_size s) p) \<and> (next_buffer s = None \<longrightarrow> buffers s \<noteq> [])"

fun has_output :: "worker_pc \<Rightarrow> bool" where
  "has_output Loop_head = True"
| "has_output In_loop = True"
| "has_output Taken = True"
| "has_output p = False"

fun at_loop :: "worker_pc \<Rightarrow> bool" where
  "at_loop Loop_head = True"
| "at_loop In_loop = True"
| "at_loop p = False"

lemma at_loop_not: "at_loop p \<Longrightarrow> p \<noteq> Taken \<and> p \<noteq> Created \<and> p \<noteq> Finished \<and> p \<noteq> Not_started \<and> has_output p"
  by (cases p) auto

definition worker_inv :: "AsyncLogging \<Rightarrow> bool" where
  "worker_inv s \<longleftrightarrow> os_ok (al_os s) \<and> CHR ''/'' \<notin> set (al_base s) \<and> os_saved (al_os s) = length (journal_text (al_os s))
     \<and> (worker s = Created \<longrightarrow> running s) \<and> (worker s = Not_started \<longrightarrow> \<not> al_joined s)
     \<and> (worker s \<noteq> Not_started \<longrightarrow> running s = (\<not> al_joined s)) \<and> (worker s \<in> {Not_started, Finished} \<longrightarrow> \<not> running s)
     \<and> (has_output (worker s) \<longrightarrow> (\<exists>lf. log_output s = Some lf \<and> LogFile_inv lf))
     \<and> (worker s \<noteq> Taken \<longrightarrow> buffers_to_write s = [])
     \<and> (at_loop (worker s) \<longrightarrow> fresh_ok (al_size s) (new_buffer_1 s) \<and> fresh_ok (al_size s) (new_buffer_2 s))
     \<and> (worker s = Taken \<longrightarrow> new_buffer_1 s = None \<and> buffers_to_write s \<noteq> []
          \<and> (\<forall>p \<in> set (buffers_to_write s). buf_ok (al_size s) p)
          \<and> (new_buffer_2 s = None \<and> 2 \<le> length (buffers_to_write s) \<or> fresh_ok (al_size s) (new_buffer_2 s)))"

definition pending_text :: "AsyncLogging \<Rightarrow> string" where
  "pending_text s = bufs_text (buffers_to_write s) @ bufs_text (buffers s) @ ptr_text (current_buffer s)"

definition text_inv :: "AsyncLogging \<Rightarrow> bool" where
  "text_inv s \<longleftrightarrow> (\<not> dropped s \<longrightarrow> accepted_text s = journal_text (al_os s) @ pending_text s)"

lemma make_buffer_fresh: "SIZE < 2 ^ 31 \<Longrightarrow> fresh_ok SIZE (make_buffer SIZE)"
  by (simp add: fresh_ok_def make_buffer_def FixedBuffer_BZero_def FixedBuffer_new_def FixedBuffer_inv_def)

lemma new_buffer_fresh: "SIZE < 2 ^ 31 \<Longrightarrow> fresh_ok SIZE (Some (FixedBuffer_new SIZE))"
  by (simp add: fresh_ok_def FixedBuffer_new_def FixedBuffer_inv_def)

lemma sint_length: "n < 2 ^ 31 \<Longrightarrow> sint (of_nat n :: cint) = int n"
  by (simp add: signed_of_nat signed_take_bit_int_eq_self)

lemma append_fresh:
  assumes "fresh_ok SIZE p"
  shows "\<exists>b b'. p = Some b \<and> FixedBuffer_Append data b = Inr b' \<and> buf_ok SIZE (Some b')
    \<and> ptr_text (Some b') = (if length data < SIZE then data else [])"
proof -
  obtain b where b: "p = Some b" "FixedBuffer_inv b" "length (fb_data b) = SIZE" "fb_cur b = 0"
    using assms by (auto simp: fresh_ok_def)
  then show ?thesis
    by (auto simp: FixedBuffer_Append_def unat_Avail buf_ok_def FixedBuffer_inv_def FixedBuffer_ToString_def poke_def)
qed

lemma append_room:
  assumes "buf_ok SIZE (Some b)" and "int (length data) < FixedBuffer_Avail b"
  shows "\<exists>b'. FixedBuffer_Append data b = Inr b' \<and> buf_ok SIZE (Some b') \<and> ptr_text (Some b') = ptr_text (Some b) @ data
    \<and> length data < SIZE"
proof -
  have inv: "FixedBuffer_inv b" "length (fb_data b) = SIZE" using assms(1) by (auto simp: buf_ok_def)
  then have "length data < fb_free b" using assms(2) by (simp add: Avail_free)
  moreover from this inv have "fb_cur b + length data \<le> length (fb_data b)" "length data < SIZE" by (auto simp: FixedBuffer_inv_def)
  ultimately show ?thesis
    using inv by (auto simp: FixedBuffer_Append_def unat_Avail buf_ok_def FixedBuffer_inv_def FixedBuffer_ToString_def take_poke)
qed

subsection \<open>Append\<close>

text \<open>\<open>Append\<close> changes nothing the background thread owns.\<close>

definition same_worker :: "AsyncLogging \<Rightarrow> AsyncLogging \<Rightarrow> bool" where
  "same_worker s s' \<longleftrightarrow> al_build s' = al_build s \<and> al_size s' = al_size s \<and> al_base s' = al_base s \<and> running s' = running s
     \<and> worker s' = worker s \<and> al_joined s' = al_joined s \<and> new_buffer_1 s' = new_buffer_1 s \<and> new_buffer_2 s' = new_buffer_2 s
     \<and> buffers_to_write s' = buffers_to_write s \<and> log_output s' = log_output s \<and> al_os s' = al_os s \<and> dropped s' = dropped s"

lemma AsyncLogging_Append_ok:
  assumes inv: "queue_inv s" and len: "length data < 2 ^ 31"
  shows "\<exists>s'. AsyncLogging_Append data s = Inr s' \<and> queue_inv s' \<and> same_worker s s'
    \<and> (let new = if length data < al_size s then data else [] in
         accepted_text s' = accepted_text s @ new \<and> pending_text s' = pending_text s @ new)"
proof -
  obtain cur where cur: "current_buffer s = Some cur" "buf_ok (al_size s) (Some cur)"
    using inv by (auto simp: queue_inv_def buf_ok_def)
  show ?thesis
  proof (cases "int (length data) < FixedBuffer_Avail cur")
    case True
    obtain b' where "FixedBuffer_Append data cur = Inr b'" "buf_ok (al_size s) (Some b')"
        "ptr_text (Some b') = ptr_text (Some cur) @ data" "length data < al_size s"
      using append_room [OF cur(2) True] by blast
    then have "AsyncLogging_Append data s = Inr (s\<lparr>current_buffer := Some b', accepted_text := accepted_text s @ data\<rparr>)"
      using True cur(1) by (simp add: AsyncLogging_Append_def deref_def sint_length [OF len] note_accepted_def)
    then show ?thesis
      using inv cur(1) \<open>buf_ok (al_size s) (Some b')\<close> \<open>ptr_text (Some b') = ptr_text (Some cur) @ data\<close>
        \<open>length data < al_size s\<close>
      by (auto simp: queue_inv_def same_worker_def pending_text_def)
  next
    case False
    let ?new = "if length data < al_size s then data else []"
    define p where "p = (if next_buffer s \<noteq> None then next_buffer s else Some (FixedBuffer_new (al_size s)))"
    have "fresh_ok (al_size s) p" using inv by (auto simp: p_def queue_inv_def new_buffer_fresh)
    then obtain b b' where b: "p = Some b" "FixedBuffer_Append data b = Inr b'" "buf_ok (al_size s) (Some b')"
        "ptr_text (Some b') = ?new"
      using append_fresh by blast
    let ?s = "s\<lparr>buffers := buffers s @ [Some cur], current_buffer := Some b', next_buffer := None,
        accepted_text := accepted_text s @ ?new\<rparr>"
    have "AsyncLogging_Append data s = Inr ?s"
      using False cur(1) b(1,2) 
      by (auto simp: AsyncLogging_Append_def deref_def sint_length [OF len] note_accepted_def p_def Let_def split: if_splits)
    then show ?thesis
      using inv cur b(3,4) by (auto simp: queue_inv_def same_worker_def pending_text_def)
  qed
qed

subsection \<open>The background thread\<close>

lemma assert_fresh_ok [simp]: "fresh_ok SIZE p \<Longrightarrow> assert_fresh bld p = Inr ()"
  by (auto simp: fresh_ok_def assert_fresh_def FixedBuffer_Length_def)

lemma worker_take_ok:
  assumes q: "queue_inv s" and w: "worker_inv s" and pc: "at_loop (worker s)"
  shows "\<exists>s'. worker_take s = Inr s' \<and> queue_inv s' \<and> worker_inv s' \<and> worker s' = Taken
    \<and> accepted_text s' = accepted_text s \<and> pending_text s' = pending_text s \<and> al_os s' = al_os s \<and> dropped s' = dropped s"
proof -
  have fresh: "fresh_ok (al_size s) (new_buffer_1 s)" "fresh_ok (al_size s) (new_buffer_2 s)" "buffers_to_write s = []"
    using w pc at_loop_not [OF pc] by (simp_all add: worker_inv_def)
  let ?s1 = "s\<lparr>buffers := [], current_buffer := new_buffer_1 s, new_buffer_1 := None,
      buffers_to_write := buffers s @ [current_buffer s], worker := Taken\<rparr>"
  let ?s = "if next_buffer s = None then ?s1\<lparr>next_buffer := new_buffer_2 s, new_buffer_2 := None\<rparr> else ?s1"
  have "worker_take s = Inr ?s" using fresh pc by (simp add: worker_take_def Let_def)
  moreover have "queue_inv ?s"
    using q fresh fresh_is_ok by (auto simp: queue_inv_def fresh_ok_def)
  moreover have two: "next_buffer s = None \<Longrightarrow> 2 \<le> length (buffers s @ [current_buffer s])"
    using q by (cases "buffers s") (auto simp: queue_inv_def)
  then have "worker_inv ?s" using q w at_loop_not [OF pc] fresh by (simp add: queue_inv_def worker_inv_def)
  moreover have "pending_text ?s = pending_text s"
    using fresh fresh_text by (auto simp: pending_text_def)
  ultimately show ?thesis by (intro exI [of _ ?s]) auto
qed

lemma write_buffers_list:
  "\<forall>p \<in> set ps. buf_ok SIZE p \<Longrightarrow> write_buffers ps lf w = append_all (map ptr_text ps) lf w"
proof (induction ps arbitrary: lf w)
  case (Cons p ps)
  then obtain b where b: "p = Some b" by (auto simp: buf_ok_def)
  show ?case
    using Cons.IH Cons.prems b
    by (cases "LogFile_Append (FixedBuffer_ToString b) lf w") (auto simp: deref_def)
qed simp

lemma write_buffers_ok:
  "os_ok w \<Longrightarrow> LogFile_inv lf \<Longrightarrow> \<forall>p \<in> set ps. buf_ok SIZE p \<Longrightarrow> \<exists>lf' w'. write_buffers ps lf w = Inr (lf', w')
     \<and> LogFile_inv lf' \<and> same_os w w' \<and> journal_text w' = journal_text w @ bufs_text ps"
  using append_all_ok [of w lf "map ptr_text ps"] by (auto simp: write_buffers_list bufs_text_def)

lemma drop_excess_ok:
  assumes "os_ok w" and "LogFile_inv lf"
  shows "\<exists>lf' w'. drop_excess bs lf w = Inr (if length bs > 25 then take 2 bs else bs, lf', w') \<and> LogFile_inv lf'
    \<and> same_os w w' \<and> (length bs \<le> 25 \<longrightarrow> journal_text w' = journal_text w)"
proof (cases "length bs > 25")
  case True
  let ?w1 = "w\<lparr>os_reads := Suc (os_reads w)\<rparr>"
  have w1: "os_ok ?w1" "same_os w ?w1" using assms(1) by (simp_all add: os_ok_def)
  obtain date where d: "ToFormatString (os_localtime w) False (Timestamp_Now (os_clock w (os_reads w))) = Inr date"
    using assms(1) unfolding os_ok_def ToFormatString_def by (metis (no_types, lifting) option.case_eq_if)
  obtain lf1 w2 where "LogFile_Append (drop_message date (length bs)) lf ?w1 = Inr (lf1, w2)" "LogFile_inv lf1" "same_os ?w1 w2"
    using LogFile_Append_ok [OF w1(1) assms(2)] by blast
  then show ?thesis using True d same_os_trans [OF w1(2)] by (simp add: drop_excess_def os_now_def)
qed (use assms in \<open>simp add: drop_excess_def\<close>)

lemma refill_ok:
  assumes "p = None \<and> bs \<noteq> [] \<and> (\<forall>q \<in> set bs. buf_ok SIZE q) \<or> fresh_ok SIZE p"
  shows "\<exists>p'. refill bld p bs = Inr (p', if p = None then butlast bs else bs) \<and> fresh_ok SIZE p'"
proof (cases "p = None")
  case True
  then have "bs \<noteq> []" "buf_ok SIZE (last bs)" using assms by (auto simp: fresh_ok_def)
  then show ?thesis
    using True by (auto simp: refill_def buf_ok_def deref_def fresh_ok_def FixedBuffer_Reset_def FixedBuffer_inv_def)
next
  case False
  then have "fresh_ok SIZE p" using assms by blast
  moreover from False obtain b where "p = Some b" by blast
  ultimately show ?thesis by (simp add: refill_def)
qed

lemma worker_write_ok:
  assumes q: "queue_inv s" and w: "worker_inv s" and pc: "worker s = Taken"
  shows "\<exists>s'. worker_write s = Inr s' \<and> queue_inv s' \<and> worker_inv s' \<and> worker s' = Loop_head
    \<and> accepted_text s' = accepted_text s \<and> buffers s' = buffers s \<and> current_buffer s' = current_buffer s
    \<and> dropped s' = (dropped s \<or> length (buffers_to_write s) > 25)
    \<and> (\<not> dropped s' \<longrightarrow> journal_text (al_os s') = journal_text (al_os s) @ bufs_text (buffers_to_write s))"
proof -
  let ?bs = "buffers_to_write s" let ?kept = "if length ?bs > 25 then take 2 ?bs else ?bs"
  obtain lf where lf: "log_output s = Some lf" "LogFile_inv lf" using w pc by (auto simp: worker_inv_def)
  have os: "os_ok (al_os s)" and bs: "?bs \<noteq> []" "\<forall>p \<in> set ?bs. buf_ok (al_size s) p" "new_buffer_1 s = None"
    and nb2: "new_buffer_2 s = None \<and> 2 \<le> length ?bs \<or> fresh_ok (al_size s) (new_buffer_2 s)"
    using w pc by (auto simp: worker_inv_def)
  have kept: "?kept \<noteq> []" "\<forall>p \<in> set ?kept. buf_ok (al_size s) p" "2 \<le> length ?bs \<Longrightarrow> 2 \<le> length ?kept"
    using bs by (auto dest: in_set_takeD)
  obtain lf1 w1 where d: "drop_excess ?bs lf (al_os s) = Inr (?kept, lf1, w1)" "LogFile_inv lf1" "same_os (al_os s) w1"
      "length ?bs \<le> 25 \<longrightarrow> journal_text w1 = journal_text (al_os s)"
    using drop_excess_ok [OF os lf(2)] by blast
  have os1: "os_ok w1" using same_os_ok [OF d(3) os] .
  obtain lf2 w2 where wr: "write_buffers ?kept lf1 w1 = Inr (lf2, w2)" "LogFile_inv lf2" "same_os w1 w2"
      "journal_text w2 = journal_text w1 @ bufs_text ?kept"
    using write_buffers_ok [OF os1 d(2) kept(2)] by blast
  obtain p1 where r1: "refill (al_build s) None ?kept = Inr (p1, butlast ?kept)" "fresh_ok (al_size s) p1"
    using refill_ok [of None ?kept "al_size s" "al_build s"] kept by auto
  have "new_buffer_2 s = None \<and> butlast ?kept \<noteq> [] \<and> (\<forall>q \<in> set (butlast ?kept). buf_ok (al_size s) q)
      \<or> fresh_ok (al_size s) (new_buffer_2 s)"
    using nb2 kept by (cases ?kept rule: rev_cases) (auto dest: in_set_butlastD)
  from refill_ok [OF this] obtain p2 bs2 where r2: "refill (al_build s) (new_buffer_2 s) (butlast ?kept) = Inr (p2, bs2)"
      "fresh_ok (al_size s) p2" by blast
  obtain f where f: "lf_file lf2 = Some f" using wr(2) by (auto simp: LogFile_inv_def)
  let ?s = "s\<lparr>new_buffer_1 := p1, new_buffer_2 := p2, buffers_to_write := [], log_output := Some lf2,
      al_os := FileUtil_Flush f w2, worker := Loop_head, dropped := (dropped s \<or> length ?bs > 25)\<rparr>"
  have "worker_write s = Inr ?s"
    using bs(1,3) lf(1) d(1) wr(1) r1(1) r2(1) f
    by (simp add: worker_write_def deref_def LogFile_Flush_def split del: if_split)
  moreover have "os_ok (FileUtil_Flush f w2)" "os_saved (FileUtil_Flush f w2) = length (journal_text w2)"
    using same_os_ok [OF same_os_Flush(1) same_os_ok [OF wr(3) os1]] by (simp_all add: FileUtil_Flush_def)
  moreover have "queue_inv ?s" using q by (simp add: queue_inv_def)
  moreover from calculation have "worker_inv ?s"
    using w pc wr(2) r1(2) r2(2) by (simp add: worker_inv_def)
  moreover have "length ?bs \<le> 25 \<longrightarrow> journal_text w2 = journal_text (al_os s) @ bufs_text ?bs" using d(4) wr(4) by simp
  ultimately show ?thesis by (intro exI [of _ ?s]) simp
qed

lemma worker_enter_ok:
  assumes q: "queue_inv s" and w: "worker_inv s" and pc: "worker s = Created"
  shows "\<exists>s'. worker_enter s = Inr s' \<and> queue_inv s' \<and> worker_inv s' \<and> worker s' = Loop_head
    \<and> accepted_text s' = accepted_text s \<and> pending_text s' = pending_text s \<and> dropped s' = dropped s
    \<and> journal_text (al_os s') = journal_text (al_os s)"
proof -
  have env: "os_ok (al_os s)" "CHR ''/'' \<notin> set (al_base s)" using w by (auto simp: worker_inv_def)
  obtain lf w1 where n: "LogFile_new (al_build s) (al_base s) (al_roll s) False 3 1024 (al_os s) = Inr (lf, w1)" "LogFile_inv lf"
      "same_os (al_os s) w1" "journal_text w1 = journal_text (al_os s)"
    using LogFile_new_ok [OF env(1), of "al_build s" "al_base s"] env(2) by blast
  have "disk_ok (al_os s)" using w by (simp add: worker_inv_def disk_ok_def)
  then have "disk_ok w1" "os_saved (al_os s) \<le> os_saved w1" using n(3) by (simp_all add: same_os_def)
  then have "os_saved w1 = length (journal_text w1)" using n(4) w by (simp add: worker_inv_def disk_ok_def)
  have "fresh_ok (al_size s) (make_buffer (al_size s))" using q by (auto simp: queue_inv_def intro: make_buffer_fresh)
  then show ?thesis
    using n q w pc same_os_ok [OF n(3)] \<open>os_saved w1 = length (journal_text w1)\<close>
    by (auto simp: worker_enter_def worker_inv_def queue_inv_def pending_text_def)
qed

lemma worker_exit_ok:
  assumes q: "queue_inv s" and w: "worker_inv s" and pc: "worker s = Loop_head" and stopped: "\<not> running s"
  shows "\<exists>s'. worker_exit s = Inr s' \<and> queue_inv s' \<and> worker_inv s' \<and> worker s' = Finished
    \<and> accepted_text s' = accepted_text s \<and> pending_text s' = pending_text s \<and> dropped s' = dropped s
    \<and> journal_text (al_os s') = journal_text (al_os s)"
proof -
  obtain lf f where "log_output s = Some lf" "lf_file lf = Some f" "LogFile_inv lf"
    using w pc by (auto simp: worker_inv_def LogFile_inv_def)
  then show ?thesis
    using q w pc stopped
    by (auto simp: worker_exit_def deref_def LogFile_Flush_def LogFile_destroy_def drop_file_def FileUtil_Flush_def
        FileUtil_destroy_def worker_inv_def queue_inv_def pending_text_def os_ok_def journal_text_def)
qed

subsection \<open>Every interleaving\<close>

definition async_inv :: "AsyncLogging \<Rightarrow> bool" where
  "async_inv s \<longleftrightarrow> queue_inv s \<and> worker_inv s \<and> text_inv s"

lemma worker_inv_same: "same_worker s s' \<Longrightarrow> worker_inv s' = worker_inv s"
  by (simp add: same_worker_def worker_inv_def)

lemma fresh_ok_None [simp]: "\<not> fresh_ok SIZE None"
  by (simp add: fresh_ok_def)

lemma async_inv_init: "async_init bld SIZE s \<Longrightarrow> async_inv s"
  using make_buffer_fresh [of SIZE] fresh_text [of SIZE "make_buffer SIZE"] fresh_is_ok [of SIZE "make_buffer SIZE"]
  by (auto simp: async_init_def async_inv_def AsyncLogging_new_def queue_inv_def worker_inv_def text_inv_def
      pending_text_def journal_text_def)

lemma async_inv_step:
  assumes inv: "async_inv s" and step: "async_step s s'"
  shows "async_inv s'"
proof -
  have parts: "queue_inv s" "worker_inv s" "text_inv s" using inv by (simp_all add: async_inv_def)
  show ?thesis
    using step
  proof (cases rule: async_step.cases)
    case (do_append data)
    then show ?thesis
      using AsyncLogging_Append_ok [OF parts(1) do_append(1)] parts worker_inv_same [of s s']
      by (auto simp: async_inv_def text_inv_def same_worker_def Let_def)
  next
    case do_start
    then show ?thesis using parts
      by (auto simp: async_inv_def AsyncLogging_Start_def queue_inv_def worker_inv_def text_inv_def pending_text_def)
  next
    case do_enter
    then show ?thesis using worker_enter_ok [OF parts(1,2)] parts(3) by (auto simp: async_inv_def text_inv_def)
  next
    case do_check
    then show ?thesis using parts
      by (auto simp: async_inv_def worker_check_def queue_inv_def worker_inv_def text_inv_def pending_text_def)
  next
    case do_take
    then show ?thesis using worker_take_ok [OF parts(1,2)] parts(3) by (auto simp: async_inv_def text_inv_def)
  next
    case do_write
    have "worker_inv s' \<and> worker s' = Loop_head \<longrightarrow> buffers_to_write s' = []" by (simp add: worker_inv_def)
    then show ?thesis
      using do_write worker_write_ok [OF parts(1,2)] parts(3) by (auto simp: async_inv_def text_inv_def pending_text_def)
  next
    case do_stop
    then have s': "s' = s\<lparr>running := False, al_joined := True\<rparr>"
      by (cases "al_joined s") (auto simp: AsyncLogging_Stop_def result_simps)
    have "queue_inv s'" "text_inv s'" using parts by (simp_all add: s' queue_inv_def text_inv_def pending_text_def)
    moreover have "worker_inv s'" using parts(2) do_stop(1) by (auto simp: s' worker_inv_def)
    ultimately show ?thesis by (simp add: async_inv_def)
  next
    case do_exit
    then show ?thesis using worker_exit_ok [OF parts(1,2)] parts(3) by (auto simp: async_inv_def text_inv_def)
  qed
qed

interpretation async_runs: invariant_system "async_init bld SIZE" async_step async_inv for bld SIZE
  by unfold_locales (auto intro: async_inv_init async_inv_step)

lemma reach_inv_parts:
  assumes "reach (async_init bld SIZE) async_step s"
  shows "queue_inv s" "worker_inv s" "text_inv s"
  using async_runs.reach_inv [OF assms] by (simp_all add: async_inv_def)

text \<open>Only appends change what was accepted, and they leave the background thread where it is.\<close>

lemma background_accepts:
  assumes "reach (async_init bld SIZE) async_step s" and "background_step s s'"
  shows "accepted_text s' = accepted_text s" and "reach (async_init bld SIZE) async_step s'"
proof -
  note inv = reach_inv_parts(1,2) [OF assms(1)]
  show "reach (async_init bld SIZE) async_step s'" by (rule reach_step [OF assms(1) background_async [OF assms(2)]])
  show "accepted_text s' = accepted_text s"
  proof (cases "worker s")
    case Created
    then show ?thesis using worker_enter_ok [OF inv] assms(2) by (auto simp: background_step_def)
  next
    case Loop_head
    then show ?thesis using worker_exit_ok [OF inv] assms(2) by (auto simp: background_step_def worker_check_def split: if_splits)
  next
    case In_loop
    then show ?thesis using worker_take_ok [OF inv] assms(2) by (auto simp: background_step_def)
  next
    case Taken
    then show ?thesis using worker_write_ok [OF inv] assms(2) by (auto simp: background_step_def)
  qed (use assms(2) in \<open>simp_all add: background_step_def\<close>)
qed

text \<open>Once the background thread has left its loop, nothing reaches the file any more.\<close>

lemma finished_step:
  assumes "async_inv s" and "async_step s s'" and "worker s = Finished"
  shows "worker s' = Finished \<and> journal_text (al_os s') = journal_text (al_os s)"
  using assms(2)
proof (cases rule: async_step.cases)
  case (do_append data)
  then have "same_worker s s'" using AsyncLogging_Append_ok [of s data] assms(1) by (auto simp: async_inv_def)
  then show ?thesis using assms(3) by (simp add: same_worker_def)
qed (use assms(3) in \<open>auto simp: AsyncLogging_Stop_def result_simps split: if_splits\<close>)

lemma finished_run:
  assumes "async_step\<^sup>*\<^sup>* s s'" and "async_inv s" and "worker s = Finished"
  shows "worker s' = Finished \<and> journal_text (al_os s') = journal_text (al_os s)"
  using assms
proof (induction rule: rtranclp_induct)
  case (step t u)
  then have "async_inv t" by (auto intro: async_runs.run_inv)
  then show ?case using finished_step step by metis
qed simp

subsection \<open>Properties\<close>

text \<open>
  C6: In every state that appending threads, the background thread, Start and Stop can reach, in
  either build, the next action of each of them runs without a failed assertion, without using a
  pointer that was moved away and without overrunning a buffer; so recycling never runs out of
  buffers.
\<close>

theorem async_never_faults:
  assumes "reach (async_init bld SIZE) async_step s"
  shows "(length data < 2 ^ 31 \<longrightarrow> (\<exists>s'. AsyncLogging_Append data s = Inr s'))
    \<and> (worker s = Created \<longrightarrow> (\<exists>s'. worker_enter s = Inr s'))
    \<and> (worker s = In_loop \<longrightarrow> (\<exists>s'. worker_take s = Inr s'))
    \<and> (worker s = Taken \<longrightarrow> (\<exists>s'. worker_write s = Inr s'))
    \<and> (worker s = Loop_head \<and> \<not> running s \<longrightarrow> (\<exists>s'. worker_exit s = Inr s'))
    \<and> (worker s \<noteq> Not_started \<longrightarrow> (\<exists>s'. AsyncLogging_destroy s = Inr s'))"
proof -
  have inv: "queue_inv s" "worker_inv s" using async_runs.reach_inv [OF assms] by (simp_all add: async_inv_def)
  have "\<exists>s'. worker_take s = Inr s'" if "worker s = In_loop"
    using worker_take_ok [OF inv] that by force
  moreover have "\<exists>s'. AsyncLogging_destroy s = Inr s'" if "worker s \<noteq> Not_started"
    using inv(2) that by (simp add: worker_inv_def AsyncLogging_destroy_def AsyncLogging_Stop_def)
  ultimately show ?thesis
    using AsyncLogging_Append_ok [OF inv(1), of data] worker_enter_ok [OF inv] worker_exit_ok [OF inv]
      worker_write_ok [OF inv] by blast
qed

text \<open>
  C4: Nothing is lost, doubled or reordered on the way: as long as the background thread has not
  dropped buffers (it does so only when more than 25 are waiting), the text of the log files
  followed by what is still in the buffers is exactly the text of the accepted messages in the
  order of their appends. A message is accepted unless it is as long as a whole buffer.
\<close>

theorem async_fifo:
  assumes "reach (async_init bld SIZE) async_step s" and "\<not> dropped s" and "length data < 2 ^ 31"
  shows "accepted_text s = saved_text (al_os s) @ pending_text s
    \<and> (\<exists>s'. AsyncLogging_Append data s = Inr s'
         \<and> accepted_text s' = accepted_text s @ (if length data < al_size s then data else []))"
proof -
  have inv: "queue_inv s" "worker_inv s" "text_inv s"
    using async_runs.reach_inv [OF assms(1)] by (simp_all add: async_inv_def)
  then have "saved_text (al_os s) = journal_text (al_os s)" by (simp add: worker_inv_def saved_text_def)
  then show ?thesis
    using AsyncLogging_Append_ok [OF inv(1) assms(3)] inv(3) assms(2) by (auto simp: text_inv_def Let_def)
qed

text \<open>A run with the buffer size of the program: start, append, stop, and the thread leaves its loop.\<close>

lemma kLargeBuffer_bounds: "0 < kLargeBuffer" "kLargeBuffer < 2 ^ 31"
  by (simp_all add: kLargeBuffer_def)

lemma reach_Loop_head:
  "\<exists>s. reach (async_init bld kLargeBuffer) async_step s \<and> worker s = Loop_head \<and> al_size s = kLargeBuffer
     \<and> accepted_text s = [] \<and> journal_text (al_os s) = [] \<and> \<not> dropped s \<and> running s \<and> buffers s = []"
proof -
  let ?s0 = "AsyncLogging_new bld kLargeBuffer ''turbo'' 1000 slow_os"
  have "async_init bld kLargeBuffer ?s0"
    unfolding async_init_def
    by (intro conjI kLargeBuffer_bounds exI [of _ "''turbo''"] exI [of _ 1000] exI [of _ slow_os] slow_os_ok(1,3) refl)
      (simp_all add: slow_os_def)
  then have r0: "reach (async_init bld kLargeBuffer) async_step ?s0" by (rule reach_init)
  have new: "worker ?s0 = Not_started" by (simp add: AsyncLogging_new_def)
  let ?s1 = "?s0\<lparr>running := True, worker := Created\<rparr>"
  have start: "AsyncLogging_Start ?s0 = Inr ?s1" by (simp add: AsyncLogging_Start_def new)
  have r1: "reach (async_init bld kLargeBuffer) async_step ?s1" using r0 do_start [OF new start] by (rule reach_step)
  have c: "worker ?s1 = Created" by simp
  have inv: "queue_inv ?s1" "worker_inv ?s1" using async_runs.reach_inv [OF r1] by (simp_all add: async_inv_def)
  obtain s2 where s2: "worker_enter ?s1 = Inr s2" "worker s2 = Loop_head" "accepted_text s2 = accepted_text ?s1"
      "dropped s2 = dropped ?s1" "journal_text (al_os s2) = journal_text (al_os ?s1)"
    using worker_enter_ok [OF inv c] by blast
  have "al_size s2 = al_size ?s1" "running s2" "buffers s2 = []"
    using s2(1) by (auto simp: worker_enter_def result_simps AsyncLogging_new_def)
  moreover have "reach (async_init bld kLargeBuffer) async_step s2" using r1 do_enter [OF c s2(1)] by (rule reach_step)
  ultimately show ?thesis
    using s2 by (intro exI [of _ s2]) (simp add: AsyncLogging_new_def journal_text_def slow_os_def)
qed

lemma note_accepted_buffers [simp]: "buffers (note_accepted data s) = buffers s"
  by (simp add: note_accepted_def)

lemma Append_buffers: "AsyncLogging_Append data s = Inr s' \<Longrightarrow> length (buffers s') \<le> Suc (length (buffers s))"
proof (cases "current_buffer s")
  case (Some cur)
  assume "AsyncLogging_Append data s = Inr s'"
  with Some show ?thesis
    by (cases "FixedBuffer_Avail cur > sint (of_nat (length data) :: cint)"; cases "next_buffer s")
      (auto simp: AsyncLogging_Append_def deref_def bindR_eq_Inr_iff)
qed (simp add: AsyncLogging_Append_def deref_def)

lemma reach_appended:
  "\<exists>s. reach (async_init bld kLargeBuffer) async_step s \<and> worker s = Loop_head
     \<and> accepted_text s = ''bye'' \<and> journal_text (al_os s) = [] \<and> \<not> dropped s \<and> running s \<and> length (buffers s) \<le> 1"
proof -
  obtain s where s: "reach (async_init bld kLargeBuffer) async_step s" "worker s = Loop_head" "al_size s = kLargeBuffer"
      "accepted_text s = []" "journal_text (al_os s) = []" "\<not> dropped s" "running s" "buffers s = []"
    using reach_Loop_head by blast
  have len: "length ''bye'' < (2 :: nat) ^ 31" by simp
  have q: "queue_inv s" using async_runs.reach_inv [OF s(1)] by (simp add: async_inv_def)
  obtain s' where a: "AsyncLogging_Append ''bye'' s = Inr s'" "same_worker s s'"
      "accepted_text s' = accepted_text s @ (if length ''bye'' < al_size s then ''bye'' else [])"
    using AsyncLogging_Append_ok [OF q len] by (auto simp: Let_def simp del: list.size)
  have "reach (async_init bld kLargeBuffer) async_step s'" using s(1) do_append [OF len a(1)] by (rule reach_step)
  then show ?thesis using a(2,3) s Append_buffers [OF a(1)] by (intro exI [of _ s']) (simp add: same_worker_def kLargeBuffer_def)
qed

theorem async_never_faults_witness:
  "\<exists>s s'. reach (async_init Debug kLargeBuffer) async_step s \<and> AsyncLogging_destroy s = Inr s'"
proof -
  obtain s where "reach (async_init Debug kLargeBuffer) async_step s" "worker s = Loop_head"
    using reach_Loop_head [of Debug] by blast
  then show ?thesis using async_never_faults [of Debug kLargeBuffer s "[]"] by auto
qed

theorem async_fifo_witness:
  "\<exists>s. reach (async_init Debug kLargeBuffer) async_step s \<and> pending_text s = ''bye''"
proof -
  obtain s where s: "reach (async_init Debug kLargeBuffer) async_step s" "accepted_text s = ''bye''"
      "journal_text (al_os s) = []" "\<not> dropped s"
    using reach_appended by blast
  then show ?thesis using async_fifo [OF s(1,4), of "[]"] by (intro exI [of _ s]) (simp add: saved_text_def)
qed

text \<open>
  Stop does not flush the queue: a message can be accepted while the logger runs, without any
  buffer having been dropped, and yet never reach a file, because the background thread leaves its
  loop without taking the buffers a last time; no later step brings it back.
\<close>

theorem stop_loses_messages:
  "\<exists>s. reach (async_init bld kLargeBuffer) async_step s \<and> worker s = Finished \<and> accepted_text s = ''bye''
     \<and> \<not> dropped s \<and> (\<forall>s'. async_step\<^sup>*\<^sup>* s s' \<longrightarrow> journal_text (al_os s') = [])"
proof -
  obtain s where s: "reach (async_init bld kLargeBuffer) async_step s" "worker s = Loop_head"
      "accepted_text s = ''bye''" "journal_text (al_os s) = []" "\<not> dropped s" "running s"
    using reach_appended by blast
  let ?s1 = "s\<lparr>running := False, al_joined := True\<rparr>"
  have stop: "AsyncLogging_Stop s = Inr ?s1"
    using reach_inv_parts(2) [OF s(1)] s(2,6) by (simp add: AsyncLogging_Stop_def worker_inv_def)
  have r1: "reach (async_init bld kLargeBuffer) async_step ?s1" by (rule reach_step [OF s(1) do_stop [OF _ stop]]) (simp add: s(2))
  have pc: "worker ?s1 = Loop_head" "\<not> running ?s1" using s(2) by simp_all
  have inv: "queue_inv ?s1" "worker_inv ?s1" using async_runs.reach_inv [OF r1] by (simp_all add: async_inv_def)
  obtain s2 where s2: "worker_exit ?s1 = Inr s2" "worker s2 = Finished" "accepted_text s2 = accepted_text ?s1"
      "dropped s2 = dropped ?s1" "journal_text (al_os s2) = journal_text (al_os ?s1)"
    using worker_exit_ok [OF inv pc] by blast
  have r2: "reach (async_init bld kLargeBuffer) async_step s2" by (rule reach_step [OF r1 do_exit [OF pc s2(1)]])
  have "journal_text (al_os s') = []" if "async_step\<^sup>*\<^sup>* s2 s'" for s'
    using finished_run [OF that async_runs.reach_inv [OF r2] s2(2)] s2(5) s(4) by simp
  then show ?thesis using r2 s2 s(3,5) by (intro exI [of _ s2]) simp
qed

theorem stop_loses_messages_witness:
  "\<exists>s. reach (async_init Release kLargeBuffer) async_step s \<and> accepted_text s = ''bye'' \<and> journal_text (al_os s) = []"
  using stop_loses_messages [of Release] by blast

subsection \<open>Everything can reach the file\<close>

lemma worker_take_keeps: "worker_take s = Inr s' \<Longrightarrow> running s' = running s \<and> buffers_to_write s' = buffers s @ [current_buffer s]
    \<and> buffers s' = buffers_to_write s \<and> current_buffer s' = new_buffer_1 s"
  by (cases "next_buffer s = None") (auto simp: worker_take_def result_simps Let_def)

lemma worker_write_keeps: "worker_write s = Inr s' \<Longrightarrow> running s' = running s"
  by (auto simp: worker_write_def result_simps split: prod.splits)

definition background_run :: "AsyncLogging \<Rightarrow> AsyncLogging \<Rightarrow> bool" where
  "background_run s t \<longleftrightarrow> background_step\<^sup>*\<^sup>* s t \<and> running t \<and> accepted_text t = accepted_text s"

lemma background_run_refl: "running s \<Longrightarrow> background_run s s"
  by (simp add: background_run_def)

lemma background_run_trans: "background_run s t \<Longrightarrow> background_run t u \<Longrightarrow> background_run s u"
  by (auto simp: background_run_def)

lemma background_run_reach: "background_run s t \<Longrightarrow> reach (async_init bld SIZE) async_step s \<Longrightarrow> reach (async_init bld SIZE) async_step t"
proof -
  assume run: "background_run s t" and r: "reach (async_init bld SIZE) async_step s"
  from run have "background_step\<^sup>*\<^sup>* s t" by (simp add: background_run_def)
  then show ?thesis by (induction rule: rtranclp_induct) (auto intro: r background_accepts(2))
qed

lemma background_run_step:
  assumes "reach (async_init bld SIZE) async_step s" and "background_action (worker s) s = Some (Inr t)" and "running t"
  shows "background_run s t"
proof -
  have "background_step s t" using assms(2) by (simp add: background_step_def)
  then show ?thesis using background_accepts(1) [OF assms(1)] assms(3) by (simp add: background_run_def r_into_rtranclp)
qed

lemma write_round:
  assumes r: "reach (async_init bld SIZE) async_step s" and pc: "worker s = Taken" and run: "running s"
  shows "\<exists>t. background_run s t \<and> worker t = Loop_head \<and> buffers t = buffers s \<and> current_buffer t = current_buffer s
    \<and> (dropped t \<longrightarrow> dropped s \<or> 25 < length (buffers_to_write s))"
proof -
  obtain t where t: "worker_write s = Inr t" "worker t = Loop_head" "buffers t = buffers s" "current_buffer t = current_buffer s"
      "dropped t = (dropped s \<or> length (buffers_to_write s) > 25)"
    using worker_write_ok [OF reach_inv_parts(1,2) [OF r] pc] by blast
  have "background_run s t" by (rule background_run_step [OF r]) (use pc t(1) worker_write_keeps [OF t(1)] run in simp_all)
  then show ?thesis using t by (intro exI [of _ t]) auto
qed

lemma take_round:
  assumes r: "reach (async_init bld SIZE) async_step s" and pc: "worker s = In_loop" and run: "running s"
  shows "\<exists>t. background_run s t \<and> pending_text t = [] \<and> (dropped t \<longrightarrow> dropped s \<or> 24 < length (buffers s))"
proof -
  have inv: "queue_inv s" "worker_inv s" by (rule reach_inv_parts [OF r])+
  obtain u where u: "worker_take s = Inr u" "worker u = Taken" "dropped u = dropped s"
    using worker_take_ok [OF inv] pc by force
  note keeps = worker_take_keeps [OF u(1)]
  have taken: "background_run s u" by (rule background_run_step [OF r]) (use pc u(1) keeps run in simp_all)
  obtain t where t: "background_run u t" "worker t = Loop_head" "buffers t = buffers u" "current_buffer t = current_buffer u"
      "dropped t \<longrightarrow> dropped u \<or> 25 < length (buffers_to_write u)"
    using write_round [OF background_run_reach [OF taken r] u(2)] keeps run by blast
  have all: "background_run s t" by (rule background_run_trans [OF taken t(1)])
  have "buffers_to_write t = []" using reach_inv_parts(2) [OF background_run_reach [OF all r]] t(2) by (simp add: worker_inv_def)
  moreover have "buffers_to_write s = []" "ptr_text (new_buffer_1 s) = []"
    using inv(2) pc fresh_text by (auto simp: worker_inv_def)
  ultimately have "pending_text t = []" using keeps t(3,4) by (simp add: pending_text_def)
  then show ?thesis using all t(5) u(3) keeps by (intro exI [of _ t]) auto
qed

lemma comes_to_loop:
  assumes r: "reach (async_init bld SIZE) async_step s" and run: "running s"
  shows "\<exists>t. background_run s t \<and> worker t = In_loop \<and> length (buffers t) = length (buffers s)
    \<and> (dropped t \<longrightarrow> dropped s \<or> 25 < length (buffers_to_write s))"
proof -
  have inv: "queue_inv s" "worker_inv s" by (rule reach_inv_parts [OF r])+
  have check: "\<exists>t. background_run s t \<and> worker t = In_loop \<and> length (buffers t) = length (buffers s) \<and> dropped t = dropped s"
    if "reach (async_init bld SIZE) async_step s" "worker s = Loop_head" "running s" for s
    using background_run_step [OF that(1), of "worker_check s"] that(2,3)
    by (intro exI [of _ "worker_check s"]) (simp add: worker_check_def)
  show ?thesis
  proof (cases "worker s")
    case Created
    obtain u where u: "worker_enter s = Inr u" "worker u = Loop_head" "dropped u = dropped s"
      using worker_enter_ok [OF inv Created] by blast
    have keeps: "running u = running s \<and> buffers u = buffers s" using u(1) by (auto simp: worker_enter_def result_simps)
    have "background_run s u" by (rule background_run_step [OF r]) (use Created u(1) keeps run in simp_all)
    then show ?thesis using check [OF background_run_reach [OF _ r] u(2)] keeps run u(3) background_run_trans by metis
  next
    case Loop_head
    then show ?thesis using check [OF r _ run] by blast
  next
    case In_loop
    then show ?thesis using background_run_refl [OF run] by blast
  next
    case Taken
    obtain u where u: "background_run s u" "worker u = Loop_head" "buffers u = buffers s"
        "dropped u \<longrightarrow> dropped s \<or> 25 < length (buffers_to_write s)"
      using write_round [OF r Taken run] by blast
    then have "running u" by (simp add: background_run_def)
    then show ?thesis using check [OF background_run_reach [OF u(1) r] u(2)] u(1,3,4) background_run_trans by metis
  qed (use inv(2) run in \<open>simp_all add: worker_inv_def\<close>)
qed

lemma background_can_flush:
  assumes r: "reach (async_init bld SIZE) async_step s" and run: "running s"
    and few: "\<not> dropped s" "length (buffers_to_write s) \<le> 25" "length (buffers s) < 25"
  shows "\<exists>t. background_step\<^sup>*\<^sup>* s t \<and> running t \<and> pending_text t = [] \<and> accepted_text t = accepted_text s
    \<and> saved_text (al_os t) = accepted_text s"
proof -
  obtain u where u: "background_run s u" "worker u = In_loop" "length (buffers u) = length (buffers s)" "\<not> dropped u"
    using comes_to_loop [OF r run] few by auto
  then have "running u" by (simp add: background_run_def)
  then obtain t where t: "background_run u t" "pending_text t = []" "\<not> dropped t"
    using take_round [OF background_run_reach [OF u(1) r] u(2)] u(3,4) few(3) by auto
  have all: "background_run s t" by (rule background_run_trans [OF u(1) t(1)])
  note inv = reach_inv_parts [OF background_run_reach [OF all r]]
  then have "saved_text (al_os t) = accepted_text t"
    using t(2,3) by (simp add: text_inv_def worker_inv_def saved_text_def)
  then show ?thesis using all t(2) by (intro exI [of _ t]) (simp add: background_run_def)
qed

text \<open>
  While the logger runs, everything accepted can reach the file: from every reachable state the
  background thread alone can come to a state where no text is left in any buffer, and unless
  buffers had to be dropped, which takes more than 25 of them, what has been saved in the files is
  then exactly what was accepted.
\<close>

theorem async_can_flush:
  assumes "reach (async_init bld SIZE) async_step s" and "running s"
    and "\<not> dropped s" and "length (buffers_to_write s) \<le> 25" and "length (buffers s) < 25"
  shows "\<exists>t. background_step\<^sup>*\<^sup>* s t \<and> pending_text t = [] \<and> accepted_text t = accepted_text s
    \<and> saved_text (al_os t) = accepted_text s"
  using background_can_flush [OF assms] by blast

theorem async_can_flush_witness:
  "\<exists>t. saved_text (al_os t) = ''bye'' \<and> pending_text t = []"
proof -
  obtain s where s: "reach (async_init Debug kLargeBuffer) async_step s" "worker s = Loop_head" "accepted_text s = ''bye''"
      "\<not> dropped s" "running s" "length (buffers s) \<le> 1"
    using reach_appended by blast
  have "buffers_to_write s = []" using reach_inv_parts(2) [OF s(1)] s(2) by (simp add: worker_inv_def)
  then have "\<exists>t. background_step\<^sup>*\<^sup>* s t \<and> pending_text t = [] \<and> accepted_text t = accepted_text s
    \<and> saved_text (al_os t) = accepted_text s"
    using s by (intro async_can_flush) simp_all
  then show ?thesis using s(3) by auto
qed

subsection \<open>Stop comes back\<close>

text \<open>The steps the background thread has left once \<open>running_\<close> is false.\<close>

fun worker_left :: "worker_pc \<Rightarrow> nat" where
  "worker_left Not_started = 3"
| "worker_left Created = 2"
| "worker_left In_loop = 3"
| "worker_left Taken = 2"
| "worker_left Loop_head = 1"
| "worker_left Finished = 0"

lemma worker_joined:
  "worker_enter s = Inr s' \<Longrightarrow> al_joined s' = al_joined s \<and> worker s' = Loop_head"
  "worker_take s = Inr s' \<Longrightarrow> al_joined s' = al_joined s \<and> worker s' = Taken"
  "worker_write s = Inr s' \<Longrightarrow> al_joined s' = al_joined s \<and> worker s' = Loop_head"
  "worker_exit s = Inr s' \<Longrightarrow> al_joined s' = al_joined s \<and> worker s' = Finished"
  by (auto simp: worker_enter_def worker_take_def worker_write_def worker_exit_def Let_def result_simps split: if_splits)

lemma stopped_step:
  assumes "async_inv s" and "al_joined s" and "async_step s s'"
  shows "al_joined s' \<and> (worker s' = worker s \<or> worker_left (worker s') < worker_left (worker s))"
proof -
  have inv: "queue_inv s" "worker_inv s" using assms(1) by (simp_all add: async_inv_def)
  then have pc: "worker s \<noteq> Not_started" "\<not> running s" using assms(2) by (auto simp: worker_inv_def)
  show ?thesis
    using assms(3)
  proof (cases rule: async_step.cases)
    case (do_append data)
    then have "same_worker s s'" using AsyncLogging_Append_ok [OF inv(1) do_append(1)] by auto
    then show ?thesis using assms(2) by (simp add: same_worker_def)
  next
    case do_stop
    then show ?thesis using assms(2) by (auto simp: AsyncLogging_Stop_def result_simps)
  qed (use assms(2) pc in \<open>auto dest: worker_joined\<close>)
qed

lemma stopped_can_step:
  assumes "async_inv s" and "al_joined s" and "worker s \<noteq> Finished"
  shows "\<exists>s'. async_step s s' \<and> worker s' \<noteq> worker s"
proof -
  have inv: "queue_inv s" "worker_inv s" using assms(1) by (simp_all add: async_inv_def)
  then have pc: "worker s \<noteq> Not_started" "\<not> running s" using assms(2) by (auto simp: worker_inv_def)
  show ?thesis
  proof (cases "worker s")
    case Created
    then show ?thesis using worker_enter_ok [OF inv] do_enter by force
  next
    case Loop_head
    then show ?thesis using worker_exit_ok [OF inv] do_exit pc(2) by force
  next
    case In_loop
    then show ?thesis using worker_take_ok [OF inv] do_take by force
  next
    case Taken
    then show ?thesis using worker_write_ok [OF inv] do_write by force
  qed (use pc assms(3) in simp_all)
qed

text \<open>
  C30: Stop comes back. Once it has been called, the background thread takes at most three more
  steps, however many messages other threads go on appending, and until it has finished its next
  step is possible and without a fault; so the join in Stop returns. When it has finished, all that
  was written to the log files is saved.
\<close>

theorem Stop_returns:
  assumes "reach (async_init bld SIZE) async_step s" and "al_joined s"
  shows "worker_left (worker s) \<le> 3
    \<and> (\<forall>s'. async_step s s' \<longrightarrow> al_joined s' \<and> (worker s' = worker s \<or> worker_left (worker s') < worker_left (worker s)))
    \<and> (worker s \<noteq> Finished \<longrightarrow> (\<exists>s'. async_step s s' \<and> worker s' \<noteq> worker s))
    \<and> (worker s = Finished \<longrightarrow> saved_text (al_os s) = journal_text (al_os s))"
proof -
  have inv: "async_inv s" by (rule async_runs.reach_inv [OF assms(1)])
  have "saved_text (al_os s) = journal_text (al_os s)" using inv by (simp add: async_inv_def worker_inv_def saved_text_def)
  moreover have "worker_left (worker s) \<le> 3" by (cases "worker s") simp_all
  ultimately show ?thesis using stopped_step [OF inv assms(2)] stopped_can_step [OF inv assms(2)] by blast
qed

theorem Stop_returns_witness:
  "\<exists>s. reach (async_init Debug kLargeBuffer) async_step s \<and> al_joined s \<and> accepted_text s = ''bye''
     \<and> (\<exists>s'. async_step s s' \<and> worker s' \<noteq> worker s)"
proof -
  obtain s where s: "reach (async_init Debug kLargeBuffer) async_step s" "worker s = Loop_head" "accepted_text s = ''bye''"
      "running s"
    using reach_appended by blast
  let ?s1 = "s\<lparr>running := False, al_joined := True\<rparr>"
  have stop: "AsyncLogging_Stop s = Inr ?s1"
    using reach_inv_parts(2) [OF s(1)] s(2,4) by (simp add: AsyncLogging_Stop_def worker_inv_def)
  have r1: "reach (async_init Debug kLargeBuffer) async_step ?s1" by (rule reach_step [OF s(1) do_stop [OF _ stop]]) (simp add: s(2))
  then show ?thesis using Stop_returns [OF r1] s(2,3) by (intro exI [of _ ?s1]) simp
qed

end
