(* ===== verification/Logger_Default.thy ===== *)
theory Logger_Default
  imports Base_Singleton Logger_Logger Logger_Async
begin

section \<open>logger/logger: where log lines go\<close>

text \<open>
  The second half of \<open>src/logger/logger.cpp\<close>: the output function of all loggers, and the default
  asynchronous logger, which is the instance of \<open>Singleton\<close> (\<open>Base_Singleton\<close>) for
  \<open>AsyncLogging\<close>. \<open>g_async_logging\<close> points into the singleton, so the model keeps one bit: whether
  the pointer has been set.
\<close>

subsection \<open>Output functions\<close>

text \<open>Functions of the program's own are numbered; their calls are recorded.\<close>

datatype output_func = DefaultOutput | DefaultAsyncLoggingOutput | Own_output nat

datatype flush_func = DefaultFlush | Own_flush nat

record log_sinks =
  s_log_level :: LogLevel
  s_output :: output_func
  s_flush :: flush_func
  stdout_text :: string
  stdout_flushed :: nat
  own_outputs :: "(nat \<times> string) list"
  own_flushes :: "nat list"
  g_async_logging :: bool
  async_singleton :: "AsyncLogging Singleton"
  g_is_default_async_started :: bool

definition log_sinks_init :: log_sinks where
  "log_sinks_init = \<lparr>s_log_level = INFO, s_output = DefaultOutput, s_flush = DefaultFlush, stdout_text = [],
     stdout_flushed = 0, own_outputs = [], own_flushes = [], g_async_logging = False,
     async_singleton = Singleton_init, g_is_default_async_started = False\<rparr>"

definition GetLogLevel :: "log_sinks \<Rightarrow> LogLevel" where
  [simp]: "GetLogLevel st = s_log_level st"

definition SetOutput :: "output_func \<Rightarrow> log_sinks \<Rightarrow> log_sinks" where
  "SetOutput f st = st\<lparr>s_output := f\<rparr>"

definition SetFlush :: "flush_func \<Rightarrow> log_sinks \<Rightarrow> log_sinks" where
  "SetFlush f st = st\<lparr>s_flush := f\<rparr>"

definition SetLogLevel :: "LogLevel \<Rightarrow> log_sinks \<Rightarrow> log_sinks" where
  "SetLogLevel l st = st\<lparr>s_log_level := l\<rparr>"

text \<open>Dereferencing \<open>g_async_logging\<close>, before it was set or after the singleton was destroyed.\<close>

definition with_async :: "(AsyncLogging \<Rightarrow> AsyncLogging result) \<Rightarrow> log_sinks \<Rightarrow> log_sinks result" where
  "with_async f st =
     (if \<not> g_async_logging st then Inl Undefined_behaviour
      else bindR (deref (singleton_value (async_singleton st))) (\<lambda>a.
           bindR (f a) (\<lambda>a'. Inr (st\<lparr>async_singleton := (async_singleton st)\<lparr>singleton_value := Some a'\<rparr>\<rparr>))))"

definition emit :: "string \<Rightarrow> log_sinks \<Rightarrow> log_sinks result" where
  "emit msg st =
     (case s_output st of
        DefaultOutput \<Rightarrow> Inr (st\<lparr>stdout_text := stdout_text st @ msg\<rparr>)
      | DefaultAsyncLoggingOutput \<Rightarrow> with_async (AsyncLogging_Append msg) st
      | Own_output n \<Rightarrow> Inr (st\<lparr>own_outputs := own_outputs st @ [(n, msg)]\<rparr>))"

definition flush_logs :: "log_sinks \<Rightarrow> log_sinks" where
  "flush_logs st =
     (case s_flush st of
        DefaultFlush \<Rightarrow> st\<lparr>stdout_flushed := length (stdout_text st)\<rparr>
      | Own_flush n \<Rightarrow> st\<lparr>own_flushes := own_flushes st @ [n]\<rparr>)"

text \<open>
  A whole statement: the line goes to the output function, and a fatal one runs the flush function
  and then \<open>abort\<close>; the Boolean of the answer says that the process ends here.
\<close>

definition run_statement :: "('d \<Rightarrow> string) \<Rightarrow> log_env \<Rightarrow> log_macro \<Rightarrow> string \<Rightarrow> cint \<Rightarrow> 'd log_item list \<Rightarrow> int
    \<Rightarrow> Timestamp \<Rightarrow> log_thread \<Rightarrow> log_sinks \<Rightarrow> (bool \<times> log_thread \<times> log_sinks) result" where
  "run_statement fmt env m file line args errno_now now th st =
     bindR (log_statement fmt env (GetLogLevel st) m file line args errno_now now th) (\<lambda>(effect, th').
       case effect of
         None \<Rightarrow> Inr (False, th', st)
       | Some e \<Rightarrow> bindR (emit (output_line e) st) (\<lambda>st1.
           Inr (aborted e, th', if flushed e then flush_logs st1 else st1)))"

definition SetDefaultSingletonAsyncLogging :: "build \<Rightarrow> string \<Rightarrow> int \<Rightarrow> os \<Rightarrow> log_sinks \<Rightarrow> log_sinks result" where
  "SetDefaultSingletonAsyncLogging bld base roll w st =
     bindR (Singleton_Instance bld (AsyncLogging_new bld kLargeBuffer base roll w) (async_singleton st)) (\<lambda>(_, sg).
       Inr (SetOutput DefaultAsyncLoggingOutput (st\<lparr>async_singleton := sg, g_async_logging := True\<rparr>)))"

definition StartDefaultSingletonAsyncLogging :: "build \<Rightarrow> log_sinks \<Rightarrow> log_sinks result" where
  "StartDefaultSingletonAsyncLogging bld st =
     bindR (assertR bld (g_async_logging st)) (\<lambda>_.
       if \<not> g_is_default_async_started st
       then bindR (with_async AsyncLogging_Start st) (\<lambda>st1. Inr (st1\<lparr>g_is_default_async_started := True\<rparr>))
       else Inr st)"

definition StopDefaultSingletonAsyncLogging :: "build \<Rightarrow> log_sinks \<Rightarrow> log_sinks result" where
  "StopDefaultSingletonAsyncLogging bld st =
     bindR (assertR bld (g_async_logging st)) (\<lambda>_.
       if g_is_default_async_started st
       then bindR (with_async AsyncLogging_Stop st) (\<lambda>st1. Inr (st1\<lparr>g_is_default_async_started := False\<rparr>))
       else Inr st)"

subsection \<open>Lines through the queue\<close>

lemma async_size:
  "reach (async_init bld SIZE) async_step s \<Longrightarrow> al_size s = SIZE"
proof (induction rule: reach.induct)
  case (reach_step s t)
  have "queue_inv s" using async_runs.reach_inv [OF reach_step.hyps(1)] by (simp add: async_inv_def)
  from reach_step.hyps(2) have "al_size t = al_size s"
  proof (cases rule: async_step.cases)
    case (do_append data)
    then show ?thesis using AsyncLogging_Append_ok [OF \<open>queue_inv s\<close> do_append(1)] by (auto simp: same_worker_def)
  qed (auto simp: AsyncLogging_Start_def AsyncLogging_Stop_def worker_check_def worker_enter_def worker_take_def worker_write_def
      worker_exit_def result_simps Let_def split: if_splits)
  then show ?case using reach_step.IH by simp
qed (auto simp: async_init_def AsyncLogging_new_def)

definition with_queue :: "AsyncLogging \<Rightarrow> log_sinks \<Rightarrow> log_sinks" where
  "with_queue a st = st\<lparr>async_singleton := (async_singleton st)\<lparr>singleton_value := Some a\<rparr>\<rparr>"

text \<open>A line of a log stream is always accepted by the queue, in one step of it.\<close>

lemma emit_queues:
  assumes "s_output st = DefaultAsyncLoggingOutput" and "g_async_logging st"
    and "singleton_value (async_singleton st) = Some a" and "length msg \<le> kSmallBuffer"
    and "reach (async_init bld kLargeBuffer) async_step a"
  shows "\<exists>a'. emit msg st = Inr (with_queue a' st) \<and> async_step a a' \<and> same_worker a a'
    \<and> accepted_text a' = accepted_text a @ msg \<and> length (buffers a') \<le> Suc (length (buffers a))"
proof -
  have len: "length msg < 2 ^ 31" "length msg < al_size a"
    using assms(4) async_size [OF assms(5)] by (simp_all add: kSmallBuffer_def kLargeBuffer_def)
  have "queue_inv a" using async_runs.reach_inv [OF assms(5)] by (simp add: async_inv_def)
  from AsyncLogging_Append_ok [OF this len(1)] obtain a' where a': "AsyncLogging_Append msg a = Inr a'" "same_worker a a'"
      "accepted_text a' = accepted_text a @ msg" using len(2) by (auto simp: Let_def)
  moreover have "emit msg st = Inr (with_queue a' st)"
    using assms(1-3) a'(1) by (simp add: emit_def with_async_def with_queue_def deref_def)
  ultimately show ?thesis using do_append [OF len(1) a'(1)] Append_buffers [OF a'(1)] by blast
qed

text \<open>
  A log statement whose output goes to the default asynchronous logger is queued whole: in
  every state of the queue the line is accepted, in order behind what was logged before, since no
  line is longer than 4000 bytes and a buffer of the queue is a thousand times as large. The
  statement itself does not fault.
\<close>

theorem log_line_is_queued:
  assumes "log_context fmt env now lt th args" and "macro_enabled (s_log_level st) m"
    and "s_output st = DefaultAsyncLoggingOutput" and "g_async_logging st"
    and "singleton_value (async_singleton st) = Some a" and "reach (async_init bld kLargeBuffer) async_step a"
  shows "\<exists>e th' st' a'. log_statement fmt env (s_log_level st) m file line args errno_now now th = Inr (Some e, th')
    \<and> emit (output_line e) st = Inr st' \<and> singleton_value (async_singleton st') = Some a'
    \<and> accepted_text a' = accepted_text a @ output_line e \<and> reach (async_init bld kLargeBuffer) async_step a'"
proof -
  obtain e th' where e: "log_statement fmt env (s_log_level st) m file line args errno_now now th = Inr (Some e, th')"
      "length (output_line e) \<le> kSmallBuffer"
    using log_statement_ok [OF assms(1,2), of "file" line errno_now] by blast
  from emit_queues [OF assms(3-5) e(2) assms(6)] obtain a' where "async_step a a'" "accepted_text a' = accepted_text a @ output_line e"
      "emit (output_line e) st = Inr (with_queue a' st)" by blast
  then show ?thesis
    using e(1) reach_step [OF assms(6)]
    by (intro exI [of _ e] exI [of _ th'] exI [of _ a'] exI [of _ "with_queue a' st"]) (simp add: with_queue_def)
qed

theorem log_line_is_queued_witness:
  "\<exists>st a e th' st'. reach (async_init Debug kLargeBuffer) async_step a \<and> emit (output_line e) st = Inr st'
     \<and> log_statement (\<lambda>d :: nat. []) \<lparr>env_localtime = (\<lambda>_. Some \<lparr>tm_year = 123, tm_mon = 10, tm_mday = 14, tm_hour = 22,
         tm_min = 13, tm_sec = 20\<rparr>), env_strerror_r = (\<lambda>_. None), env_gettid = 4242\<rparr> INFO LOG_WARN ''a.cpp'' 7 [] 0
         (Timestamp 1700000000000000000) log_thread_init = Inr (Some e, th')"
proof -
  let ?lt = "\<lparr>tm_year = 123, tm_mon = 10, tm_mday = 14, tm_hour = 22, tm_min = 13, tm_sec = 20\<rparr>"
  let ?env = "\<lparr>env_localtime = (\<lambda>_. Some ?lt), env_strerror_r = (\<lambda>_. None), env_gettid = 4242\<rparr>"
  have ctx: "log_context (\<lambda>d :: nat. []) ?env (Timestamp 1700000000000000000) ?lt log_thread_init []"
    by (simp add: log_context_def log_thread_init_def time_cache_ok_def tid_cache_init valid_tm_def
        TimeSinceEpochSeconds_def duration_cast_def)
  obtain a where a: "reach (async_init Debug kLargeBuffer) async_step a" using reach_appended by blast
  let ?st = "\<lparr>s_log_level = INFO, s_output = DefaultAsyncLoggingOutput, s_flush = DefaultFlush, stdout_text = [],
     stdout_flushed = 0, own_outputs = [], own_flushes = [], g_async_logging = True,
     async_singleton = \<lparr>once_done = True, singleton_value = Some a\<rparr>, g_is_default_async_started = True\<rparr>"
  have "\<exists>e th' st' a'. log_statement (\<lambda>d :: nat. []) ?env (s_log_level ?st) LOG_WARN ''a.cpp'' 7 [] 0
       (Timestamp 1700000000000000000) log_thread_init = Inr (Some e, th')
    \<and> emit (output_line e) ?st = Inr st' \<and> singleton_value (async_singleton st') = Some a'
    \<and> accepted_text a' = accepted_text a @ output_line e \<and> reach (async_init Debug kLargeBuffer) async_step a'"
    by (rule log_line_is_queued [OF ctx _ _ _ _ a]) simp_all
  then show ?thesis using a by (simp only: log_sinks.simps) blast
qed

text \<open>
  A fatal message does not reach the log file. When the output goes to the default asynchronous
  logger, \<open>LOG_FATAL\<close> (and \<open>LOG_SYS_ERROR\<close>) puts its line into the queue, runs the flush function,
  which is still the one for the standard output, and ends the process: the files are as they were
  before the statement, and the standard output has not got the line either.
\<close>

theorem fatal_line_is_lost:
  assumes "log_context fmt env now lt th args" and "m = LOG_FATAL \<or> m = LOG_SYS_ERROR"
    and "s_output st = DefaultAsyncLoggingOutput" and "g_async_logging st" and "s_flush st = DefaultFlush"
    and "singleton_value (async_singleton st) = Some a" and "reach (async_init bld kLargeBuffer) async_step a"
  shows "\<exists>th' st' a'. run_statement fmt env m file line args errno_now now th st = Inr (True, th', st')
    \<and> singleton_value (async_singleton st') = Some a'
    \<and> journal_text (al_os a') = journal_text (al_os a) \<and> stdout_text st' = stdout_text st"
proof -
  have enabled: "macro_enabled (s_log_level st) m" using assms(2) by auto
  obtain e th' where e: "log_statement fmt env (s_log_level st) m file line args errno_now now th = Inr (Some e, th')"
      "length (output_line e) \<le> kSmallBuffer" "aborted e \<longleftrightarrow> m = LOG_FATAL \<or> m = LOG_SYS_ERROR" "flushed e \<longleftrightarrow> aborted e"
    using log_statement_ok [OF assms(1) enabled, of "file" line errno_now] by blast
  from emit_queues [OF assms(3,4,6) e(2) assms(7)] obtain a' where a': "same_worker a a'"
      "emit (output_line e) st = Inr (with_queue a' st)" by blast
  then have "run_statement fmt env m file line args errno_now now th st = Inr (True, th', flush_logs (with_queue a' st))"
    using e assms(2) by (simp add: run_statement_def)
  then show ?thesis
    using a'(1) assms(5) by (intro exI [of _ th'] exI [of _ "flush_logs (with_queue a' st)"] exI [of _ a'])
      (simp add: flush_logs_def with_queue_def same_worker_def)
qed

theorem fatal_line_is_lost_witness:
  "\<exists>st a th' st'. reach (async_init Release kLargeBuffer) async_step a \<and> run_statement (\<lambda>d :: nat. [])
     \<lparr>env_localtime = (\<lambda>_. Some \<lparr>tm_year = 123, tm_mon = 10, tm_mday = 14, tm_hour = 22,
         tm_min = 13, tm_sec = 20\<rparr>), env_strerror_r = (\<lambda>_. None), env_gettid = 4242\<rparr> LOG_FATAL ''a.cpp'' 7 [] 0
         (Timestamp 1700000000000000000) log_thread_init st = Inr (True, th', st')"
proof -
  let ?lt = "\<lparr>tm_year = 123, tm_mon = 10, tm_mday = 14, tm_hour = 22, tm_min = 13, tm_sec = 20\<rparr>"
  let ?env = "\<lparr>env_localtime = (\<lambda>_. Some ?lt), env_strerror_r = (\<lambda>_. None), env_gettid = 4242\<rparr>"
  have ctx: "log_context (\<lambda>d :: nat. []) ?env (Timestamp 1700000000000000000) ?lt log_thread_init []"
    by (simp add: log_context_def log_thread_init_def time_cache_ok_def tid_cache_init valid_tm_def
        TimeSinceEpochSeconds_def duration_cast_def)
  obtain a where a: "reach (async_init Release kLargeBuffer) async_step a" using reach_appended by blast
  let ?st = "log_sinks_init\<lparr>s_output := DefaultAsyncLoggingOutput, g_async_logging := True,
     async_singleton := \<lparr>once_done = True, singleton_value = Some a\<rparr>\<rparr>"
  have "\<exists>th' st' a'. run_statement (\<lambda>d :: nat. []) ?env LOG_FATAL ''a.cpp'' 7 [] 0 (Timestamp 1700000000000000000)
       log_thread_init ?st = Inr (True, th', st') \<and> singleton_value (async_singleton st') = Some a'
    \<and> journal_text (al_os a') = journal_text (al_os a) \<and> stdout_text st' = stdout_text ?st"
    by (rule fatal_line_is_lost [OF ctx _ _ _ _ _ a]) (simp_all add: log_sinks_init_def)
  then show ?thesis using a by blast
qed

text \<open>
  The default asynchronous logger cannot be started again. After it was stopped, Start asks
  its thread to start a second time, and a Debug build fails the assertion there; setting the
  default logger again does not help, because the singleton ignores the arguments of later calls.
\<close>

theorem default_logger_starts_once:
  assumes "g_async_logging st" and "g_is_default_async_started st" and "once_done (async_singleton st)"
    and "singleton_value (async_singleton st) = Some a" and "worker a \<noteq> Not_started" and "\<not> al_joined a"
    and "al_build a = Debug"
  shows "bindR (StopDefaultSingletonAsyncLogging Debug st) (\<lambda>st1.
       bindR (SetDefaultSingletonAsyncLogging Debug base roll w st1) (StartDefaultSingletonAsyncLogging Debug))
     = Inl Assertion_failed"
  using assms
  by (simp add: StopDefaultSingletonAsyncLogging_def SetDefaultSingletonAsyncLogging_def with_async_def deref_def
      StartDefaultSingletonAsyncLogging_def Singleton_Instance_def Singleton_get_def SetOutput_def AsyncLogging_Start_def
      AsyncLogging_Stop_def Let_def)

theorem default_logger_starts_once_witness:
  "\<exists>st. g_is_default_async_started st \<and> bindR (StopDefaultSingletonAsyncLogging Debug st) (\<lambda>st1.
       bindR (SetDefaultSingletonAsyncLogging Debug ''turbo'' 1000 slow_os st1) (StartDefaultSingletonAsyncLogging Debug))
     = Inl Assertion_failed"
proof -
  let ?a = "(AsyncLogging_new Debug kLargeBuffer ''turbo'' 1000 slow_os)\<lparr>running := True, worker := Finished\<rparr>"
  let ?st = "\<lparr>s_log_level = INFO, s_output = DefaultAsyncLoggingOutput, s_flush = DefaultFlush, stdout_text = [],
     stdout_flushed = 0, own_outputs = [], own_flushes = [], g_async_logging = True,
     async_singleton = \<lparr>once_done = True, singleton_value = Some ?a\<rparr>, g_is_default_async_started = True\<rparr>"
  show ?thesis
    using default_logger_starts_once [of ?st ?a "''turbo''" 1000 slow_os]
    by (intro exI [of _ ?st]) (simp add: AsyncLogging_new_def)
qed

end
