(* ===== verification/Logger_System.thy ===== *)
theory Logger_System
  imports Logger_Default "HOL-Library.Sublist"
begin

section \<open>logger: threads that log through the default asynchronous logger\<close>

text \<open>
  A program whose threads execute log statements while the default asynchronous logger runs, composed
  of \<open>Logger_Logger\<close> (the line), \<open>Logger_Default\<close> (the output function and the singleton),
  \<open>Logger_Async\<close> (the queue) and \<open>Logger_File\<close>. A step is a whole statement of one thread, whose only
  access to shared state is its append to the queue, a step of the background thread, a change of
  the level, or \<open>StopDefaultSingletonAsyncLogging\<close>. Each thread has its own cache of the time and of
  its id. \<open>logged\<close> records, in the order of the statements, the line that a reader expects and what
  remains of it in the buffer of the statement, which holds 4000 characters.
\<close>

record logging =
  sinks :: log_sinks
  log_threads :: "int \<Rightarrow> log_thread"
  logged :: "(string \<times> string) list"
  log_ended :: bool

definition own_env :: "log_env \<Rightarrow> int \<Rightarrow> log_env" where
  "own_env env t = env\<lparr>env_gettid := t\<rparr>"

text \<open>What the program does not control: the local time is known and the values can be printed.\<close>

definition statement_context :: "('d \<Rightarrow> string) \<Rightarrow> log_env \<Rightarrow> Timestamp \<Rightarrow> tm \<Rightarrow> 'd log_item list \<Rightarrow> bool" where
  "statement_context fmt env now lt args \<longleftrightarrow> env_localtime env (TimeSinceEpochSeconds now) = Some lt \<and> valid_tm lt
     \<and> 0 < TimeSinceEpochSeconds now \<and> 0 \<le> TimeSinceEpoch now \<and> (\<forall>a \<in> set args. ok_item fmt a)"

definition thread_statement :: "('d \<Rightarrow> string) \<Rightarrow> log_env \<Rightarrow> int \<Rightarrow> log_macro \<Rightarrow> string \<Rightarrow> cint \<Rightarrow> 'd log_item list
    \<Rightarrow> int \<Rightarrow> Timestamp \<Rightarrow> logging \<Rightarrow> logging result" where
  "thread_statement fmt env t m file line args errno_now now s =
     bindR (run_statement fmt (own_env env t) m file line args errno_now now (log_threads s t) (sinks s))
       (\<lambda>(ended, th', st').
         Inr (s\<lparr>sinks := st', log_threads := (log_threads s)(t := th'), log_ended := ended\<rparr>))"

definition expected_line :: "('d \<Rightarrow> string) \<Rightarrow> log_env \<Rightarrow> int \<Rightarrow> log_macro \<Rightarrow> string \<Rightarrow> cint \<Rightarrow> 'd log_item list
    \<Rightarrow> int \<Rightarrow> Timestamp \<Rightarrow> tm \<Rightarrow> logging \<Rightarrow> string" where
  "expected_line fmt env t m file line args errno_now now lt s =
     log_line fmt (own_env env t) (error_text (own_env env t) (log_threads s t) m errno_now) m file line args errno_now now lt"

definition line_remains :: "('d \<Rightarrow> string) \<Rightarrow> log_env \<Rightarrow> int \<Rightarrow> log_macro \<Rightarrow> string \<Rightarrow> cint \<Rightarrow> 'd log_item list
    \<Rightarrow> int \<Rightarrow> Timestamp \<Rightarrow> tm \<Rightarrow> logging \<Rightarrow> string" where
  "line_remains fmt env t m file line args errno_now now lt s =
     kept_line fmt (own_env env t) (error_text (own_env env t) (log_threads s t) m errno_now) m file line args errno_now now lt"

text \<open>A step of the background thread, in the program.\<close>

definition program_background :: "logging \<Rightarrow> logging \<Rightarrow> bool" where
  "program_background s s' \<longleftrightarrow> \<not> log_ended s \<and> (\<exists>a a'. singleton_value (async_singleton (sinks s)) = Some a
     \<and> background_step a a' \<and> s' = s\<lparr>sinks := with_queue a' (sinks s)\<rparr>)"

inductive logging_step :: "build \<Rightarrow> ('d \<Rightarrow> string) \<Rightarrow> log_env \<Rightarrow> logging \<Rightarrow> logging \<Rightarrow> bool"
    for bld :: build and fmt :: "'d \<Rightarrow> string" and env :: log_env where
  log_statement_step: "\<not> log_ended s \<Longrightarrow> 0 < t \<Longrightarrow> statement_context fmt env now lt args
    \<Longrightarrow> thread_statement fmt env t m file line args errno_now now s = Inr s'
    \<Longrightarrow> logging_step bld fmt env s (s'\<lparr>logged := logged s
          @ (if macro_enabled (s_log_level (sinks s)) m
             then [(expected_line fmt env t m file line args errno_now now lt s,
                    line_remains fmt env t m file line args errno_now now lt s)] else [])\<rparr>)"
| log_background_step: "program_background s s' \<Longrightarrow> logging_step bld fmt env s s'"
| log_level_step: "\<not> log_ended s \<Longrightarrow> logging_step bld fmt env s (s\<lparr>sinks := SetLogLevel l (sinks s)\<rparr>)"
| log_stop_step: "\<not> log_ended s \<Longrightarrow> singleton_value (async_singleton (sinks s)) = Some a
    \<Longrightarrow> worker a \<in> {Loop_head, In_loop, Taken, Finished} \<Longrightarrow> StopDefaultSingletonAsyncLogging bld (sinks s) = Inr st'
    \<Longrightarrow> logging_step bld fmt env s (s\<lparr>sinks := st'\<rparr>)"

text \<open>At the beginning the default logger has been set and started.\<close>

definition logging_init :: "build \<Rightarrow> logging \<Rightarrow> bool" where
  "logging_init bld s \<longleftrightarrow> (\<exists>base roll w st. os_ok w \<and> os_journal w = [] \<and> os_saved w = 0 \<and> CHR ''/'' \<notin> set base
     \<and> bindR (SetDefaultSingletonAsyncLogging bld base roll w log_sinks_init) (StartDefaultSingletonAsyncLogging bld) = Inr st
     \<and> s = \<lparr>sinks = st, log_threads = (\<lambda>_. log_thread_init), logged = [], log_ended = False\<rparr>)"

subsection \<open>The invariant\<close>

text \<open>
  What remains of a line: all of it up to 3952 characters, and of a longer line at most 4000
  characters, in their order.
\<close>

definition remains_of :: "string \<Rightarrow> string \<Rightarrow> bool" where
  "remains_of full kept \<longleftrightarrow> length kept \<le> kSmallBuffer \<and> subseq kept full \<and> (length full \<le> 3952 \<longrightarrow> kept = full)"

lemma subseq_accepted: "subseq (accepted need render n as) (concat (map render as))"
proof (induction as arbitrary: n)
  case (Cons a as)
  then show ?case by (simp add: list_emb_append_mono subseq_order.refl list_emb_append2)
qed simp

text \<open>The queue is in a state it can reach, and it has accepted exactly what remains of the lines.\<close>

definition queue_of :: "build \<Rightarrow> logging \<Rightarrow> AsyncLogging \<Rightarrow> bool" where
  "queue_of bld s a \<longleftrightarrow> singleton_value (async_singleton (sinks s)) = Some a
     \<and> reach (async_init bld kLargeBuffer) async_step a \<and> accepted_text a = concat (map snd (logged s))"

definition logging_inv :: "build \<Rightarrow> log_env \<Rightarrow> logging \<Rightarrow> bool" where
  "logging_inv bld env s \<longleftrightarrow> (\<exists>a. queue_of bld s a) \<and> s_output (sinks s) = DefaultAsyncLoggingOutput
     \<and> g_async_logging (sinks s) \<and> (\<forall>(full, kept) \<in> set (logged s). remains_of full kept)
     \<and> (\<forall>t > 0. time_cache_ok env (log_threads s t) \<and> tid_cache_ok t (current_thread (log_threads s t)))"

lemma own_env_fields [simp]:
  "env_gettid (own_env env t) = t" "env_localtime (own_env env t) = env_localtime env"
  "time_cache_ok (own_env env t) th = time_cache_ok env th"
  by (simp_all add: own_env_def time_cache_ok_def)

lemma thread_context:
  assumes "logging_inv bld env s" and "0 < t" and "statement_context fmt env now lt args"
  shows "log_context fmt (own_env env t) now lt (log_threads s t) args"
  using assms by (auto simp: logging_inv_def statement_context_def log_context_def)

lemma with_queue_fields [simp]:
  "singleton_value (async_singleton (with_queue a st)) = Some a" "s_output (with_queue a st) = s_output st"
  "g_async_logging (with_queue a st) = g_async_logging st" "s_log_level (with_queue a st) = s_log_level st"
  by (simp_all add: with_queue_def)

lemma flush_logs_fields [simp]:
  "async_singleton (flush_logs st) = async_singleton st" "s_output (flush_logs st) = s_output st"
  "g_async_logging (flush_logs st) = g_async_logging st"
  by (cases "s_flush st"; simp add: flush_logs_def)+

text \<open>A statement that is enabled appends its line and changes nothing else of the queue.\<close>

lemma thread_statement_ok:
  assumes inv: "logging_inv bld env s" and t: "0 < t" and ctx: "statement_context fmt env now lt args"
    and queue: "singleton_value (async_singleton (sinks s)) = Some a"
  shows "\<exists>s' a'. thread_statement fmt env t m file line args errno_now now s = Inr s'
    \<and> singleton_value (async_singleton (sinks s')) = Some a' \<and> same_worker a a' \<and> length (buffers a') \<le> Suc (length (buffers a))
    \<and> (log_ended s' \<longrightarrow> m = LOG_FATAL \<or> m = LOG_SYS_ERROR)"
proof (cases "macro_enabled (s_log_level (sinks s)) m")
  case True
  have a: "reach (async_init bld kLargeBuffer) async_step a" using inv queue by (auto simp: logging_inv_def queue_of_def)
  obtain e th' where e: "log_statement fmt (own_env env t) (s_log_level (sinks s)) m file line args errno_now now (log_threads s t)
      = Inr (Some e, th')" "length (output_line e) \<le> kSmallBuffer" "aborted e \<longleftrightarrow> m = LOG_FATAL \<or> m = LOG_SYS_ERROR"
    using log_statement_ok [OF thread_context [OF inv t ctx] True] by blast
  have sinks: "s_output (sinks s) = DefaultAsyncLoggingOutput" "g_async_logging (sinks s)" using inv by (simp_all add: logging_inv_def)
  obtain a' where "emit (output_line e) (sinks s) = Inr (with_queue a' (sinks s))" "same_worker a a'"
      "length (buffers a') \<le> Suc (length (buffers a))"
    using emit_queues [OF sinks queue e(2) a] by blast
  then show ?thesis using e(1,3) by (simp add: thread_statement_def run_statement_def)
qed (simp add: thread_statement_def run_statement_def log_statement_def queue same_worker_def)

lemma line_remains_of:
  assumes "logging_inv bld env s" and "0 < t" and "statement_context fmt env now lt args"
    and "length (line_remains fmt env t m file line args errno_now now lt s) \<le> kSmallBuffer"
  shows "remains_of (expected_line fmt env t m file line args errno_now now lt s)
    (line_remains fmt env t m file line args errno_now now lt s)"
proof -
  note ctx = thread_context [OF assms(1-3)]
  let ?msg = "error_text (own_env env t) (log_threads s t) m errno_now"
  have "subseq (line_remains fmt env t m file line args errno_now now lt s)
      (expected_line fmt env t m file line args errno_now now lt s)"
    unfolding line_remains_def expected_line_def kept_line_def render_statement [OF ctx, symmetric] by (rule subseq_accepted)
  then show ?thesis
    using assms(4) kept_line_fits [OF ctx, of ?msg m "file" line errno_now]
    by (simp add: remains_of_def line_remains_def expected_line_def)
qed

lemma thread_statement_keeps:
  assumes inv: "logging_inv bld env s" and t: "0 < t" and ctx: "statement_context fmt env now lt args"
    and run: "thread_statement fmt env t m file line args errno_now now s = Inr s'"
  shows "logging_inv bld env (s'\<lparr>logged := logged s @ (if macro_enabled (s_log_level (sinks s)) m
     then [(expected_line fmt env t m file line args errno_now now lt s,
            line_remains fmt env t m file line args errno_now now lt s)] else [])\<rparr>)"
proof (cases "macro_enabled (s_log_level (sinks s)) m")
  case True
  let ?line = "line_remains fmt env t m file line args errno_now now lt s"
  obtain a where a: "singleton_value (async_singleton (sinks s)) = Some a" "reach (async_init bld kLargeBuffer) async_step a"
      "accepted_text a = concat (map snd (logged s))"
    using inv by (auto simp: logging_inv_def queue_of_def)
  obtain e th' where e: "log_statement fmt (own_env env t) (s_log_level (sinks s)) m file line args errno_now now (log_threads s t)
      = Inr (Some e, th')" "output_line e = ?line" "length ?line \<le> kSmallBuffer"
      "time_cache_ok env th'" "tid_cache_ok t (current_thread th')"
    using log_statement_kept [OF thread_context [OF inv t ctx] True, of "file" line errno_now]
    by (auto simp: line_remains_def)
  have len: "length (output_line e) \<le> kSmallBuffer" using e(2,3) by simp
  have sinks: "s_output (sinks s) = DefaultAsyncLoggingOutput" "g_async_logging (sinks s)" using inv by (simp_all add: logging_inv_def)
  obtain a' where a': "emit (output_line e) (sinks s) = Inr (with_queue a' (sinks s))" "async_step a a'"
      "accepted_text a' = accepted_text a @ ?line"
    using emit_queues [OF sinks a(1) len a(2)] e(2) by auto
  have "reach (async_init bld kLargeBuffer) async_step a'" by (rule reach_step [OF a(2) a'(2)])
  then show ?thesis
    using inv run e(1,4,5) a' a(3) True sinks line_remains_of [OF inv t ctx e(3)]
    by (auto simp: thread_statement_def run_statement_def logging_inv_def queue_of_def)
next
  case False
  then show ?thesis
    using inv run by (auto simp: thread_statement_def run_statement_def log_statement_def logging_inv_def queue_of_def)
qed

lemma default_stop:
  assumes "StopDefaultSingletonAsyncLogging bld st = Inr st'" and "singleton_value (async_singleton st) = Some a"
  shows "st' = st \<or> (\<exists>a'. AsyncLogging_Stop a = Inr a' \<and> st' = (with_queue a' st)\<lparr>g_is_default_async_started := False\<rparr>)"
  using assms
  by (auto simp: StopDefaultSingletonAsyncLogging_def with_async_def with_queue_def deref_def result_simps split: if_splits)

lemma logging_inv_step:
  assumes inv: "logging_inv bld env s" and step: "logging_step bld fmt env s s'"
  shows "logging_inv bld env s'"
  using step
proof (cases rule: logging_step.cases)
  case (log_statement_step t now lt args m "file" line errno_now s1)
  from thread_statement_keeps [OF inv log_statement_step(3-5)] show ?thesis unfolding log_statement_step(1) .
next
  case log_background_step
  then obtain a a' where a: "singleton_value (async_singleton (sinks s)) = Some a" "background_step a a'"
      "s' = s\<lparr>sinks := with_queue a' (sinks s)\<rparr>" by (auto simp: program_background_def)
  then have "accepted_text a' = accepted_text a" "reach (async_init bld kLargeBuffer) async_step a'"
    using inv background_accepts [of bld kLargeBuffer a a'] by (auto simp: logging_inv_def queue_of_def)
  then show ?thesis using inv a by (auto simp: logging_inv_def queue_of_def)
next
  case (log_level_step l)
  then show ?thesis using inv by (auto simp: logging_inv_def queue_of_def SetLogLevel_def)
next
  case (log_stop_step a st')
  from default_stop [OF log_stop_step(5,3)] show ?thesis
  proof
    assume "\<exists>a'. AsyncLogging_Stop a = Inr a' \<and> st' = (with_queue a' (sinks s))\<lparr>g_is_default_async_started := False\<rparr>"
    then obtain a' where a': "AsyncLogging_Stop a = Inr a'" "st' = (with_queue a' (sinks s))\<lparr>g_is_default_async_started := False\<rparr>"
      by blast
    have a: "reach (async_init bld kLargeBuffer) async_step a" "accepted_text a = concat (map snd (logged s))"
      using inv log_stop_step(3) by (auto simp: logging_inv_def queue_of_def)
    have "reach (async_init bld kLargeBuffer) async_step a'" by (rule reach_step [OF a(1) do_stop [OF log_stop_step(4) a'(1)]])
    moreover have "accepted_text a' = accepted_text a" using a'(1) by (auto simp: AsyncLogging_Stop_def result_simps split: if_splits)
    ultimately show ?thesis using inv log_stop_step(1) a'(2) a(2) by (auto simp: logging_inv_def queue_of_def)
  qed (use inv log_stop_step(1) in simp)
qed

lemma logging_inv_init: "logging_init bld s \<Longrightarrow> logging_inv bld env s"
proof -
  assume "logging_init bld s"
  then obtain base roll w st where w: "os_ok w" "os_journal w = []" "os_saved w = 0" "CHR ''/'' \<notin> set base"
      and st: "bindR (SetDefaultSingletonAsyncLogging bld base roll w log_sinks_init) (StartDefaultSingletonAsyncLogging bld) = Inr st"
      and s: "s = \<lparr>sinks = st, log_threads = (\<lambda>_. log_thread_init), logged = [], log_ended = False\<rparr>"
    unfolding logging_init_def by blast
  let ?new = "AsyncLogging_new bld kLargeBuffer base roll w"
  let ?started = "?new\<lparr>running := True, worker := Created\<rparr>"
  have new: "worker ?new = Not_started" by (simp add: AsyncLogging_new_def)
  have start: "AsyncLogging_Start ?new = Inr ?started" by (simp add: AsyncLogging_Start_def new)
  have "async_init bld kLargeBuffer ?new"
    unfolding async_init_def by (intro conjI kLargeBuffer_bounds exI [of _ base] exI [of _ roll] exI [of _ w] w refl)
  then have "reach (async_init bld kLargeBuffer) async_step ?started" using do_start [OF new start] by (intro reach_step [OF reach_init])
  moreover have "singleton_value (async_singleton st) = Some ?started" "s_output st = DefaultAsyncLoggingOutput" "g_async_logging st"
    using st start
    by (auto simp: SetDefaultSingletonAsyncLogging_def StartDefaultSingletonAsyncLogging_def log_sinks_init_def SetOutput_def
        Singleton_Instance_def Singleton_get_def Singleton_init_def with_async_def deref_def result_simps Let_def)
  moreover have "accepted_text ?started = []" by (simp add: AsyncLogging_new_def)
  moreover have "time_cache_ok env log_thread_init \<and> tid_cache_ok t (current_thread log_thread_init)" if "0 < t" for t
    using that by (simp add: log_thread_init_def time_cache_ok_def tid_cache_init)
  ultimately show ?thesis by (auto simp: s logging_inv_def queue_of_def)
qed

interpretation logging_runs: invariant_system "logging_init bld" "logging_step bld fmt env" "logging_inv bld env" for bld fmt env
  by unfold_locales (auto intro: logging_inv_init logging_inv_step)

text \<open>What the background thread can do on the queue it can do in the program.\<close>

lemma background_runs_in_program:
  assumes "background_step\<^sup>*\<^sup>* a a'" and "\<not> log_ended s" and "singleton_value (async_singleton (sinks s)) = Some a"
  shows "\<exists>s'. program_background\<^sup>*\<^sup>* s s' \<and> logged s' = logged s \<and> \<not> log_ended s'
    \<and> singleton_value (async_singleton (sinks s')) = Some a'"
  using assms(1)
proof (induction rule: rtranclp_induct)
  case base
  then show ?case using assms(2,3) by blast
next
  case (step b c)
  then obtain s' where s': "program_background\<^sup>*\<^sup>* s s'" "logged s' = logged s" "\<not> log_ended s'"
      "singleton_value (async_singleton (sinks s')) = Some b" by blast
  have "program_background s' (s'\<lparr>sinks := with_queue c (sinks s')\<rparr>)"
    using s'(3,4) step.hyps(2) by (auto simp: program_background_def)
  with s'(1) have "program_background\<^sup>*\<^sup>* s (s'\<lparr>sinks := with_queue c (sinks s')\<rparr>)" by (rule rtranclp.rtrancl_into_rtrancl)
  then show ?case using s'(2,3) by (intro exI [of _ "s'\<lparr>sinks := with_queue c (sinks s')\<rparr>"]) simp
qed

subsection \<open>Properties\<close>

text \<open>
  C5: Logging is complete. Whatever statements the threads of a program execute, in any interleaving
  with each other, with the background thread and with Stop: no statement faults, and as long as
  no buffers had to be dropped, what is saved in the log files followed by what is still queued is
  exactly the lines of the statements, in their order. A line of at most 3952 characters is there as
  it should be; of a longer line the parts that fit into 4000 characters are there.
\<close>

theorem logging_is_complete:
  assumes "reach (logging_init bld) (logging_step bld fmt env) s"
  shows "(\<exists>a. singleton_value (async_singleton (sinks s)) = Some a
      \<and> (\<not> dropped a \<longrightarrow> concat (map snd (logged s)) = saved_text (al_os a) @ pending_text a))
    \<and> (\<forall>(full, kept) \<in> set (logged s). remains_of full kept)
    \<and> (0 < t \<and> statement_context fmt env now lt args
        \<longrightarrow> (\<exists>s'. thread_statement fmt env t m file line args errno_now now s = Inr s'))"
proof -
  have inv: "logging_inv bld env s" by (rule logging_runs.reach_inv [OF assms])
  then obtain a where a: "singleton_value (async_singleton (sinks s)) = Some a"
      "reach (async_init bld kLargeBuffer) async_step a" "accepted_text a = concat (map snd (logged s))"
    by (auto simp: logging_inv_def queue_of_def)
  have "saved_text (al_os a) = journal_text (al_os a)"
    using reach_inv_parts(2) [OF a(2)] by (simp add: worker_inv_def saved_text_def)
  then have "\<not> dropped a \<longrightarrow> concat (map snd (logged s)) = saved_text (al_os a) @ pending_text a"
    using reach_inv_parts(3) [OF a(2)] a(3) by (simp add: text_inv_def)
  moreover have "\<forall>(full, kept) \<in> set (logged s). remains_of full kept" using inv by (simp add: logging_inv_def)
  moreover have "0 < t \<and> statement_context fmt env now lt args
        \<longrightarrow> (\<exists>s'. thread_statement fmt env t m file line args errno_now now s = Inr s')"
    using thread_statement_ok [OF inv _ _ a(1)] by blast
  ultimately show ?thesis using a(1) by blast
qed

lemma default_logger_starts:
  "\<exists>s a. logging_init bld s \<and> singleton_value (async_singleton (sinks s)) = Some a \<and> \<not> dropped a \<and> running a
     \<and> buffers a = [] \<and> buffers_to_write a = [] \<and> s_log_level (sinks s) = INFO \<and> \<not> log_ended s \<and> logged s = []"
proof -
  have "\<exists>st a. bindR (SetDefaultSingletonAsyncLogging bld ''turbo'' 1000 slow_os log_sinks_init) (StartDefaultSingletonAsyncLogging bld) = Inr st
      \<and> s_log_level st = INFO \<and> singleton_value (async_singleton st) = Some a \<and> \<not> dropped a \<and> running a \<and> buffers a = [] \<and> buffers_to_write a = []"
    by (simp add: SetDefaultSingletonAsyncLogging_def StartDefaultSingletonAsyncLogging_def log_sinks_init_def SetOutput_def
        Singleton_Instance_def Singleton_get_def Singleton_init_def with_async_def deref_def AsyncLogging_Start_def AsyncLogging_new_def Let_def)
  then obtain st a where st: "bindR (SetDefaultSingletonAsyncLogging bld ''turbo'' 1000 slow_os log_sinks_init)
      (StartDefaultSingletonAsyncLogging bld) = Inr st" "s_log_level st = INFO"
      "singleton_value (async_singleton st) = Some a" "\<not> dropped a" "running a" "buffers a = []" "buffers_to_write a = []" by blast
  let ?s = "\<lparr>sinks = st, log_threads = (\<lambda>_. log_thread_init), logged = [], log_ended = False\<rparr>"
  have "os_journal slow_os = []" "CHR ''/'' \<notin> set ''turbo''" by (simp_all add: slow_os_def)
  then have "logging_init bld ?s"
    unfolding logging_init_def using st(1) slow_os_ok(1,3) by blast
  then show ?thesis using st(2-7) by (intro exI [of _ ?s] exI [of _ a]) simp
qed

lemma statement_reaches:
  assumes r: "reach (logging_init bld) (logging_step bld fmt env) s" and "\<not> log_ended s" and "0 < t"
    and ctx: "statement_context fmt env now lt args" and enabled: "macro_enabled (s_log_level (sinks s)) m"
    and queue: "singleton_value (async_singleton (sinks s)) = Some a"
  shows "\<exists>s' a'. reach (logging_init bld) (logging_step bld fmt env) s'
    \<and> singleton_value (async_singleton (sinks s')) = Some a' \<and> same_worker a a' \<and> length (buffers a') \<le> Suc (length (buffers a))
    \<and> (log_ended s' \<longrightarrow> m = LOG_FATAL \<or> m = LOG_SYS_ERROR)
    \<and> logged s' = logged s @ [(expected_line fmt env t m file line args errno_now now lt s,
        line_remains fmt env t m file line args errno_now now lt s)]"
proof -
  obtain s1 a1 where s1: "thread_statement fmt env t m file line args errno_now now s = Inr s1"
      "singleton_value (async_singleton (sinks s1)) = Some a1" "same_worker a a1"
      "length (buffers a1) \<le> Suc (length (buffers a))" "log_ended s1 \<longrightarrow> m = LOG_FATAL \<or> m = LOG_SYS_ERROR"
    using thread_statement_ok [OF logging_runs.reach_inv [OF r] assms(3) ctx queue] by blast
  show ?thesis
    using reach_step [OF r log_statement_step [OF assms(2,3) ctx s1(1)]] enabled s1(2-5)
    by (intro exI conjI) (assumption, simp_all)
qed

lemma one_line_logged:
  "\<exists>env s a line. reach (logging_init Debug) (logging_step Debug (\<lambda>d :: nat. []) env) s \<and> logged s = [(line, line)]
     \<and> line \<noteq> [] \<and> \<not> log_ended s
     \<and> singleton_value (async_singleton (sinks s)) = Some a \<and> \<not> dropped a \<and> running a
     \<and> buffers_to_write a = [] \<and> length (buffers a) \<le> 1"
proof -
  define lt where "lt = \<lparr>tm_year = 123, tm_mon = 10, tm_mday = 14, tm_hour = 22, tm_min = 13, tm_sec = 20\<rparr>"
  define env where "env = \<lparr>env_localtime = (\<lambda>_. Some lt), env_strerror_r = (\<lambda>_. None), env_gettid = 0\<rparr>"
  define now where "now = Timestamp 1700000000000000000"
  define fmt :: "nat \<Rightarrow> string" where "fmt = (\<lambda>d. [])"
  obtain s0 a0 where init: "logging_init Debug s0" and level: "s_log_level (sinks s0) = INFO" "\<not> log_ended s0" "logged s0 = []"
      and queue: "singleton_value (async_singleton (sinks s0)) = Some a0" "\<not> dropped a0" "running a0" "buffers a0 = []" "buffers_to_write a0 = []"
    using default_logger_starts by blast
  have r0: "reach (logging_init Debug) (logging_step Debug fmt env) s0" by (rule reach_init) (rule init)
  have ctx: "statement_context fmt env now lt []"
    by (simp add: statement_context_def env_def lt_def now_def valid_tm_def TimeSinceEpochSeconds_def duration_cast_def)
  let ?line = "expected_line fmt env 1 LOG_WARN ''a.cpp'' 7 [] 0 now lt s0"
  have seven: "length (dec_int (sint (7 :: cint))) = 1" "length (dec_int 1) = 1"
    by (simp_all add: dec_int_def dec_nat_def decimal.render_nat_rec)
  have "length (dec_padded 6 (TimeSinceEpochMicroSeconds now mod 1000000)) = 6"
    using length_dec_padded [of "TimeSinceEpochMicroSeconds now mod 1000000" 5] by simp
  moreover have "length (format_date lt) = 19" using format_date_fields(1) [of lt] by (simp add: lt_def valid_tm_def)
  ultimately have fits: "length ?line \<le> 3952" and some: "?line \<noteq> []"
    using seven by (simp_all add: expected_line_def log_line_def errno_text_def kLogLevelName_def basename_def SourceFile_pointer_def)
  have "macro_enabled (s_log_level (sinks s0)) LOG_WARN" by simp
  from statement_reaches [OF r0 level(2) zero_less_one ctx this queue(1), of "''a.cpp''" 7 0] level(3) queue(2-5)
  obtain s1 a1 kept where s1: "reach (logging_init Debug) (logging_step Debug fmt env) s1" "logged s1 = [(?line, kept)]"
      "singleton_value (async_singleton (sinks s1)) = Some a1" "\<not> dropped a1" "running a1" "buffers_to_write a1 = []"
      "length (buffers a1) \<le> 1" "\<not> log_ended s1" by (auto simp: same_worker_def)
  have "remains_of ?line kept"
    using logging_runs.reach_inv [OF s1(1)] s1(2) by (simp add: logging_inv_def)
  then have "kept = ?line" using fits by (simp add: remains_of_def)
  then show ?thesis using s1 some unfolding fmt_def
    by (intro exI [of _ env] exI [of _ s1] exI [of _ a1] exI [of _ ?line]) (simp add: fmt_def)
qed

theorem logging_is_complete_witness:
  "\<exists>env s a line. reach (logging_init Debug) (logging_step Debug (\<lambda>d :: nat. []) env) s
     \<and> logged s = [(line, line)] \<and> line \<noteq> [] \<and> singleton_value (async_singleton (sinks s)) = Some a
     \<and> line = saved_text (al_os a) @ pending_text a"
proof -
  obtain env s a line where s: "reach (logging_init Debug) (logging_step Debug (\<lambda>d :: nat. []) env) s" "logged s = [(line, line)]"
      "line \<noteq> []" "singleton_value (async_singleton (sinks s)) = Some a" "\<not> dropped a"
    using one_line_logged by blast
  then have "concat (map snd (logged s)) = saved_text (al_os a) @ pending_text a" using logging_is_complete [OF s(1)] by auto
  then have "line = saved_text (al_os a) @ pending_text a" by (simp add: s(2))
  with s(1-4) show ?thesis by blast
qed

text \<open>
  C31: Every line can reach the file. As long as the program has not ended, its logger has not been
  stopped, no buffers were dropped and the queue is not overfull (at most 24 full buffers wait and 25 are
  being written, so that the background thread will drop none), steps of the background thread
  alone bring the program from any reachable state to one in which the logger still runs and the log
  files hold exactly what remains of the lines of all statements executed so far, in their order
  (all of a line that has at most 3952 characters).
\<close>

theorem logging_can_catch_up:
  assumes "reach (logging_init bld) (logging_step bld fmt env) s" and "\<not> log_ended s"
    and "singleton_value (async_singleton (sinks s)) = Some a" and "running a"
    and "\<not> dropped a" and "length (buffers_to_write a) \<le> 25" and "length (buffers a) < 25"
  shows "\<exists>s' a'. program_background\<^sup>*\<^sup>* s s' \<and> logged s' = logged s
    \<and> singleton_value (async_singleton (sinks s')) = Some a' \<and> running a'
    \<and> saved_text (al_os a') = concat (map snd (logged s))"
proof -
  have "logging_inv bld env s" by (rule logging_runs.reach_inv [OF assms(1)])
  then have a: "reach (async_init bld kLargeBuffer) async_step a" "accepted_text a = concat (map snd (logged s))"
    using assms(3) by (auto simp: logging_inv_def queue_of_def)
  obtain a' where a': "background_step\<^sup>*\<^sup>* a a'" "running a'" "saved_text (al_os a') = accepted_text a"
    using background_can_flush [OF a(1) assms(4-7)] by blast
  then show ?thesis using background_runs_in_program [OF a'(1) assms(2,3)] a(2) by metis
qed

theorem logging_can_catch_up_witness:
  "\<exists>env s s' a line. reach (logging_init Debug) (logging_step Debug (\<lambda>d :: nat. []) env) s \<and> logged s = [(line, line)]
     \<and> line \<noteq> [] \<and> program_background\<^sup>*\<^sup>* s s'
     \<and> singleton_value (async_singleton (sinks s')) = Some a \<and> running a \<and> saved_text (al_os a) = line"
proof -
  obtain env s a line where s: "reach (logging_init Debug) (logging_step Debug (\<lambda>d :: nat. []) env) s" "logged s = [(line, line)]"
      "line \<noteq> []" "\<not> log_ended s" "singleton_value (async_singleton (sinks s)) = Some a" "\<not> dropped a" "running a"
      "buffers_to_write a = []" "length (buffers a) \<le> 1"
    using one_line_logged by blast
  have few: "length (buffers_to_write a) \<le> 25" "length (buffers a) < 25" using s(8,9) by simp_all
  from logging_can_catch_up [OF s(1,4,5,7,6) few] obtain s' a' where
      "program_background\<^sup>*\<^sup>* s s'" "logged s' = logged s"
      "singleton_value (async_singleton (sinks s')) = Some a'" "running a'" "saved_text (al_os a') = concat (map snd (logged s))" by blast
  then show ?thesis using s(1-3) by (intro exI [of _ env] exI [of _ s] exI [of _ s'] exI [of _ a'] exI [of _ line]) simp
qed

end
