(* ===== verification/Net_Endian.thy ===== *)
theory Net_Endian
  imports Turbo_Prelude
begin

section \<open>net/inet\_endian: byte orders\<close>

text \<open>
  The conversions of \<open>src/net/inet_endian.h\<close> for hosts of either byte order. A word is stored in
  memory in the host's order; \<open>htobe*\<close> and \<open>be*toh\<close> of the C library swap the bytes of a word on a
  little-endian host and return it unchanged on a big-endian one.
\<close>

type_synonym byte = "8 word"

datatype byte_order = Little_endian | Big_endian

fun bytes_be :: "nat \<Rightarrow> nat \<Rightarrow> byte list" where
  "bytes_be 0 x = []"
| "bytes_be (Suc n) x = bytes_be n (x div 256) @ [of_nat x]"

definition value_be :: "byte list \<Rightarrow> nat" where
  "value_be bs = foldl (\<lambda>a b. a * 256 + unat b) 0 bs"

definition byte_swap :: "nat \<Rightarrow> 'a::len word \<Rightarrow> 'a word" where
  "byte_swap n w = of_nat (value_be (rev (bytes_be n (unat w))))"

definition htobe :: "byte_order \<Rightarrow> nat \<Rightarrow> 'a::len word \<Rightarrow> 'a word" where
  "htobe order n w = (case order of Little_endian \<Rightarrow> byte_swap n w | Big_endian \<Rightarrow> w)"

definition betoh :: "byte_order \<Rightarrow> nat \<Rightarrow> 'a::len word \<Rightarrow> 'a word" where
  "betoh order n w = (case order of Little_endian \<Rightarrow> byte_swap n w | Big_endian \<Rightarrow> w)"

definition HostToNetwork64 :: "byte_order \<Rightarrow> 64 word \<Rightarrow> 64 word" where
  "HostToNetwork64 order host64 = htobe order 8 host64"

definition HostToNetwork32 :: "byte_order \<Rightarrow> 32 word \<Rightarrow> 32 word" where
  "HostToNetwork32 order host32 = htobe order 4 host32"

definition HostToNetwork16 :: "byte_order \<Rightarrow> 16 word \<Rightarrow> 16 word" where
  "HostToNetwork16 order host16 = htobe order 2 host16"

definition NetworkToHost64 :: "byte_order \<Rightarrow> 64 word \<Rightarrow> 64 word" where
  "NetworkToHost64 order net64 = betoh order 8 net64"

definition NetworkToHost32 :: "byte_order \<Rightarrow> 32 word \<Rightarrow> 32 word" where
  "NetworkToHost32 order net32 = betoh order 4 net32"

definition NetworkToHost16 :: "byte_order \<Rightarrow> 16 word \<Rightarrow> 16 word" where
  "NetworkToHost16 order net16 = betoh order 2 net16"

text \<open>How a word of \<open>n\<close> bytes lies in memory, and what a load of these bytes gives.\<close>

definition mem_image :: "byte_order \<Rightarrow> nat \<Rightarrow> 'a::len word \<Rightarrow> byte list" where
  "mem_image order n w = (case order of Little_endian \<Rightarrow> rev (bytes_be n (unat w)) | Big_endian \<Rightarrow> bytes_be n (unat w))"

definition mem_word :: "byte_order \<Rightarrow> byte list \<Rightarrow> 'a::len word" where
  "mem_word order bs = of_nat (value_be (case order of Little_endian \<Rightarrow> rev bs | Big_endian \<Rightarrow> bs))"

subsection \<open>Positional bytes\<close>

lemma length_bytes_be [simp]: "length (bytes_be n x) = n"
  by (induction n x rule: bytes_be.induct) auto

lemma value_be_Nil [simp]: "value_be [] = 0"
  by (simp add: value_be_def)

lemma value_be_snoc [simp]: "value_be (bs @ [b]) = value_be bs * 256 + unat b"
  by (simp add: value_be_def)

lemma value_be_less: "value_be bs < 256 ^ length bs"
proof (induction bs rule: rev_induct)
  case (snoc b bs)
  then have "Suc (value_be bs) * 256 \<le> 256 ^ length bs * 256" by (intro mult_le_mono1) simp
  moreover have "unat b < 256" using unsigned_less [of b] by simp
  ultimately show ?case by simp
qed simp

lemma value_bytes_be: "value_be (bytes_be n x) = x mod 256 ^ n"
proof (induction n x rule: bytes_be.induct)
  case (2 n x)
  then show ?case
    by (simp add: unat_of_nat take_bit_eq_mod mod_mult2_eq [of x 256 "256 ^ n"] mult.commute add.commute)
qed simp

lemma bytes_value_be: "length bs = n \<Longrightarrow> bytes_be n (value_be bs) = bs"
proof (induction bs arbitrary: n rule: rev_induct)
  case (snoc b bs)
  have modulus: "(256 :: byte) = 0" by (simp add: word_eq_iff_unsigned)
  have "(of_nat (value_be bs * 256 + unat b) :: byte) = b"
    by (simp only: of_nat_add of_nat_mult of_nat_numeral modulus mult_zero_right add_0) simp
  moreover have "unat b < 256" using unsigned_less [of b] by simp
  ultimately show ?case using snoc by auto
qed simp

lemma unat_of_value:
  assumes "LENGTH('a::len) = 8 * length bs"
  shows "unat (of_nat (value_be bs) :: 'a word) = value_be bs"
proof -
  have "value_be bs < 2 ^ LENGTH('a)" using value_be_less [of bs] by (simp add: assms power_mult)
  then show ?thesis by (simp add: unat_of_nat take_bit_nat_eq_self)
qed

lemma of_nat_value_bytes:
  assumes "LENGTH('a::len) = 8 * n"
  shows "(of_nat (value_be (bytes_be n (unat w))) :: 'a word) = w"
proof -
  have "unat w < 256 ^ n" using unsigned_less [of w] by (simp add: assms power_mult)
  then show ?thesis by (simp add: value_bytes_be)
qed

lemma byte_swap_twice:
  assumes "LENGTH('a::len) = 8 * n"
  shows "byte_swap n (byte_swap n (w :: 'a word)) = w"
  using assms by (simp add: byte_swap_def unat_of_value bytes_value_be of_nat_value_bytes)

lemma mem_image_htobe:
  assumes "LENGTH('a::len) = 8 * n"
  shows "mem_image order n (htobe order n (w :: 'a word)) = bytes_be n (unat w)"
  using assms by (cases order) (simp_all add: mem_image_def htobe_def byte_swap_def unat_of_value bytes_value_be)

lemma mem_word_image [simp]:
  assumes "LENGTH('a::len) = 8 * n"
  shows "mem_word order (mem_image order n (w :: 'a word)) = w"
  using assms by (cases order) (simp_all add: mem_word_def mem_image_def of_nat_value_bytes)

lemma mem_image_word:
  assumes "LENGTH('a::len) = 8 * length bs"
  shows "mem_image order (length bs) (mem_word order bs :: 'a word) = bs"
proof (cases order)
  case Little_endian
  then show ?thesis
    using unat_of_value [of "rev bs", where 'a = 'a] assms by (simp add: mem_image_def mem_word_def bytes_value_be)
next
  case Big_endian
  then show ?thesis
    using unat_of_value [of bs, where 'a = 'a] assms by (simp add: mem_image_def mem_word_def bytes_value_be)
qed

lemma length_mem_image [simp]: "length (mem_image order n w) = n"
  by (cases order) (simp_all add: mem_image_def)

lemma betoh_htobe: "LENGTH('a::len) = 8 * n \<Longrightarrow> betoh order n (htobe order n (w :: 'a word)) = w"
  by (cases order) (simp_all add: htobe_def betoh_def byte_swap_twice)

subsection \<open>The contract of a network integer\<close>

text \<open>
  What address code relies on: conversion is undone on the way back, and the bytes a converted
  word leaves in memory are the big-endian bytes of the value, on either kind of host.
\<close>

locale network_integer =
  fixes width :: nat and hton ntoh :: "byte_order \<Rightarrow> 'a::len word \<Rightarrow> 'a word"
  assumes undo: "ntoh order (hton order w) = w"
    and wire: "mem_image order width (hton order w) = bytes_be width (unat w)"
    and load: "mem_word order (mem_image order width w) = w"
begin

lemma host_independent: "mem_image order width (hton order w) = mem_image order' width (hton order' w)"
  by (simp add: wire)

lemma load_wire: "ntoh order (mem_word order (bytes_be width (unat w))) = w"
  by (metis wire load undo)

lemma wire_injective: "mem_image order width (hton order v) = mem_image order' width (hton order' w) \<Longrightarrow> v = w"
  by (metis host_independent load undo)

end

interpretation net16: network_integer 2 HostToNetwork16 NetworkToHost16
  by unfold_locales (simp_all add: HostToNetwork16_def NetworkToHost16_def betoh_htobe mem_image_htobe)

interpretation net32: network_integer 4 HostToNetwork32 NetworkToHost32
  by unfold_locales (simp_all add: HostToNetwork32_def NetworkToHost32_def betoh_htobe mem_image_htobe)

interpretation net64: network_integer 8 HostToNetwork64 NetworkToHost64
  by unfold_locales (simp_all add: HostToNetwork64_def NetworkToHost64_def betoh_htobe mem_image_htobe)

text \<open>
  The conversions of all three widths are their own way back, and what they leave in memory
  is the value's big-endian bytes, the same on a little-endian and a big-endian host.
\<close>

theorem byte_order_conversions:
  "NetworkToHost16 o1 (HostToNetwork16 o1 p) = p \<and> mem_image o1 2 (HostToNetwork16 o1 p) = bytes_be 2 (unat p)
   \<and> NetworkToHost32 o1 (HostToNetwork32 o1 a) = a \<and> mem_image o1 4 (HostToNetwork32 o1 a) = bytes_be 4 (unat a)
   \<and> NetworkToHost64 o1 (HostToNetwork64 o1 q) = q \<and> mem_image o1 8 (HostToNetwork64 o1 q) = bytes_be 8 (unat q)"
  by (simp add: net16.undo net16.wire net32.undo net32.wire net64.undo net64.wire)

end
