(* ===== verification/Net_Inet.thy ===== *)
theory Net_Inet
  imports Net_Endian Logger_Logger
begin

section \<open>net/inet\_address: socket addresses and their text\<close>

text \<open>
  An \<open>InetAddress\<close> (\<open>src/net/inet_address.h\<close>) is a union of \<open>sockaddr_in\<close> and \<open>sockaddr_in6\<close>. The
  model is its memory, the 28 bytes of the larger member: family at offset 0 and port at 2 in
  both, the IPv4 address at 4, the IPv6 address at 8; numbers lie there in the host's byte order.
  The storage is not initialised before the constructor runs, so constructors get its old
  contents. The text conversions of \<open>src/net/socket_ops.cpp\<close> belong here too. \<open>inet_pton\<close> and
  \<open>inet_ntop\<close> are parameters.
\<close>

type_synonym sockaddr = "byte list"

record inet_lib =
  il_order :: byte_order
  il_build :: build
  il_level :: LogLevel
  inet_pton4 :: "string \<Rightarrow> byte list option"
  inet_pton6 :: "string \<Rightarrow> byte list option"
  inet_ntop4 :: "byte list \<Rightarrow> string"
  inet_ntop6 :: "byte list \<Rightarrow> string"

definition AF_INET :: "16 word" where "AF_INET = 2"
definition AF_INET6 :: "16 word" where "AF_INET6 = 10"
definition INADDR_ANY :: "32 word" where "INADDR_ANY = 0"
definition INADDR_LOOPBACK :: "32 word" where "INADDR_LOOPBACK = 0x7f000001"
definition in6addr_any :: "byte list" where "in6addr_any = replicate 16 0"
definition in6addr_loopback :: "byte list" where "in6addr_loopback = replicate 15 0 @ [1]"
definition INET_ADDRSTRLEN :: nat where "INET_ADDRSTRLEN = 16"
definition INET6_ADDRSTRLEN :: nat where "INET6_ADDRSTRLEN = 46"
definition sizeof_sockaddr_in :: nat where "sizeof_sockaddr_in = 16"
definition sizeof_sockaddr_in6 :: nat where "sizeof_sockaddr_in6 = 28"

definition sa_family :: "byte_order \<Rightarrow> sockaddr \<Rightarrow> 16 word" where
  "sa_family order a = mem_word order (segment a 0 2)"

definition set_family :: "byte_order \<Rightarrow> 16 word \<Rightarrow> sockaddr \<Rightarrow> sockaddr" where
  "set_family order f a = poke 0 (mem_image order 2 f) a"

definition sin_port :: "byte_order \<Rightarrow> sockaddr \<Rightarrow> 16 word" where
  "sin_port order a = mem_word order (segment a 2 4)"

definition set_port :: "byte_order \<Rightarrow> 16 word \<Rightarrow> sockaddr \<Rightarrow> sockaddr" where
  "set_port order p a = poke 2 (mem_image order 2 p) a"

definition sin_addr :: "sockaddr \<Rightarrow> byte list" where
  "sin_addr a = segment a 4 8"

definition sin6_addr :: "sockaddr \<Rightarrow> byte list" where
  "sin6_addr a = segment a 8 24"

definition MemZero :: "nat \<Rightarrow> byte list \<Rightarrow> byte list" where
  "MemZero len p = poke 0 (replicate len 0) p"

subsection \<open>Text to address\<close>

definition c_string :: "string \<Rightarrow> string" where
  "c_string s = takeWhile (\<lambda>c. c \<noteq> NUL) s"

definition IpFromString4 :: "inet_lib \<Rightarrow> string \<Rightarrow> sockaddr \<Rightarrow> sockaddr result" where
  "IpFromString4 L ip a =
     (let a1 = set_family (il_order L) AF_INET a in
      case inet_pton4 L ip of
        Some bs \<Rightarrow> Inr (poke 4 bs a1)
      | None \<Rightarrow> bindR (log_fate (il_level L) LOG_SYS_ERROR) (\<lambda>_. Inr a1))"

definition IpFromString6 :: "inet_lib \<Rightarrow> string \<Rightarrow> sockaddr \<Rightarrow> sockaddr result" where
  "IpFromString6 L ip a =
     (let a1 = set_family (il_order L) AF_INET6 a in
      case inet_pton6 L ip of
        Some bs \<Rightarrow> Inr (poke 8 bs a1)
      | None \<Rightarrow> bindR (log_fate (il_level L) LOG_SYS_ERROR) (\<lambda>_. Inr a1))"

definition IpPortFromString4 :: "inet_lib \<Rightarrow> string \<Rightarrow> 16 word \<Rightarrow> sockaddr \<Rightarrow> sockaddr result" where
  "IpPortFromString4 L ip port a =
     bindR (IpFromString4 L ip a) (\<lambda>a1. Inr (set_port (il_order L) (HostToNetwork16 (il_order L) port) a1))"

definition IpPortFromString6 :: "inet_lib \<Rightarrow> string \<Rightarrow> 16 word \<Rightarrow> sockaddr \<Rightarrow> sockaddr result" where
  "IpPortFromString6 L ip port a =
     bindR (IpFromString6 L ip a) (\<lambda>a1. Inr (set_port (il_order L) (HostToNetwork16 (il_order L) port) a1))"

subsection \<open>Construction\<close>

definition InetAddress_port :: "inet_lib \<Rightarrow> 16 word \<Rightarrow> bool \<Rightarrow> bool \<Rightarrow> sockaddr \<Rightarrow> sockaddr" where
  "InetAddress_port L port loop_back_only ipv6 storage =
     (let order = il_order L; u = MemZero sizeof_sockaddr_in storage in
      if ipv6
      then poke 8 (if loop_back_only then in6addr_loopback else in6addr_any)
             (set_port order (HostToNetwork16 order port)
               (set_family order AF_INET6 (MemZero sizeof_sockaddr_in6 u)))
      else poke 4 (mem_image order 4 (HostToNetwork32 order (if loop_back_only then INADDR_LOOPBACK else INADDR_ANY)))
             (set_port order (HostToNetwork16 order port)
               (set_family order AF_INET (MemZero sizeof_sockaddr_in u))))"

definition InetAddress_ip :: "inet_lib \<Rightarrow> string \<Rightarrow> 16 word \<Rightarrow> bool \<Rightarrow> sockaddr \<Rightarrow> sockaddr result" where
  "InetAddress_ip L ip port ipv6 storage =
     (let u = MemZero sizeof_sockaddr_in storage in
      if ipv6 \<or> CHR '':'' \<in> set ip
      then IpPortFromString6 L (c_string ip) port (MemZero sizeof_sockaddr_in6 u)
      else IpPortFromString4 L (c_string ip) port (MemZero sizeof_sockaddr_in u))"

definition SetSockAddrInet4 :: "byte list \<Rightarrow> sockaddr \<Rightarrow> sockaddr" where
  "SetSockAddrInet4 addr a = poke 0 addr a"

definition SetSockAddrInet6 :: "byte list \<Rightarrow> sockaddr \<Rightarrow> sockaddr" where
  "SetSockAddrInet6 addr6 a = poke 0 addr6 a"

definition InetAddress_in :: "byte list \<Rightarrow> sockaddr \<Rightarrow> sockaddr" where
  "InetAddress_in addr storage = poke 0 addr storage"

definition InetAddress_in6 :: "byte list \<Rightarrow> sockaddr \<Rightarrow> sockaddr" where
  "InetAddress_in6 addr6 storage = poke 0 addr6 storage"

subsection \<open>Fields\<close>

definition Family :: "inet_lib \<Rightarrow> sockaddr \<Rightarrow> 16 word" where
  "Family L a = sa_family (il_order L) a"

definition PortNet :: "inet_lib \<Rightarrow> sockaddr \<Rightarrow> 16 word" where
  "PortNet L a = sin_port (il_order L) a"

definition PortHost :: "inet_lib \<Rightarrow> sockaddr \<Rightarrow> 16 word" where
  "PortHost L a = NetworkToHost16 (il_order L) (PortNet L a)"

definition Ipv4Net :: "inet_lib \<Rightarrow> sockaddr \<Rightarrow> 32 word result" where
  "Ipv4Net L a = bindR (assertR (il_build L) (sa_family (il_order L) a = AF_INET)) (\<lambda>_.
     Inr (mem_word (il_order L) (sin_addr a)))"

definition Ipv4Host :: "inet_lib \<Rightarrow> sockaddr \<Rightarrow> 32 word result" where
  "Ipv4Host L a = bindR (assertR (il_build L) (sa_family (il_order L) a = AF_INET)) (\<lambda>_.
     Inr (NetworkToHost32 (il_order L) (mem_word (il_order L) (sin_addr a))))"

definition Ipv6 :: "inet_lib \<Rightarrow> sockaddr \<Rightarrow> byte list result" where
  "Ipv6 L a = bindR (assertR (il_build L) (sa_family (il_order L) a = AF_INET6)) (\<lambda>_. Inr (sin6_addr a))"

text \<open>
  A pointer cast gives the same block under another type; the four overloads of \<open>SockaddrCast\<close>
  differ in the type they come from and in whether the block may be written.
\<close>

definition SockaddrCast :: "sockaddr \<Rightarrow> sockaddr" where
  [simp]: "SockaddrCast addr = addr"

definition SockaddrInCast :: "sockaddr \<Rightarrow> sockaddr" where
  [simp]: "SockaddrInCast addr = addr"

definition SockaddrIn6Cast :: "sockaddr \<Rightarrow> sockaddr" where
  [simp]: "SockaddrIn6Cast addr = addr"

definition GetSockAddr :: "sockaddr \<Rightarrow> sockaddr" where
  [simp]: "GetSockAddr a = SockaddrCast a"

subsection \<open>Address to text\<close>

text \<open>\<open>inet_ntop\<close> writes the text and its terminator when they fit, and nothing otherwise.\<close>

definition ntop_store :: "string \<Rightarrow> string \<Rightarrow> string" where
  "ntop_store txt buf = (if length txt < length buf then poke 0 (txt @ [NUL]) buf else buf)"

definition IpToString :: "inet_lib \<Rightarrow> string \<Rightarrow> sockaddr \<Rightarrow> string result" where
  "IpToString L buf a =
     (if sa_family (il_order L) a = AF_INET
      then bindR (assertR (il_build L) (INET_ADDRSTRLEN \<le> length buf)) (\<lambda>_.
             Inr (ntop_store (inet_ntop4 L (sin_addr (SockaddrInCast a))) buf))
      else if sa_family (il_order L) a = AF_INET6
      then bindR (assertR (il_build L) (INET6_ADDRSTRLEN \<le> length buf)) (\<lambda>_.
             Inr (ntop_store (inet_ntop6 L (sin6_addr (SockaddrIn6Cast a))) buf))
      else Inr buf)"

text \<open>\<open>strlen\<close> of a block without a terminator reads past its end.\<close>

definition strlenR :: "string \<Rightarrow> nat result" where
  "strlenR buf = (if NUL \<in> set buf then Inr (length (c_string buf)) else Inl Undefined_behaviour)"

definition IpPortToString :: "inet_lib \<Rightarrow> string \<Rightarrow> sockaddr \<Rightarrow> string result" where
  "IpPortToString L buf0 a =
     bindR (IpToString L buf0 a) (\<lambda>buf.
     bindR (strlenR buf) (\<lambda>end.
       let port = NetworkToHost16 (il_order L) (sin_port (il_order L) (SockaddrInCast a)) in
       bindR (assertR (il_build L) (end < length buf)) (\<lambda>_.
         storeR end (snprintf_text (length buf - end) ('':'' @ dec_nat (unat port)) @ [NUL]) buf)))"

definition InetAddress_IpToString :: "inet_lib \<Rightarrow> sockaddr \<Rightarrow> string result" where
  "InetAddress_IpToString L a = bindR (IpToString L (replicate 64 NUL) (GetSockAddr a)) (\<lambda>buf. Inr (c_string buf))"

definition InetAddress_IpPortToString :: "inet_lib \<Rightarrow> sockaddr \<Rightarrow> string result" where
  "InetAddress_IpPortToString L a = bindR (IpPortToString L (replicate 64 NUL) (GetSockAddr a)) (\<lambda>buf. Inr (c_string buf))"

subsection \<open>Resolve\<close>

text \<open>
  \<open>getaddrinfo_a\<close> answers whether the request could be processed; a name that does not resolve
  leaves the result pointer of the request null. \<open>getnameinfo\<close> renders an address.
\<close>

definition Resolve :: "LogLevel \<Rightarrow> (string \<Rightarrow> int \<times> 'a option) \<Rightarrow> ('a \<Rightarrow> int \<times> string) \<Rightarrow> string \<Rightarrow> string
    \<Rightarrow> (bool \<times> string) result" where
  "Resolve lvl getaddrinfo_a getnameinfo host_name ip =
     (let (ret, ar_result) = getaddrinfo_a (c_string host_name) in
      if ret \<noteq> 0 then bindR (log_fate lvl LOG_SYS_ERROR) (\<lambda>_. Inr (False, ip))
      else case ar_result of
        None \<Rightarrow> Inl Undefined_behaviour
      | Some res \<Rightarrow>
          (let (ret2, host) = getnameinfo res in
           if ret2 \<noteq> 0 then bindR (log_fate lvl LOG_SYS_ERROR) (\<lambda>_. Inr (False, ip))
           else Inr (True, c_string host)))"

subsection \<open>Layout\<close>

text \<open>The five fields of an address block, as a list of its parts.\<close>

definition inet4_block :: "byte_order \<Rightarrow> 16 word \<Rightarrow> byte list \<Rightarrow> byte list \<Rightarrow> sockaddr" where
  "inet4_block order port addr rest = mem_image order 2 AF_INET @ bytes_be 2 (unat port) @ addr @ rest"

definition inet6_block :: "byte_order \<Rightarrow> 16 word \<Rightarrow> byte list \<Rightarrow> byte list \<Rightarrow> byte list \<Rightarrow> sockaddr" where
  "inet6_block order port flow addr scope =
     mem_image order 2 AF_INET6 @ bytes_be 2 (unat port) @ flow @ addr @ scope"

named_theorems inet_simps "fields of address blocks"

lemma port_wire [inet_simps]: "mem_image order 2 (HostToNetwork16 order p) = bytes_be 2 (unat p)"
  by (rule net16.wire)

lemma poke_zero_block [inet_simps]:
  "length (x :: byte list) = 16 \<Longrightarrow> length storage = 28 \<Longrightarrow> poke 0 x storage = x @ drop 16 storage"
  "length (y :: byte list) = 28 \<Longrightarrow> length storage = 28 \<Longrightarrow> poke 0 y storage = y"
  by (simp_all add: poke_def)

lemma set_fields_block:
  assumes "length addr = 4" and "length rest = 20"
  shows "poke 4 addr (set_port order (HostToNetwork16 order port) (set_family order AF_INET (replicate 8 0 @ rest)))
    = inet4_block order port addr rest"
  using assms by (simp add: set_port_def set_family_def poke_def inet4_block_def inet_simps)

lemma inet4_zeroed:
  assumes "length storage = 28"
  shows "MemZero sizeof_sockaddr_in (MemZero sizeof_sockaddr_in storage) = replicate 8 0 @ replicate 8 0 @ drop 16 storage"
  using assms
  by (simp add: MemZero_def sizeof_sockaddr_in_def poke_def replicate_add [symmetric] flip: append_assoc)

lemma inet6_zeroed:
  assumes "length storage = 28"
  shows "MemZero sizeof_sockaddr_in6 (MemZero sizeof_sockaddr_in storage) = replicate 28 0"
  using assms by (simp add: MemZero_def sizeof_sockaddr_in_def sizeof_sockaddr_in6_def poke_def)

lemma inet4_stored:
  assumes "length storage = 28" and "length addr = 4"
  shows "poke 4 addr (set_port order (HostToNetwork16 order port) (set_family order AF_INET
        (MemZero sizeof_sockaddr_in (MemZero sizeof_sockaddr_in storage))))
      = inet4_block order port addr (replicate 8 0 @ drop 16 storage)"
    and "set_port order (HostToNetwork16 order port) (poke 4 addr (set_family order AF_INET
        (MemZero sizeof_sockaddr_in (MemZero sizeof_sockaddr_in storage))))
      = inet4_block order port addr (replicate 8 0 @ drop 16 storage)"
  using assms by (simp_all add: inet4_zeroed set_port_def set_family_def poke_def inet4_block_def inet_simps)

lemma inet6_stored:
  assumes "length storage = 28" and "length addr = 16"
  shows "poke 8 addr (set_port order (HostToNetwork16 order port) (set_family order AF_INET6
        (MemZero sizeof_sockaddr_in6 (MemZero sizeof_sockaddr_in storage))))
      = inet6_block order port (replicate 4 0) addr (replicate 4 0)"
    and "set_port order (HostToNetwork16 order port) (poke 8 addr (set_family order AF_INET6
        (MemZero sizeof_sockaddr_in6 (MemZero sizeof_sockaddr_in storage))))
      = inet6_block order port (replicate 4 0) addr (replicate 4 0)"
  using assms by (simp_all add: inet6_zeroed set_port_def set_family_def poke_def inet6_block_def inet_simps)

lemma family_values [inet_simps]: "AF_INET \<noteq> AF_INET6" "AF_INET6 \<noteq> AF_INET"
  by (simp_all add: AF_INET_def AF_INET6_def)

lemma inet4_fields [inet_simps]:
  assumes "length addr = 4"
  shows "sa_family order (inet4_block order port addr rest) = AF_INET"
    and "NetworkToHost16 order (sin_port order (inet4_block order port addr rest)) = port"
    and "sin_addr (inet4_block order port addr rest) = addr"
  using assms net16.load_wire [of order port]
  by (simp_all add: sa_family_def sin_port_def sin_addr_def inet4_block_def segment_def)

lemma inet6_fields [inet_simps]:
  assumes "length flow = 4" and "length addr = 16"
  shows "sa_family order (inet6_block order port flow addr scope) = AF_INET6"
    and "NetworkToHost16 order (sin_port order (inet6_block order port flow addr scope)) = port"
    and "sin6_addr (inet6_block order port flow addr scope) = addr"
  using assms net16.load_wire [of order port]
  by (simp_all add: sa_family_def sin_port_def sin6_addr_def inet6_block_def segment_def)

lemma bytes_be_numeral: "bytes_be (numeral k) x = bytes_be (pred_numeral k) (x div 256) @ [of_nat x]"
  unfolding numeral_eq_Suc [of k] by (rule bytes_be.simps(2))

lemma in6addr_last: "(if lb then in6addr_loopback else in6addr_any) = replicate 15 0 @ [if lb then 1 else 0]"
  by (simp add: in6addr_any_def in6addr_loopback_def replicate_append_same replicate_Suc [symmetric] del: replicate_Suc)

text \<open>
  The address built from a port number is, on either kind of host, exactly the block the
  socket calls expect: the family in host order, the port and the loopback or wildcard address
  in network order, zeros after them; the accessors read the port and the address back. Only the
  twelve bytes beyond an IPv4 address keep what the storage held before.
\<close>

theorem InetAddress_port_layout:
  assumes "length storage = 28"
  shows "InetAddress_port L port lb False storage
      = inet4_block (il_order L) port (if lb then [127, 0, 0, 1] else [0, 0, 0, 0]) (replicate 8 0 @ drop 16 storage)
    \<and> InetAddress_port L port lb True storage
      = inet6_block (il_order L) port (replicate 4 0) (replicate 15 0 @ [if lb then 1 else 0]) (replicate 4 0)
    \<and> PortHost L (InetAddress_port L port lb ipv6 storage) = port
    \<and> Family L (InetAddress_port L port lb ipv6 storage) = (if ipv6 then AF_INET6 else AF_INET)
    \<and> Ipv4Host L (InetAddress_port L port lb False storage) = Inr (if lb then 0x7f000001 else 0)"
proof -
  let ?a = "if lb then INADDR_LOOPBACK else INADDR_ANY"
  have bytes: "bytes_be 4 (unat ?a) = (if lb then [127, 0, 0, 1] else [0, 0, 0, 0])"
    by (simp add: INADDR_LOOPBACK_def INADDR_ANY_def bytes_be_numeral)
  have four: "InetAddress_port L port lb False storage
      = inet4_block (il_order L) port (bytes_be 4 (unat ?a)) (replicate 8 0 @ drop 16 storage)"
    using assms by (simp add: InetAddress_port_def Let_def inet4_stored net32.wire)
  have six: "InetAddress_port L port lb True storage
      = inet6_block (il_order L) port (replicate 4 0) (replicate 15 0 @ [if lb then 1 else 0]) (replicate 4 0)"
    using assms inet6_stored [of storage "if lb then in6addr_loopback else in6addr_any" "il_order L" port]
    by (simp add: InetAddress_port_def Let_def in6addr_last)
  have "NetworkToHost32 (il_order L) (mem_word (il_order L) (bytes_be 4 (unat ?a))) = ?a"
    by (rule net32.load_wire)
  then have "Ipv4Host L (InetAddress_port L port lb False storage) = Inr ?a"
    by (simp add: four Ipv4Host_def inet_simps)
  then show ?thesis
    unfolding four six bytes [symmetric]
    by (cases ipv6) (simp_all add: four six PortHost_def PortNet_def Family_def inet_simps INADDR_LOOPBACK_def INADDR_ANY_def)
qed

definition little_lib :: inet_lib where
  "little_lib = \<lparr>il_order = Little_endian, il_build = Debug, il_level = INFO, inet_pton4 = (\<lambda>_. None),
     inet_pton6 = (\<lambda>_. None), inet_ntop4 = (\<lambda>_. []), inet_ntop6 = (\<lambda>_. [])\<rparr>"

theorem InetAddress_port_layout_witness:
  "InetAddress_port little_lib 8080 True False (replicate 28 7)
     = [2, 0, 0x1f, 0x90, 127, 0, 0, 1] @ replicate 8 0 @ replicate 12 7"
proof -
  have "InetAddress_port little_lib 8080 True False (replicate 28 7)
      = inet4_block Little_endian 8080 [127, 0, 0, 1] (replicate 8 0 @ replicate 12 7)"
    using InetAddress_port_layout [of "replicate 28 7" little_lib 8080 True False]
    by (auto simp: little_lib_def)
  then show ?thesis by (simp add: inet4_block_def mem_image_def AF_INET_def bytes_be_numeral)
qed

subsection \<open>Printing\<close>

text \<open>What \<open>inet_pton(3)\<close> and \<open>inet_ntop(3)\<close> document: the texts fit their buffers and parse back.\<close>

definition inet_documented :: "inet_lib \<Rightarrow> bool" where
  "inet_documented L \<longleftrightarrow>
     (\<forall>a. length a = 4 \<longrightarrow> inet_pton4 L (inet_ntop4 L a) = Some a
        \<and> length (inet_ntop4 L a) < INET_ADDRSTRLEN \<and> set (inet_ntop4 L a) \<inter> {NUL, CHR '':''} = {})
     \<and> (\<forall>a. length a = 16 \<longrightarrow> inet_pton6 L (inet_ntop6 L a) = Some a
        \<and> length (inet_ntop6 L a) < INET6_ADDRSTRLEN \<and> NUL \<notin> set (inet_ntop6 L a) \<and> CHR '':'' \<in> set (inet_ntop6 L a))
     \<and> (\<forall>s a. inet_pton4 L s = Some a \<longrightarrow> length a = 4)
     \<and> (\<forall>s a. inet_pton6 L s = Some a \<longrightarrow> length a = 16)"

lemma c_string_padded [inet_simps]:
  "NUL \<notin> set t \<Longrightarrow> c_string (t @ NUL # u) = t" "NUL \<notin> set t \<Longrightarrow> c_string t = t"
proof -
  show "NUL \<notin> set t \<Longrightarrow> c_string (t @ NUL # u) = t" by (induction t) (auto simp: c_string_def)
  show "NUL \<notin> set t \<Longrightarrow> c_string t = t" by (induction t) (auto simp: c_string_def)
qed

lemma no_NUL_dec: "NUL \<notin> set (dec_nat n)"
proof
  assume "NUL \<in> set (dec_nat n)"
  from decimal.render_digits [OF this [unfolded dec_nat_def]] show False
    by (auto simp: dec_digit_def dest: less_10_cases)
qed

lemma port_text:
  assumes "NUL \<notin> set t" and "length t \<le> 45" and "IpToString L (replicate 64 NUL) a = Inr (t @ NUL # replicate (63 - length t) NUL)"
  shows "InetAddress_IpToString L a = Inr t"
    and "InetAddress_IpPortToString L a = Inr (t @ '':'' @ dec_nat (unat (PortHost L a)))"
proof -
  show "InetAddress_IpToString L a = Inr t"
    using assms by (simp add: InetAddress_IpToString_def inet_simps)
  let ?p = "unat (PortHost L a)"
  have "?p < 2 ^ 16" using unsigned_less [of "PortHost L a", where 'a = nat] by simp
  then have "?p < 10 ^ Suc 4" by simp
  then have five: "length (dec_nat ?p) \<le> 5" using length_dec_nat [of ?p 4] by simp
  then have "IpPortToString L (replicate 64 NUL) a
      = Inr (poke (length t) ('':'' @ dec_nat ?p @ [NUL]) (t @ NUL # replicate (63 - length t) NUL))"
    using assms by (simp add: IpPortToString_def inet_simps strlenR_def PortHost_def PortNet_def Let_def)
  moreover have "poke (length t) ('':'' @ dec_nat ?p @ [NUL]) (t @ NUL # replicate (63 - length t) NUL)
      = (t @ '':'' @ dec_nat ?p) @ NUL # replicate (63 - length t - Suc (length (dec_nat ?p))) NUL"
    by (simp add: poke_def)
  ultimately show "InetAddress_IpPortToString L a = Inr (t @ '':'' @ dec_nat ?p)"
    using assms(1) no_NUL_dec inet_simps by (simp add: InetAddress_IpPortToString_def c_string_padded(1) del: append_assoc append_Cons)
qed

lemma ntop_stored:
  "length t < 64 \<Longrightarrow> ntop_store t (replicate 64 NUL) = t @ NUL # replicate (63 - length t) NUL"
  by (simp add: ntop_store_def poke_def)

lemma print_inet4:
  assumes "inet_documented L" and "length addr = 4" and "s = inet4_block (il_order L) port addr rest"
  shows "InetAddress_IpToString L s = Inr (inet_ntop4 L addr)"
    and "InetAddress_IpPortToString L s = Inr (inet_ntop4 L addr @ '':'' @ dec_nat (unat port))"
proof -
  have t: "length (inet_ntop4 L addr) < 16" "NUL \<notin> set (inet_ntop4 L addr)"
    using assms(1,2) by (auto simp: inet_documented_def INET_ADDRSTRLEN_def)
  then have "IpToString L (replicate 64 NUL) s
      = Inr (inet_ntop4 L addr @ NUL # replicate (63 - length (inet_ntop4 L addr)) NUL)"
    using assms(2,3) by (simp add: IpToString_def inet_simps INET_ADDRSTRLEN_def ntop_stored)
  from port_text [OF t(2) _ this] show "InetAddress_IpToString L s = Inr (inet_ntop4 L addr)"
    and "InetAddress_IpPortToString L s = Inr (inet_ntop4 L addr @ '':'' @ dec_nat (unat port))"
    using t(1) assms(2,3) by (simp_all add: PortHost_def PortNet_def inet_simps)
qed

lemma print_inet6:
  assumes "inet_documented L" and "length addr = 16" and "s = inet6_block (il_order L) port (replicate 4 0) addr scope"
  shows "InetAddress_IpToString L s = Inr (inet_ntop6 L addr)"
    and "InetAddress_IpPortToString L s = Inr (inet_ntop6 L addr @ '':'' @ dec_nat (unat port))"
proof -
  have t: "length (inet_ntop6 L addr) < 46" "NUL \<notin> set (inet_ntop6 L addr)"
    using assms(1,2) by (auto simp: inet_documented_def INET6_ADDRSTRLEN_def)
  then have "IpToString L (replicate 64 NUL) s
      = Inr (inet_ntop6 L addr @ NUL # replicate (63 - length (inet_ntop6 L addr)) NUL)"
    using assms(2,3) by (simp add: IpToString_def inet_simps INET6_ADDRSTRLEN_def ntop_stored)
  from port_text [OF t(2) _ this] show "InetAddress_IpToString L s = Inr (inet_ntop6 L addr)"
    and "InetAddress_IpPortToString L s = Inr (inet_ntop6 L addr @ '':'' @ dec_nat (unat port))"
    using t(1) assms(2,3) by (simp_all add: PortHost_def PortNet_def inet_simps)
qed

text \<open>Which parser a text goes to, and how an address of that family is written.\<close>

definition reads_as_ipv6 :: "string \<Rightarrow> bool \<Rightarrow> bool" where
  "reads_as_ipv6 ip ipv6 \<longleftrightarrow> ipv6 \<or> CHR '':'' \<in> set ip"

definition parse_address :: "inet_lib \<Rightarrow> bool \<Rightarrow> string \<Rightarrow> byte list option" where
  "parse_address L six ip = (if six then inet_pton6 L ip else inet_pton4 L ip)"

definition print_address :: "inet_lib \<Rightarrow> bool \<Rightarrow> byte list \<Rightarrow> string" where
  "print_address L six a = (if six then inet_ntop6 L a else inet_ntop4 L a)"

text \<open>
  C26: An address read from text prints as the canonical text of what was read, with the port in
  decimal after a colon, and gives the port back; in particular the canonical text of an address
  survives the round trip. This holds on either kind of host and in either build, for IPv4 and
  IPv6.
\<close>

theorem InetAddress_text:
  assumes lib: "inet_documented L" and storage: "length storage = 28" and ip: "NUL \<notin> set ip"
    and parse: "parse_address L (reads_as_ipv6 ip ipv6) ip = Some a"
  shows "\<exists>s. InetAddress_ip L ip port ipv6 storage = Inr s \<and> length s = 28 \<and> PortHost L s = port
     \<and> Family L s = (if reads_as_ipv6 ip ipv6 then AF_INET6 else AF_INET)
     \<and> InetAddress_IpToString L s = Inr (print_address L (reads_as_ipv6 ip ipv6) a)
     \<and> InetAddress_IpPortToString L s
         = Inr (print_address L (reads_as_ipv6 ip ipv6) a @ '':'' @ dec_nat (unat port))
     \<and> parse_address L (reads_as_ipv6 ip ipv6) (print_address L (reads_as_ipv6 ip ipv6) a) = Some a"
proof (cases "reads_as_ipv6 ip ipv6")
  case True
  then have p: "inet_pton6 L ip = Some a" using parse by (simp add: parse_address_def)
  then have len: "length a = 16" using lib by (simp add: inet_documented_def)
  let ?s = "inet6_block (il_order L) port (replicate 4 0) a (replicate 4 0)"
  have "InetAddress_ip L ip port ipv6 storage = Inr ?s"
    using True p ip storage len
    by (auto simp: InetAddress_ip_def reads_as_ipv6_def IpPortFromString6_def IpFromString6_def inet_simps
        inet6_stored Let_def)
  moreover have "inet_pton6 L (inet_ntop6 L a) = Some a" using lib len by (simp add: inet_documented_def)
  ultimately show ?thesis
    using True len print_inet6 [OF lib len refl, of port "replicate 4 0"]
    by (simp add: print_address_def parse_address_def PortHost_def PortNet_def Family_def inet_simps)
      (simp add: inet6_block_def)
next
  case False
  then have p: "inet_pton4 L ip = Some a" using parse by (simp add: parse_address_def)
  then have len: "length a = 4" using lib by (simp add: inet_documented_def)
  let ?s = "inet4_block (il_order L) port a (replicate 8 0 @ drop 16 storage)"
  have "InetAddress_ip L ip port ipv6 storage = Inr ?s"
    using False p ip storage len
    by (auto simp: InetAddress_ip_def reads_as_ipv6_def IpPortFromString4_def IpFromString4_def inet_simps
        inet4_stored Let_def)
  moreover have "inet_pton4 L (inet_ntop4 L a) = Some a" using lib len by (simp add: inet_documented_def)
  ultimately show ?thesis
    using False len storage print_inet4 [OF lib len refl, of port]
    by (simp add: print_address_def parse_address_def PortHost_def PortNet_def Family_def inet_simps)
      (simp add: inet4_block_def)
qed

text \<open>A library that keeps its documented promises, for the concrete runs: two letters for a byte.\<close>

definition nibble :: "nat \<Rightarrow> char" where
  "nibble k = char_of (97 + k)"

definition nibble_text :: "byte list \<Rightarrow> string" where
  "nibble_text a = concat (map (\<lambda>b. [nibble (unat b div 16), nibble (unat b mod 16)]) a)"

fun nibble_parse :: "string \<Rightarrow> byte list" where
  "nibble_parse (x # y # t) = of_nat (16 * (of_char x - 97) + (of_char y - 97)) # nibble_parse t"
| "nibble_parse _ = []"

definition nibble_lib :: inet_lib where
  "nibble_lib = \<lparr>il_order = Little_endian, il_build = Debug, il_level = INFO,
     inet_pton4 = (\<lambda>s. if length (nibble_parse s) = 4 then Some (nibble_parse s) else None),
     inet_pton6 = (\<lambda>s. if length (nibble_parse (tl s)) = 16 then Some (nibble_parse (tl s)) else None),
     inet_ntop4 = nibble_text, inet_ntop6 = (\<lambda>a. CHR '':'' # nibble_text a)\<rparr>"

lemma of_char_nibble: "k < 16 \<Longrightarrow> of_char (nibble k) = 97 + k"
  by (simp add: nibble_def)

lemma nibble_parse_text [simp]: "nibble_parse (nibble_text a) = a"
proof (induction a)
  case (Cons b a)
  have "of_nat (16 * (unat b div 16) + unat b mod 16) = b" by simp
  moreover have "unat b div 16 < 16" using unsigned_less [of b, where 'a = nat] by simp
  ultimately show ?case using Cons by (simp add: nibble_text_def of_char_nibble)
qed (simp add: nibble_text_def)

lemma length_nibble_text [simp]: "length (nibble_text a) = 2 * length a"
  by (induction a) (simp_all add: nibble_text_def)

lemma nibble_text_letters: "c \<in> set (nibble_text a) \<Longrightarrow> 97 \<le> (of_char c :: nat)"
proof -
  assume "c \<in> set (nibble_text a)"
  then obtain b where "c = nibble (unat b div 16) \<or> c = nibble (unat (b :: byte) mod 16)"
    by (auto simp: nibble_text_def)
  moreover have "unat b div 16 < 16" using unsigned_less [of b, where 'a = nat] by simp
  ultimately show ?thesis by (auto simp: of_char_nibble)
qed

lemma nibble_lib_documented: "inet_documented nibble_lib"
proof -
  have "NUL \<notin> set (nibble_text a)" "CHR '':'' \<notin> set (nibble_text a)" for a
    using nibble_text_letters [of NUL a] nibble_text_letters [of "CHR '':''" a] by auto
  then show ?thesis
    by (auto simp: inet_documented_def nibble_lib_def INET_ADDRSTRLEN_def INET6_ADDRSTRLEN_def split: if_splits)
qed

theorem InetAddress_text_witness:
  "\<exists>s. InetAddress_ip nibble_lib (nibble_text [127, 0, 0, 1]) 8080 False (replicate 28 0) = Inr s
     \<and> InetAddress_IpPortToString nibble_lib s = Inr (nibble_text [127, 0, 0, 1] @ '':8080'')"
proof -
  let ?ip = "nibble_text [127, 0, 0, 1]"
  have ip: "NUL \<notin> set ?ip" "\<not> reads_as_ipv6 ?ip False"
    using nibble_text_letters [of NUL "[127, 0, 0, 1]"] nibble_text_letters [of "CHR '':''" "[127, 0, 0, 1]"]
    by (auto simp: reads_as_ipv6_def)
  have parse: "parse_address nibble_lib (reads_as_ipv6 ?ip False) ?ip = Some [127, 0, 0, 1]"
    using ip by (simp add: parse_address_def nibble_lib_def)
  have storage: "length (replicate 28 (0 :: byte)) = 28" by simp
  obtain s where "InetAddress_ip nibble_lib ?ip 8080 False (replicate 28 0) = Inr s"
      "InetAddress_IpPortToString nibble_lib s
        = Inr (print_address nibble_lib (reads_as_ipv6 ?ip False) [127, 0, 0, 1] @ '':'' @ dec_nat (unat (8080 :: 16 word)))"
    using InetAddress_text [OF nibble_lib_documented storage ip(1) parse, of 8080]
    by (elim exE conjE)
  moreover have "dec_nat (unat (8080 :: 16 word)) = ''8080''"
    by (simp add: dec_nat_def render_nat.simps dec_digit_def)
  moreover have "print_address nibble_lib False [127, 0, 0, 1] = ?ip"
    by (simp add: print_address_def nibble_lib_def)
  ultimately show ?thesis using ip(2) by simp
qed

text \<open>
  Text that is not an address ends the process whatever the log level: the constructor
  reports it with LOG_SYS_ERROR, which is the macro that aborts.
\<close>

theorem InetAddress_bad_text_aborts:
  assumes "parse_address L (reads_as_ipv6 ip ipv6) (c_string ip) = None"
  shows "InetAddress_ip L ip port ipv6 storage = Inl Process_aborted"
  using assms
  by (cases "reads_as_ipv6 ip ipv6")
    (auto simp: InetAddress_ip_def reads_as_ipv6_def parse_address_def IpPortFromString6_def IpFromString6_def
      IpPortFromString4_def IpFromString4_def Let_def log_fate_def)

theorem InetAddress_bad_text_aborts_witness:
  "InetAddress_ip (little_lib\<lparr>inet_pton4 := (\<lambda>s. if s = ''1.2.3.4'' then Some [1, 2, 3, 4] else None)\<rparr>)
     ''1.2.3'' 80 False (replicate 28 0) = Inl Process_aborted"
  by (rule InetAddress_bad_text_aborts)
    (simp add: parse_address_def reads_as_ipv6_def little_lib_def c_string_def)

text \<open>
  Resolve never answers false: what it returns is the numeric text of an address the
  library found. A library error ends the process before the "return false" after it, and a name
  that does not resolve makes it follow a null pointer, because the request's own status is not
  looked at.
\<close>

theorem Resolve_never_answers_false:
  "Resolve lvl gai gni host ip = Inr r \<longleftrightarrow>
     (\<exists>a. gai (c_string host) = (0, Some a) \<and> fst (gni a) = 0 \<and> r = (True, c_string (snd (gni a))))"
  by (auto simp: Resolve_def log_fate_def split: prod.splits option.splits if_splits)

end
