(* ===== verification/Net_Socket.thy ===== *)
theory Net_Socket
  imports Net_Inet
begin

section \<open>net/socket\_ops, net/socket: system calls and their failures\<close>

text \<open>
  \<open>src/net/socket_ops.cpp\<close> wraps the socket calls, \<open>src/net/socket.cpp\<close> owns a descriptor. The
  kernel is a parameter: one function per call over an abstract kernel state \<open>'k\<close>, answering the
  return value (negative for a failure) and, where the call fills memory, the bytes it writes. An
  address passed to the kernel is the whole block of \<open>sizeof(sockaddr_in6)\<close> bytes.
\<close>

datatype sock_opt = SO_ERROR | TCP_NODELAY | SO_REUSEADDR | SO_REUSEPORT | SO_KEEPALIVE | TCP_INFO

record 'k sock_env =
  so_lib :: inet_lib
  so_errno :: int
  sys_socket :: "16 word \<Rightarrow> 'k \<Rightarrow> int \<times> 'k"
  sys_connect :: "int \<Rightarrow> sockaddr \<Rightarrow> 'k \<Rightarrow> int \<times> 'k"
  sys_bind :: "int \<Rightarrow> sockaddr \<Rightarrow> 'k \<Rightarrow> int \<times> 'k"
  sys_listen :: "int \<Rightarrow> 'k \<Rightarrow> int \<times> 'k"
  sys_accept4 :: "int \<Rightarrow> 'k \<Rightarrow> int \<times> byte list \<times> 'k"
  sys_close :: "int \<Rightarrow> 'k \<Rightarrow> int \<times> 'k"
  sys_shutdown :: "int \<Rightarrow> 'k \<Rightarrow> int \<times> 'k"
  sys_getsockopt :: "int \<Rightarrow> sock_opt \<Rightarrow> nat \<Rightarrow> 'k \<Rightarrow> int \<times> byte list \<times> 'k"
  sys_setsockopt :: "int \<Rightarrow> sock_opt \<Rightarrow> cint \<Rightarrow> 'k \<Rightarrow> int \<times> 'k"
  sys_getsockname :: "int \<Rightarrow> 'k \<Rightarrow> int \<times> byte list"
  sys_getpeername :: "int \<Rightarrow> 'k \<Rightarrow> int \<times> byte list"

abbreviation so_fate :: "'k sock_env \<Rightarrow> log_macro \<Rightarrow> unit result" where
  "so_fate E \<equiv> log_fate (il_level (so_lib E))"

abbreviation so_order :: "'k sock_env \<Rightarrow> byte_order" where
  "so_order E \<equiv> il_order (so_lib E)"

subsection \<open>socket\_ops\<close>

definition CreateNoBlockingSocketOrDie :: "'k sock_env \<Rightarrow> 16 word \<Rightarrow> 'k \<Rightarrow> (int \<times> 'k) result" where
  "CreateNoBlockingSocketOrDie E family k =
     (let (sockfd, k1) = sys_socket E family k in
      bindR (if sockfd < 0 then so_fate E LOG_SYS_FATAL else Inr ()) (\<lambda>_. Inr (sockfd, k1)))"

definition Connect :: "'k sock_env \<Rightarrow> int \<Rightarrow> sockaddr \<Rightarrow> 'k \<Rightarrow> (int \<times> 'k) result" where
  "Connect E sockfd addr k = Inr (sys_connect E sockfd addr k)"

definition BindOrDie :: "'k sock_env \<Rightarrow> int \<Rightarrow> sockaddr \<Rightarrow> 'k \<Rightarrow> 'k result" where
  "BindOrDie E sockfd addr k =
     (let (ret, k1) = sys_bind E sockfd addr k in
      bindR (if ret < 0 then so_fate E LOG_SYS_FATAL else Inr ()) (\<lambda>_. Inr k1))"

definition ListenOrDie :: "'k sock_env \<Rightarrow> int \<Rightarrow> 'k \<Rightarrow> 'k result" where
  "ListenOrDie E sockfd k =
     (let (ret, k1) = sys_listen E sockfd k in
      bindR (if ret < 0 then so_fate E LOG_SYS_FATAL else Inr ()) (\<lambda>_. Inr k1))"

definition AcceptOrDie :: "'k sock_env \<Rightarrow> int \<Rightarrow> byte list \<Rightarrow> 'k \<Rightarrow> (int \<times> byte list \<times> 'k) result" where
  "AcceptOrDie E sockfd addr k =
     (let (connect_fd, bs, k1) = sys_accept4 E sockfd k in
      bindR (if connect_fd < 0 then so_fate E LOG_SYS_FATAL else Inr ()) (\<lambda>_.
        Inr (connect_fd, poke 0 (take (length addr) bs) addr, k1)))"

definition CloseOrDie :: "'k sock_env \<Rightarrow> int \<Rightarrow> 'k \<Rightarrow> 'k result" where
  "CloseOrDie E sockfd k =
     (let (ret, k1) = sys_close E sockfd k in
      bindR (if ret < 0 then so_fate E LOG_SYS_ERROR else Inr ()) (\<lambda>_. Inr k1))"

definition ShutdownWriteOrDie :: "'k sock_env \<Rightarrow> int \<Rightarrow> 'k \<Rightarrow> 'k result" where
  "ShutdownWriteOrDie E sockfd k =
     (let (ret, k1) = sys_shutdown E sockfd k in
      bindR (if ret < 0 then so_fate E LOG_SYS_ERROR else Inr ()) (\<lambda>_. Inr k1))"

text \<open>
  \<open>getsockopt\<close> gets the size of the caller's object and writes at most so many bytes of the
  option's value; here the size is taken from \<open>opt_val\<close> itself, which is 0.
\<close>

definition GetSocketError :: "'k sock_env \<Rightarrow> int \<Rightarrow> 'k \<Rightarrow> (int \<times> 'k) result" where
  "GetSocketError E sockfd k =
     (let opt_val = (0 :: cint);
          opt_len = unat opt_val;
          (ret, bs, k1) = sys_getsockopt E sockfd SO_ERROR opt_len k;
          opt_val' = mem_word (so_order E) (poke 0 (take opt_len bs) (mem_image (so_order E) 4 opt_val)) :: cint
      in if ret < 0 then Inr (so_errno E, k1) else Inr (sint opt_val', k1))"

definition GetLocalAddr :: "'k sock_env \<Rightarrow> int \<Rightarrow> 'k \<Rightarrow> sockaddr result" where
  "GetLocalAddr E sockfd k =
     (let (ret, bs) = sys_getsockname E sockfd k; local_addr = replicate sizeof_sockaddr_in6 0 in
      bindR (if ret < 0 then so_fate E LOG_SYS_ERROR else Inr ()) (\<lambda>_.
        Inr (poke 0 (take (length local_addr) bs) local_addr)))"

definition GetPeerAddr :: "'k sock_env \<Rightarrow> int \<Rightarrow> 'k \<Rightarrow> sockaddr result" where
  "GetPeerAddr E sockfd k =
     (let (ret, bs) = sys_getpeername E sockfd k; peer_addr = replicate sizeof_sockaddr_in6 0 in
      bindR (if ret < 0 then so_fate E LOG_SYS_ERROR else Inr ()) (\<lambda>_.
        Inr (poke 0 (take (length peer_addr) bs) peer_addr)))"

definition IsSelfConnect :: "'k sock_env \<Rightarrow> int \<Rightarrow> 'k \<Rightarrow> bool result" where
  "IsSelfConnect E sockfd k =
     bindR (GetLocalAddr E sockfd k) (\<lambda>local_addr.
     bindR (GetPeerAddr E sockfd k) (\<lambda>peer_addr.
       let order = so_order E in
       Inr (if sa_family order local_addr = AF_INET
            then sin_port order local_addr = sin_port order peer_addr
              \<and> (mem_word order (sin_addr local_addr) :: 32 word) = mem_word order (sin_addr peer_addr)
            else if sa_family order local_addr = AF_INET6
            then sin_port order local_addr = sin_port order peer_addr
              \<and> sin6_addr local_addr = sin6_addr peer_addr
            else False)))"

subsection \<open>Socket\<close>

record Socket =
  sockfd :: int

definition Socket_new :: "int \<Rightarrow> Socket" where
  "Socket_new fd = \<lparr>sockfd = fd\<rparr>"

definition Socket_Fd :: "Socket \<Rightarrow> int" where
  "Socket_Fd s = sockfd s"

definition Socket_destroy :: "'k sock_env \<Rightarrow> Socket \<Rightarrow> 'k \<Rightarrow> 'k result" where
  "Socket_destroy E s k = CloseOrDie E (sockfd s) k"

text \<open>The counters of \<open>struct tcp_info\<close> that are printed, in their order.\<close>

definition GetTcpInfo :: "'k sock_env \<Rightarrow> nat \<Rightarrow> Socket \<Rightarrow> 'k \<Rightarrow> bool \<times> byte list" where
  "GetTcpInfo E sizeof_tcp_info s k =
     (let (ret, bs, _) = sys_getsockopt E (sockfd s) TCP_INFO sizeof_tcp_info k in
      (ret = 0, poke 0 (take sizeof_tcp_info bs) (replicate sizeof_tcp_info 0)))"

definition tcp_info_labels :: "string list" where
  "tcp_info_labels = [''retransmits='', ''rto='', '' ato='', '' snd_mss='', '' rcv_mss='', '' lost='', '' retrans='',
     '' rtt='', '' rttvar='', '' snd_ssthresh='', '' snd_cwnd='', '' total_retrans='']"

definition GetTcpInfoString :: "'k sock_env \<Rightarrow> nat \<Rightarrow> (byte list \<Rightarrow> nat list) \<Rightarrow> nat \<Rightarrow> Socket \<Rightarrow> 'k \<Rightarrow> string option" where
  "GetTcpInfoString E sizeof_tcp_info counters len s k =
     (let (ok, tcpi) = GetTcpInfo E sizeof_tcp_info s k in
      if \<not> ok then None
      else Some (snprintf_text len (concat (map (\<lambda>(label, v). label @ dec_nat v) (zip tcp_info_labels (counters tcpi))))))"

definition BindAddress :: "'k sock_env \<Rightarrow> sockaddr \<Rightarrow> Socket \<Rightarrow> 'k \<Rightarrow> 'k result" where
  "BindAddress E addr s k = BindOrDie E (sockfd s) (GetSockAddr addr) k"

definition Listen :: "'k sock_env \<Rightarrow> Socket \<Rightarrow> 'k \<Rightarrow> 'k result" where
  "Listen E s k = ListenOrDie E (sockfd s) k"

definition Accept :: "'k sock_env \<Rightarrow> sockaddr \<Rightarrow> Socket \<Rightarrow> 'k \<Rightarrow> (int \<times> sockaddr \<times> 'k) result" where
  "Accept E peer_addr s k =
     bindR (AcceptOrDie E (sockfd s) (replicate sizeof_sockaddr_in6 0) k) (\<lambda>(conn_fd, addr, k1).
       Inr (conn_fd, if 0 \<le> conn_fd then SetSockAddrInet6 addr peer_addr else peer_addr, k1))"

definition ShutdownWrite :: "'k sock_env \<Rightarrow> Socket \<Rightarrow> 'k \<Rightarrow> 'k result" where
  "ShutdownWrite E s k = ShutdownWriteOrDie E (sockfd s) k"

definition SetTcpNoDelay :: "'k sock_env \<Rightarrow> bool \<Rightarrow> Socket \<Rightarrow> 'k \<Rightarrow> 'k result" where
  "SetTcpNoDelay E on s k = Inr (snd (sys_setsockopt E (sockfd s) TCP_NODELAY (if on then 1 else 0) k))"

definition SetReuseAddr :: "'k sock_env \<Rightarrow> bool \<Rightarrow> Socket \<Rightarrow> 'k \<Rightarrow> 'k result" where
  "SetReuseAddr E on s k = Inr (snd (sys_setsockopt E (sockfd s) SO_REUSEADDR (if on then 1 else 0) k))"

definition SetReusePort :: "'k sock_env \<Rightarrow> bool \<Rightarrow> Socket \<Rightarrow> 'k \<Rightarrow> 'k result" where
  "SetReusePort E on s k =
     (let (ret, k1) = sys_setsockopt E (sockfd s) SO_REUSEPORT (if on then 1 else 0) k in
      bindR (if ret < 0 \<and> on then so_fate E LOG_SYS_ERROR else Inr ()) (\<lambda>_. Inr k1))"

definition SetKeepAlive :: "'k sock_env \<Rightarrow> bool \<Rightarrow> Socket \<Rightarrow> 'k \<Rightarrow> 'k result" where
  "SetKeepAlive E on s k = Inr (snd (sys_setsockopt E (sockfd s) SO_KEEPALIVE (if on then 1 else 0) k))"

subsection \<open>Properties\<close>

lemma log_fate_sys: "log_fate lvl LOG_SYS_ERROR = Inl Process_aborted" "log_fate lvl LOG_SYS_FATAL = Inr ()"
  by (simp_all add: log_fate_def)

text \<open>
  The wrappers named "or die" do the reverse of what their log macros say: when the kernel
  refuses to create, bind, listen on or accept from a socket the program goes on (with the
  negative descriptor), and when it reports an error for a close, a shutdown or SO_REUSEPORT the
  process ends.
\<close>

theorem or_die_fates:
  assumes "fst (sys_socket E family k) < 0" and "fst (sys_bind E fd addr k) < 0" and "fst (sys_listen E fd k) < 0"
    and "fst (sys_accept4 E fd k) < 0" and "fst (sys_close E fd k) < 0" and "fst (sys_shutdown E fd k) < 0"
    and "fst (sys_setsockopt E fd SO_REUSEPORT 1 k) < 0"
  shows "CreateNoBlockingSocketOrDie E family k = Inr (sys_socket E family k)
    \<and> BindAddress E addr (Socket_new fd) k = Inr (snd (sys_bind E fd addr k))
    \<and> Listen E (Socket_new fd) k = Inr (snd (sys_listen E fd k))
    \<and> (\<exists>k1. Accept E peer (Socket_new fd) k = Inr (fst (sys_accept4 E fd k), peer, k1))
    \<and> Socket_destroy E (Socket_new fd) k = Inl Process_aborted
    \<and> ShutdownWrite E (Socket_new fd) k = Inl Process_aborted
    \<and> SetReusePort E True (Socket_new fd) k = Inl Process_aborted"
  using assms
  by (auto simp: CreateNoBlockingSocketOrDie_def BindAddress_def BindOrDie_def Listen_def ListenOrDie_def Accept_def
      AcceptOrDie_def Socket_destroy_def CloseOrDie_def ShutdownWrite_def ShutdownWriteOrDie_def SetReusePort_def
      Socket_new_def Let_def log_fate_sys split: prod.splits)

text \<open>A kernel that refuses every call, and one that answers for an established connection.\<close>

definition refusing_env :: "unit sock_env" where
  "refusing_env = \<lparr>so_lib = nibble_lib, so_errno = 98, sys_socket = (\<lambda>_ k. (-1, k)), sys_connect = (\<lambda>_ _ k. (-1, k)),
     sys_bind = (\<lambda>_ _ k. (-1, k)), sys_listen = (\<lambda>_ k. (-1, k)), sys_accept4 = (\<lambda>_ k. (-1, [], k)),
     sys_close = (\<lambda>_ k. (-1, k)), sys_shutdown = (\<lambda>_ k. (-1, k)), sys_getsockopt = (\<lambda>_ _ _ k. (-1, [], k)),
     sys_setsockopt = (\<lambda>_ _ _ k. (-1, k)), sys_getsockname = (\<lambda>_ _. (-1, [])), sys_getpeername = (\<lambda>_ _. (-1, []))\<rparr>"

theorem or_die_fates_witness:
  "BindAddress refusing_env [] (Socket_new 4) () = Inr () \<and> Socket_destroy refusing_env (Socket_new 4) () = Inl Process_aborted"
  using or_die_fates [of refusing_env AF_INET "()" 4 "[]"] by (simp add: refusing_env_def)

text \<open>
  GetSocketError cannot see an error: whenever the option can be read at all it answers 0,
  whatever bytes the kernel has for it, because it offers room for none of them.
\<close>

theorem GetSocketError_sees_nothing:
  assumes "sys_getsockopt E fd SO_ERROR 0 k = (ret, bs, k1)" and "0 \<le> ret"
  shows "GetSocketError E fd k = Inr (0, k1)"
proof -
  have "mem_word order (mem_image order 4 (0 :: cint)) = (0 :: cint)" for order by simp
  then show ?thesis using assms by (simp add: GetSocketError_def Let_def poke_def)
qed

definition refused_connection :: "unit sock_env" where
  "refused_connection = refusing_env\<lparr>sys_getsockopt := (\<lambda>_ _ n k. (0, take n [111, 0, 0, 0], k))\<rparr>"

theorem GetSocketError_sees_nothing_witness: "GetSocketError refused_connection 4 () = Inr (0, ())"
  by (rule GetSocketError_sees_nothing [where ret = 0 and bs = "[]"]) (simp_all add: refused_connection_def)

lemma four_byte_words:
  assumes "length a = 4" and "length b = 4"
  shows "(mem_word order a :: 32 word) = mem_word order b \<longleftrightarrow> a = b"
proof
  assume eq: "(mem_word order a :: 32 word) = mem_word order b"
  have "a = mem_image order (length a) (mem_word order a :: 32 word)"
    by (rule mem_image_word [symmetric]) (simp add: assms)
  also have "\<dots> = mem_image order (length b) (mem_word order b :: 32 word)"
    by (simp only: eq assms)
  also have "\<dots> = b" by (rule mem_image_word) (simp add: assms)
  finally show "a = b" .
qed simp

lemma wire_port_eq:
  "(mem_word order (bytes_be 2 (unat (p :: 16 word))) :: 16 word) = mem_word order (bytes_be 2 (unat (q :: 16 word))) \<longleftrightarrow> p = q"
  using net16.load_wire [of order p] net16.load_wire [of order q] by metis

text \<open>
  C40: IsSelfConnect answers whether the two ends of a connection are the same. When the kernel fills in
  the blocks of an IPv4 connection (sixteen bytes) it is true exactly when port and address agree, when
  it fills in those of an IPv6 connection exactly when port and address agree, on either kind of
  host; and an end of another family is never the same.
\<close>

theorem IsSelfConnect_same_end:
  shows "(length a = 4 \<and> length b = 4 \<and> length z = 8
      \<and> sys_getsockname E fd k = (0, inet4_block (so_order E) p a z)
      \<and> sys_getpeername E fd k = (0, inet4_block (so_order E) q b z)
      \<longrightarrow> IsSelfConnect E fd k = Inr (p = q \<and> a = b))
    \<and> (length a6 = 16 \<and> length b6 = 16 \<and> length flow = 4 \<and> length flow' = 4 \<and> length scope = 4 \<and> length scope' = 4
      \<and> sys_getsockname E fd k = (0, inet6_block (so_order E) p flow a6 scope)
      \<and> sys_getpeername E fd k = (0, inet6_block (so_order E) q flow' b6 scope')
      \<longrightarrow> IsSelfConnect E fd k = Inr (p = q \<and> a6 = b6))
    \<and> (family \<noteq> AF_INET \<and> family \<noteq> AF_INET6
      \<and> sys_getsockname E fd k = (0, mem_image (so_order E) 2 family @ rest)
      \<and> sys_getpeername E fd k = (0, peer)
      \<longrightarrow> IsSelfConnect E fd k = Inr False)"
proof -
  have four: "poke 0 (take 28 (inet4_block (so_order E) r c z)) (replicate 28 0)
      = inet4_block (so_order E) r c (z @ replicate 12 0)" if "length c = 4" "length z = 8" for r c
    using that by (simp add: poke_def inet4_block_def)
  have six: "poke 0 (take 28 (inet6_block (so_order E) r f c s)) (replicate 28 0) = inet6_block (so_order E) r f c s"
    if "length c = 16" "length f = 4" "length s = 4" for r c f s
    using that by (simp add: poke_def inet6_block_def)
  have port4: "sin_port order (inet4_block order r c rest) = mem_word order (bytes_be 2 (unat r))" for order r c rest
    by (simp add: sin_port_def inet4_block_def segment_def)
  have port6: "sin_port order (inet6_block order r f c s) = mem_word order (bytes_be 2 (unat r))" for order r f c s
    by (simp add: sin_port_def inet6_block_def segment_def)
  have other: "sa_family order (poke 0 (mem_image order 2 family @ r) (replicate 28 0)) = family" for order r
    by (simp add: sa_family_def segment_def poke_def inet_simps)
  have "IsSelfConnect E fd k = Inr (p = q \<and> a = b)"
    if "length a = 4" "length b = 4" "length z = 8" "sys_getsockname E fd k = (0, inet4_block (so_order E) p a z)"
      "sys_getpeername E fd k = (0, inet4_block (so_order E) q b z)"
    using that by (simp add: IsSelfConnect_def GetLocalAddr_def GetPeerAddr_def sizeof_sockaddr_in6_def four
        inet_simps port4 wire_port_eq four_byte_words Let_def)
  moreover have "IsSelfConnect E fd k = Inr (p = q \<and> a6 = b6)"
    if "length a6 = 16" "length b6 = 16" "length flow = 4" "length flow' = 4" "length scope = 4" "length scope' = 4"
      "sys_getsockname E fd k = (0, inet6_block (so_order E) p flow a6 scope)"
      "sys_getpeername E fd k = (0, inet6_block (so_order E) q flow' b6 scope')"
    using that by (simp add: IsSelfConnect_def GetLocalAddr_def GetPeerAddr_def sizeof_sockaddr_in6_def six
        inet_simps port6 wire_port_eq Let_def)
  moreover have "IsSelfConnect E fd k = Inr False"
    if "family \<noteq> AF_INET" "family \<noteq> AF_INET6" "sys_getsockname E fd k = (0, mem_image (so_order E) 2 family @ rest)"
      "sys_getpeername E fd k = (0, peer)"
    using that by (simp add: IsSelfConnect_def GetLocalAddr_def GetPeerAddr_def sizeof_sockaddr_in6_def other Let_def)
  ultimately show ?thesis by blast
qed

text \<open>Descriptor 4 is an IPv4 connection to itself, 6 an IPv6 connection to another end, 8 a socket of family 1.\<close>

definition connected_env :: "unit sock_env" where
  "connected_env = refusing_env\<lparr>
     sys_getsockname := (\<lambda>fd _. (0, if fd = 4 then inet4_block Little_endian 80 [127, 0, 0, 1] (replicate 8 0)
        else if fd = 6 then inet6_block Little_endian 80 (replicate 4 0) in6addr_any (replicate 4 0)
        else mem_image Little_endian 2 (1 :: 16 word))),
     sys_getpeername := (\<lambda>fd _. (0, if fd = 4 then inet4_block Little_endian 80 [127, 0, 0, 1] (replicate 8 0)
        else if fd = 6 then inet6_block Little_endian 80 (replicate 4 0) in6addr_loopback (replicate 4 0)
        else mem_image Little_endian 2 (1 :: 16 word)))\<rparr>"

theorem IsSelfConnect_same_end_witness:
  "IsSelfConnect connected_env 4 () = Inr True \<and> IsSelfConnect connected_env 6 () = Inr False
   \<and> IsSelfConnect connected_env 8 () = Inr False"
proof -
  have "last in6addr_any = 0" "last in6addr_loopback = 1"
    by (simp_all add: in6addr_any_def in6addr_loopback_def)
  then have differ: "in6addr_any \<noteq> in6addr_loopback" by auto
  have order: "so_order connected_env = Little_endian"
    by (simp add: connected_env_def refusing_env_def nibble_lib_def)
  have "IsSelfConnect connected_env 4 () = Inr True"
    using IsSelfConnect_same_end [of "[127, 0, 0, 1]" "[127, 0, 0, 1]" "replicate 8 0" connected_env 4 "()" 80 80]
    unfolding order by (simp add: connected_env_def)
  moreover have "IsSelfConnect connected_env 6 () = Inr False"
    using IsSelfConnect_same_end [of "[]" "[]" "[]" connected_env 6 "()" 80 80 in6addr_any in6addr_loopback
        "replicate 4 0" "replicate 4 0" "replicate 4 0" "replicate 4 0"] differ
    unfolding order by (simp add: connected_env_def in6addr_any_def in6addr_loopback_def)
  moreover have "IsSelfConnect connected_env 8 () = Inr False"
    using IsSelfConnect_same_end [of "[]" "[]" "[]" connected_env 8 "()" 80 80 "[]" "[]" "[]" "[]" "[]" "[]" 1 "[]"
        "mem_image Little_endian 2 (1 :: 16 word)"]
    unfolding order by (simp add: connected_env_def AF_INET_def AF_INET6_def)
  ultimately show ?thesis by blast
qed

end
