(* ===== verification/Net_Buffer.thy ===== *)
theory Net_Buffer
  imports Turbo_Prelude
begin

section \<open>net/buffer: the I/O buffer of a connection\<close>

text \<open>
  \<open>turbo::Buffer\<close> (\<open>src/net/buffer.h\<close>, \<open>src/net/buffer.cpp\<close>) is a growing byte vector with a
  reader index and a write index. The bytes between them are the unread contents; the bytes
  below the reader index are room for a header. Indices are 64-bit words, so the differences
  the code computes wrap exactly as they do in C++. Addresses into the vector are offsets.
  The system calls \<open>readv\<close> and \<open>write\<close> are parameters that say what the kernel delivered.
\<close>

record Buffer =
  buf_data :: "char list"
  reader_index :: size_t
  write_index :: size_t

definition kCheapPrepend :: size_t where
  "kCheapPrepend = 8"

definition kInitialSize :: size_t where
  "kInitialSize = 1024"

definition kCRLF :: string where
  "kCRLF = [CHR 0x0D, CHR 0x0A]"

text \<open>\<open>std::vector<char>\<close>: the largest size, and \<open>resize\<close>, which zero-fills new elements.\<close>

definition vector_max_size :: nat where
  "vector_max_size = 2 ^ 63 - 1"

definition vector_resize :: "nat \<Rightarrow> char list \<Rightarrow> char list result" where
  "vector_resize n m =
     (if vector_max_size < n then Inl Length_error
      else Inr (take n m @ replicate (n - length m) NUL))"

definition Buffer_size :: "Buffer \<Rightarrow> size_t" where
  "Buffer_size b = of_nat (length (buf_data b))"

definition ReadableBytes :: "Buffer \<Rightarrow> size_t" where
  "ReadableBytes b = write_index b - reader_index b"

definition WriteableBytes :: "Buffer \<Rightarrow> size_t" where
  "WriteableBytes b = Buffer_size b - write_index b"

definition PrependableBytes :: "Buffer \<Rightarrow> size_t" where
  "PrependableBytes b = reader_index b"

text \<open>Addresses are offsets from the first byte of the vector.\<close>

definition Buffer_Begin :: "Buffer \<Rightarrow> size_t" where
  [simp]: "Buffer_Begin b = 0"

definition ReadableAddress :: "Buffer \<Rightarrow> size_t" where
  [simp]: "ReadableAddress b = Buffer_Begin b + reader_index b"

definition WriteableAddress :: "Buffer \<Rightarrow> size_t" where
  [simp]: "WriteableAddress b = Buffer_Begin b + write_index b"

definition Buffer_new :: "build \<Rightarrow> size_t \<Rightarrow> Buffer result" where
  "Buffer_new bld initial_size =
     bindR (vector_resize (unat (kCheapPrepend + initial_size)) []) (\<lambda>m.
       let b = \<lparr>buf_data = m, reader_index = kCheapPrepend, write_index = kCheapPrepend\<rparr> in
       bindR (assertR bld (ReadableBytes b = 0)) (\<lambda>_.
       bindR (assertR bld (WriteableBytes b = initial_size)) (\<lambda>_.
       bindR (assertR bld (PrependableBytes b = kCheapPrepend)) (\<lambda>_. Inr b))))"

text \<open>\<open>Swap\<close> exchanges the vectors and the reader indices; its last line swaps the write
  index of this buffer with itself.\<close>

definition Buffer_Swap :: "Buffer \<Rightarrow> Buffer \<Rightarrow> Buffer \<times> Buffer" where
  "Buffer_Swap this rhs =
     (let this1 = this\<lparr>buf_data := buf_data rhs\<rparr>; rhs1 = rhs\<lparr>buf_data := buf_data this\<rparr>;
          this2 = this1\<lparr>reader_index := reader_index rhs1\<rparr>;
          rhs2 = rhs1\<lparr>reader_index := reader_index this1\<rparr>;
          this3 = this2\<lparr>write_index := write_index this2\<rparr>
      in (this3, rhs2))"

definition MakeSpace :: "build \<Rightarrow> size_t \<Rightarrow> Buffer \<Rightarrow> Buffer result" where
  "MakeSpace bld len b =
     (if WriteableBytes b + PrependableBytes b < kCheapPrepend + len
      then bindR (vector_resize (unat (write_index b + len)) (buf_data b)) (\<lambda>m.
             Inr (b\<lparr>buf_data := m\<rparr>))
      else bindR (assertR bld (kCheapPrepend < reader_index b)) (\<lambda>_.
             let read_able = ReadableBytes b in
             bindR (loadR (unat (Buffer_Begin b + reader_index b)) (unat read_able) (buf_data b)) (\<lambda>xs.
             bindR (storeR (unat (Buffer_Begin b + kCheapPrepend)) xs (buf_data b)) (\<lambda>m.
               let b' = b\<lparr>buf_data := m, reader_index := kCheapPrepend,
                          write_index := kCheapPrepend + read_able\<rparr> in
               bindR (assertR bld (read_able = ReadableBytes b')) (\<lambda>_. Inr b')))))"

definition MoveWriteBackward :: "build \<Rightarrow> size_t \<Rightarrow> Buffer \<Rightarrow> Buffer result" where
  "MoveWriteBackward bld len b =
     bindR (assertR bld (len \<le> WriteableBytes b)) (\<lambda>_.
       Inr (b\<lparr>write_index := write_index b + len\<rparr>))"

definition EnsureWriteableBytes :: "build \<Rightarrow> size_t \<Rightarrow> Buffer \<Rightarrow> Buffer result" where
  "EnsureWriteableBytes bld len b =
     bindR (if WriteableBytes b < len then MakeSpace bld len b else Inr b) (\<lambda>b'.
       bindR (assertR bld (len \<le> WriteableBytes b')) (\<lambda>_. Inr b'))"

definition MoveReadAll :: "Buffer \<Rightarrow> Buffer" where
  "MoveReadAll b = b\<lparr>reader_index := kCheapPrepend, write_index := kCheapPrepend\<rparr>"

definition MoveReadBackward :: "build \<Rightarrow> size_t \<Rightarrow> Buffer \<Rightarrow> Buffer result" where
  "MoveReadBackward bld len b =
     bindR (assertR bld (len \<le> ReadableBytes b)) (\<lambda>_.
       if len < ReadableBytes b then Inr (b\<lparr>reader_index := reader_index b + len\<rparr>)
       else Inr (MoveReadAll b))"

definition ReadToString :: "build \<Rightarrow> size_t \<Rightarrow> Buffer \<Rightarrow> (string \<times> Buffer) result" where
  "ReadToString bld len b =
     bindR (assertR bld (len \<le> ReadableBytes b)) (\<lambda>_.
     bindR (loadR (unat (ReadableAddress b)) (unat len) (buf_data b)) (\<lambda>s.
     bindR (MoveReadBackward bld len b) (\<lambda>b'. Inr (s, b'))))"

definition ReadAllToString :: "build \<Rightarrow> Buffer \<Rightarrow> (string \<times> Buffer) result" where
  "ReadAllToString bld b = ReadToString bld (ReadableBytes b) b"

text \<open>The source of a copy is a block of memory of which the first \<open>len\<close> bytes are read.\<close>

definition PushBack :: "build \<Rightarrow> char list \<Rightarrow> size_t \<Rightarrow> Buffer \<Rightarrow> Buffer result" where
  "PushBack bld data len b =
     bindR (EnsureWriteableBytes bld len b) (\<lambda>b1.
     bindR (loadR 0 (unat len) data) (\<lambda>xs.
     bindR (storeR (unat (WriteableAddress b1)) xs (buf_data b1)) (\<lambda>m.
       MoveWriteBackward bld len (b1\<lparr>buf_data := m\<rparr>))))"

definition PushBack_string :: "build \<Rightarrow> string \<Rightarrow> Buffer \<Rightarrow> Buffer result" where
  "PushBack_string bld s b = PushBack bld s (of_nat (length s)) b"

definition PushBack_void :: "build \<Rightarrow> char list \<Rightarrow> size_t \<Rightarrow> Buffer \<Rightarrow> Buffer result" where
  [simp]: "PushBack_void bld data len b = PushBack bld data len b"

definition PushFront :: "build \<Rightarrow> char list \<Rightarrow> size_t \<Rightarrow> Buffer \<Rightarrow> Buffer result" where
  "PushFront bld data len b =
     bindR (assertR bld (len \<le> PrependableBytes b)) (\<lambda>_.
       let r = reader_index b - len in
       bindR (loadR 0 (unat len) data) (\<lambda>xs.
       bindR (storeR (unat (Buffer_Begin b + r)) xs (buf_data b)) (\<lambda>m.
         Inr (b\<lparr>buf_data := m, reader_index := r\<rparr>))))"

text \<open>
  \<open>sys_read\<close> is what one \<open>readv\<close> did: it failed with an error number, or it delivered bytes,
  which the kernel scatters over the vectors in order. The kernel is a function of the
  lengths of the vectors. \<open>ReadFd\<close> returns the count, the error number it stored (if any) and
  the buffer. The stack block \<open>extra_buf\<close> is zero-initialised.
\<close>

datatype sys_read = Read_failed int | Read_bytes "char list"

definition sockets_Read :: "(size_t \<Rightarrow> sys_read) \<Rightarrow> size_t \<Rightarrow> sys_read" where
  [simp]: "sockets_Read read cnt = read cnt"

definition sockets_ReadV :: "(size_t list \<Rightarrow> sys_read) \<Rightarrow> size_t list \<Rightarrow> sys_read" where
  [simp]: "sockets_ReadV readv iov = readv iov"

definition extra_size :: nat where
  "extra_size = 65536"

definition ReadFd :: "build \<Rightarrow> (size_t list \<Rightarrow> sys_read) \<Rightarrow> Buffer \<Rightarrow> (int \<times> int option \<times> Buffer) result" where
  "ReadFd bld readv b =
     (let write_able = WriteableBytes b;
          iov = (if unat write_able < extra_size then [write_able, of_nat extra_size] else [write_able])
      in case sockets_ReadV readv iov of
           Read_failed e \<Rightarrow> Inr (-1, Some e, b)
         | Read_bytes xs \<Rightarrow>
             let n = int (length xs); direct = take (unat write_able) xs in
             bindR (storeR (unat (WriteableAddress b)) direct (buf_data b)) (\<lambda>m.
               let b1 = b\<lparr>buf_data := m\<rparr>;
                   extra = poke 0 (drop (unat write_able) xs) (replicate extra_size NUL)
               in if n < sint write_able
                  then bindR (MoveWriteBackward bld (of_int n) b1) (\<lambda>b2. Inr (n, None, b2))
                  else let b2 = b1\<lparr>write_index := Buffer_size b1\<rparr> in
                       bindR (PushBack bld extra (of_int n - write_index b2) b2) (\<lambda>b3.
                         Inr (n, None, b3))))"

datatype sys_write = Write_failed int | Write_count nat

definition sockets_Write :: "(char list \<Rightarrow> sys_write) \<Rightarrow> char list \<Rightarrow> sys_write" where
  [simp]: "sockets_Write out buf = out buf"

definition WriteFd :: "build \<Rightarrow> (char list \<Rightarrow> sys_write) \<Rightarrow> Buffer \<Rightarrow> (size_t \<times> int option \<times> Buffer) result" where
  "WriteFd bld out b =
     bindR (loadR (unat (ReadableAddress b)) (unat (ReadableBytes b)) (buf_data b)) (\<lambda>xs.
       case sockets_Write out xs of
         Write_failed e \<Rightarrow> Inr (-1, Some e, b)
       | Write_count n \<Rightarrow>
           bindR (MoveReadBackward bld (of_nat n) b) (\<lambda>b'. Inr (of_nat n, None, b')))"

text \<open>\<open>std::search\<close>: the offset of the first occurrence of the pattern, the length if none.\<close>

fun std_search :: "'a list \<Rightarrow> 'a list \<Rightarrow> nat" where
  "std_search [] pat = 0"
| "std_search (x # xs) pat =
     (if take (length pat) (x # xs) = pat then 0 else Suc (std_search xs pat))"

definition FindCRLF :: "Buffer \<Rightarrow> size_t option" where
  "FindCRLF b =
     (let crlf = ReadableAddress b
                 + of_nat (std_search (segment (buf_data b) (unat (ReadableAddress b)) (unat (WriteableAddress b))) kCRLF)
      in if crlf = WriteableAddress b then None else Some crlf)"

subsection \<open>Well-formed buffers and their contents\<close>

abbreviation rd :: "Buffer \<Rightarrow> nat" where
  "rd b \<equiv> unat (reader_index b)"

abbreviation wr :: "Buffer \<Rightarrow> nat" where
  "wr b \<equiv> unat (write_index b)"

definition Buffer_inv :: "Buffer \<Rightarrow> bool" where
  "Buffer_inv b \<longleftrightarrow> rd b \<le> wr b \<and> 8 \<le> wr b \<and> wr b \<le> length (buf_data b)
     \<and> length (buf_data b) \<le> vector_max_size"

definition contents :: "Buffer \<Rightarrow> string" where
  "contents b = segment (buf_data b) (rd b) (wr b)"

named_theorems index_nat "indices and sizes as natural numbers"

lemma unat_kCheapPrepend [index_nat]: "unat kCheapPrepend = 8"
  by (simp add: kCheapPrepend_def)

lemma unat_Buffer_size [index_nat]:
  "length (buf_data b) \<le> vector_max_size \<Longrightarrow> unat (Buffer_size b) = length (buf_data b)"
  by (simp add: Buffer_size_def vector_max_size_def unat_of_nat_size_t)

lemma unat_ReadableBytes [index_nat]: "Buffer_inv b \<Longrightarrow> unat (ReadableBytes b) = wr b - rd b"
  by (simp add: ReadableBytes_def Buffer_inv_def unat_sub_le)

lemma unat_WriteableBytes [index_nat]:
  "Buffer_inv b \<Longrightarrow> unat (WriteableBytes b) = length (buf_data b) - wr b"
  by (simp add: WriteableBytes_def Buffer_inv_def unat_sub_le unat_Buffer_size)

lemma length_contents: "Buffer_inv b \<Longrightarrow> length (contents b) = wr b - rd b"
  by (simp add: contents_def Buffer_inv_def)

lemma unat_free_space:
  "Buffer_inv b \<Longrightarrow>
     unat (WriteableBytes b + PrependableBytes b) = length (buf_data b) - wr b + rd b"
  by (subst unat_add_less)
    (auto simp: index_nat PrependableBytes_def, auto simp: Buffer_inv_def vector_max_size_def)

lemma unat_needed_space:
  "unat len \<le> vector_max_size \<Longrightarrow> unat (kCheapPrepend + len) = 8 + unat len"
  by (subst unat_add_less) (auto simp: index_nat vector_max_size_def)

lemma ReadableBytes_reset [simp]:
  "ReadableBytes (b\<lparr>buf_data := m, reader_index := k, write_index := k + x\<rparr>) = x"
  by (simp add: ReadableBytes_def)

text \<open>The two branches of \<open>MakeSpace\<close>: the vector grows, or the unread bytes move to the front.\<close>

lemma MakeSpace_grows:
  assumes inv: "Buffer_inv b" and room: "wr b + unat len \<le> vector_max_size"
    and full: "WriteableBytes b < len"
    and grow: "WriteableBytes b + PrependableBytes b < kCheapPrepend + len"
  shows "\<exists>b'. MakeSpace bld len b = Inr b' \<and> Buffer_inv b' \<and> contents b' = contents b
           \<and> wr b' \<le> wr b \<and> unat len \<le> length (buf_data b') - wr b'"
proof -
  have sum: "unat (write_index b + len) = wr b + unat len"
    using room by (subst unat_add_less) (auto simp: vector_max_size_def)
  have "length (buf_data b) \<le> wr b + unat len"
    using full inv by (simp add: word_less_nat_alt index_nat)
  with grow inv room show ?thesis
    by (auto simp: MakeSpace_def vector_resize_def sum Buffer_inv_def contents_def segment_append_block)
qed

lemma MakeSpace_moves:
  assumes inv: "Buffer_inv b" and small: "unat len \<le> vector_max_size"
    and full: "WriteableBytes b < len"
    and move: "\<not> WriteableBytes b + PrependableBytes b < kCheapPrepend + len"
  shows "\<exists>b'. MakeSpace bld len b = Inr b' \<and> Buffer_inv b' \<and> contents b' = contents b
           \<and> wr b' \<le> wr b \<and> unat len \<le> length (buf_data b') - wr b'"
proof -
  let ?n = "wr b - rd b"
  have "8 + unat len \<le> length (buf_data b) - wr b + rd b"
    using move inv small by (simp add: word_less_nat_alt unat_free_space unat_needed_space)
  moreover have "length (buf_data b) - wr b < unat len"
    using full inv by (simp add: word_less_nat_alt index_nat)
  ultimately have gap: "8 < rd b" and fits: "8 + ?n + unat len \<le> length (buf_data b)"
    using inv by (auto simp: Buffer_inv_def)
  have r: "unat (ReadableBytes b) = ?n"
    using inv by (rule unat_ReadableBytes)
  have w: "unat (kCheapPrepend + ReadableBytes b) = 8 + ?n"
    using inv by (subst unat_needed_space) (auto simp: r Buffer_inv_def)
  have load: "loadR (rd b) ?n (buf_data b) = Inr (contents b)"
    using inv by (simp add: contents_def Buffer_inv_def)
  have len: "length (contents b) = ?n"
    using inv by (rule length_contents)
  have "MakeSpace bld len b = Inr (b\<lparr>buf_data := poke 8 (contents b) (buf_data b),
          reader_index := kCheapPrepend, write_index := kCheapPrepend + ReadableBytes b\<rparr>)"
    using move gap fits
    by (simp add: MakeSpace_def word_less_nat_alt index_nat r load len Let_def)
  then show ?thesis
    using inv gap fits segment_poke_at [of 8 "contents b" "buf_data b"]
    by (auto simp: Buffer_inv_def contents_def [where b = "_\<lparr>write_index := _\<rparr>"] index_nat w len)
qed

lemma MakeSpace_spec:
  assumes "Buffer_inv b" and "wr b + unat len \<le> vector_max_size" and "WriteableBytes b < len"
  shows "\<exists>b'. MakeSpace bld len b = Inr b' \<and> Buffer_inv b' \<and> contents b' = contents b
           \<and> wr b' \<le> wr b \<and> unat len \<le> length (buf_data b') - wr b'"
  using MakeSpace_grows [OF assms] MakeSpace_moves [OF assms(1) _ assms(3)] assms(2)
  by (meson add_leD2)

lemma EnsureWriteableBytes_spec:
  assumes "Buffer_inv b" and "wr b + unat len \<le> vector_max_size"
  shows "\<exists>b'. EnsureWriteableBytes bld len b = Inr b' \<and> Buffer_inv b' \<and> contents b' = contents b
           \<and> wr b' \<le> wr b \<and> unat len \<le> length (buf_data b') - wr b'"
proof (cases "WriteableBytes b < len")
  case True
  obtain b' where b': "MakeSpace bld len b = Inr b'" "Buffer_inv b'" "contents b' = contents b"
      "wr b' \<le> wr b" "unat len \<le> length (buf_data b') - wr b'"
    using MakeSpace_spec [OF assms True] by blast
  with True show ?thesis
    by (simp add: EnsureWriteableBytes_def word_le_nat_alt index_nat)
next
  case False
  with assms show ?thesis
    by (auto simp: EnsureWriteableBytes_def word_less_nat_alt word_le_nat_alt index_nat)
qed

text \<open>What is written at the write index becomes readable when the index moves over it.\<close>

lemma fill_spec:
  fixes xs :: "char list" and b :: Buffer and m :: "char list" and b' :: Buffer
  assumes inv: "Buffer_inv b" and room: "length xs \<le> length (buf_data b) - wr b"
  defines "m \<equiv> poke (wr b) xs (buf_data b)"
  defines "b' \<equiv> b\<lparr>buf_data := m, write_index := write_index b + of_nat (length xs)\<rparr>"
  shows "storeR (wr b) xs (buf_data b) = Inr m"
    and "MoveWriteBackward bld (of_nat (length xs)) (b\<lparr>buf_data := m\<rparr>) = Inr b'"
    and "Buffer_inv b'"
    and "contents b' = contents b @ xs"
    and "wr b' = wr b + length xs"
proof -
  have fits: "wr b + length xs \<le> length (buf_data b)" and small: "length xs < 2 ^ 64"
    using inv room by (auto simp: Buffer_inv_def vector_max_size_def)
  have n: "unat (of_nat (length xs) :: size_t) = length xs"
    using small by (rule unat_of_nat_size_t)
  have w: "unat (write_index b + of_nat (length xs)) = wr b + length xs"
    using inv fits by (subst unat_add_less) (auto simp: n Buffer_inv_def vector_max_size_def)
  show "storeR (wr b) xs (buf_data b) = Inr m"
    using fits by (simp add: m_def)
  have "unat (WriteableBytes (b\<lparr>buf_data := m\<rparr>)) = length (buf_data b) - wr b"
    using inv fits by (subst unat_WriteableBytes) (auto simp: Buffer_inv_def m_def)
  then show "MoveWriteBackward bld (of_nat (length xs)) (b\<lparr>buf_data := m\<rparr>) = Inr b'"
    using room by (simp add: MoveWriteBackward_def word_le_nat_alt n b'_def)
  show "Buffer_inv b'" and "wr b' = wr b + length xs"
    using inv fits by (auto simp: Buffer_inv_def w b'_def m_def)
  show "contents b' = contents b @ xs"
    using inv fits segment_append [of "rd b" "wr b" "wr b + length xs" m]
    by (simp add: contents_def w memory_simps Buffer_inv_def b'_def m_def)
qed

lemma PushBack_spec:
  assumes inv: "Buffer_inv b" and src: "unat len \<le> length data"
    and room: "wr b + unat len \<le> vector_max_size"
  shows "\<exists>b'. PushBack bld data len b = Inr b' \<and> Buffer_inv b'
           \<and> contents b' = contents b @ take (unat len) data \<and> wr b' \<le> wr b + unat len"
proof -
  obtain b1 where b1: "EnsureWriteableBytes bld len b = Inr b1" "Buffer_inv b1"
      "contents b1 = contents b" "wr b1 \<le> wr b" "unat len \<le> length (buf_data b1) - wr b1"
    using EnsureWriteableBytes_spec [OF inv room, of bld] by blast
  let ?xs = "take (unat len) data"
  have "length ?xs = unat len" and "loadR 0 (unat len) data = Inr ?xs"
    using src by (auto simp: segment_def)
  then show ?thesis
    using b1 fill_spec [of b1 ?xs] by (simp add: PushBack_def)
qed

lemma PushBack_too_long:
  assumes inv: "Buffer_inv b" and len: "unat len \<le> vector_max_size"
    and full: "vector_max_size < wr b + unat len"
    and space: "length (buf_data b) - wr b + rd b < 8 + unat len"
  shows "PushBack bld data len b = Inl Length_error"
proof -
  have "WriteableBytes b < len"
    using inv full by (auto simp: word_less_nat_alt index_nat Buffer_inv_def)
  moreover have "unat (write_index b + len) = wr b + unat len"
    using inv len by (subst unat_add_less) (auto simp: Buffer_inv_def vector_max_size_def)
  ultimately show ?thesis
    using assms by (simp add: PushBack_def EnsureWriteableBytes_def MakeSpace_def
        word_less_nat_alt unat_free_space unat_needed_space vector_resize_def)
qed

lemma MoveReadBackward_spec:
  assumes inv: "Buffer_inv b" and len: "unat len \<le> length (contents b)"
  shows "\<exists>b'. MoveReadBackward bld len b = Inr b' \<and> Buffer_inv b'
           \<and> contents b' = drop (unat len) (contents b) \<and> wr b' \<le> wr b"
proof (cases "len < ReadableBytes b")
  case True
  then have less: "unat len < wr b - rd b"
    using inv by (simp add: word_less_nat_alt index_nat)
  then have "unat (reader_index b + len) = rd b + unat len"
    using inv by (subst unat_add_less) (auto simp: Buffer_inv_def vector_max_size_def)
  with True inv less show ?thesis
    by (auto simp: MoveReadBackward_def Buffer_inv_def contents_def drop_segment)
next
  case False
  then have "unat len = wr b - rd b"
    using inv len by (simp add: word_less_nat_alt index_nat length_contents)
  moreover from this have "len = ReadableBytes b"
    using inv by (simp add: word_unat_eq_iff index_nat)
  ultimately show ?thesis
    using inv by (auto simp: MoveReadBackward_def MoveReadAll_def Buffer_inv_def contents_def
        index_nat segment_def)
qed

lemma ReadToString_spec:
  assumes inv: "Buffer_inv b" and len: "unat len \<le> length (contents b)"
  shows "\<exists>b'. ReadToString bld len b = Inr (take (unat len) (contents b), b') \<and> Buffer_inv b'
           \<and> contents b' = drop (unat len) (contents b) \<and> wr b' \<le> wr b"
proof -
  have "rd b + unat len \<le> length (buf_data b)" and "min (unat len) (wr b - rd b) = unat len"
    using inv len by (auto simp: length_contents Buffer_inv_def)
  then have "loadR (rd b) (unat len) (buf_data b) = Inr (take (unat len) (contents b))"
    by (simp add: contents_def take_segment)
  moreover have "len \<le> ReadableBytes b"
    using inv len by (simp add: word_le_nat_alt index_nat length_contents)
  ultimately show ?thesis
    using MoveReadBackward_spec [OF inv len, of bld] by (auto simp: ReadToString_def)
qed

lemma Buffer_new_spec:
  assumes "unat n \<le> vector_max_size - 8"
  shows "\<exists>b. Buffer_new bld n = Inr b \<and> Buffer_inv b \<and> contents b = [] \<and> wr b = 8
           \<and> length (buf_data b) = 8 + unat n"
proof -
  have sum: "unat (kCheapPrepend + n) = 8 + unat n"
    using assms by (intro unat_needed_space) simp
  let ?b = "\<lparr>buf_data = replicate (8 + unat n) NUL, reader_index = kCheapPrepend,
             write_index = kCheapPrepend\<rparr>"
  have inv: "Buffer_inv ?b"
    using assms by (simp add: Buffer_inv_def index_nat vector_max_size_def)
  then have "WriteableBytes ?b = n"
    by (simp add: word_unat_eq_iff index_nat)
  then have "Buffer_new bld n = Inr ?b"
    using assms by (simp add: Buffer_new_def sum vector_resize_def Let_def ReadableBytes_def
        PrependableBytes_def vector_max_size_def)
  with inv show ?thesis
    by (simp add: contents_def index_nat)
qed

lemma PushFront_spec:
  assumes inv: "Buffer_inv b" and src: "unat len \<le> length data" and room: "unat len \<le> rd b"
  shows "\<exists>b'. PushFront bld data len b = Inr b' \<and> Buffer_inv b'
           \<and> contents b' = take (unat len) data @ contents b \<and> wr b' = wr b"
proof -
  let ?xs = "take (unat len) data"
  have r: "unat (reader_index b - len) = rd b - unat len"
    using room by (rule unat_sub_le)
  have n: "length ?xs = unat len" and load: "loadR 0 (unat len) data = Inr ?xs"
    using src by (auto simp: segment_def)
  let ?m = "poke (rd b - unat len) ?xs (buf_data b)"
  have fits: "rd b - unat len + length ?xs \<le> length (buf_data b)"
    using inv room n by (simp add: Buffer_inv_def)
  have "PushFront bld data len b = Inr (b\<lparr>buf_data := ?m, reader_index := reader_index b - len\<rparr>)"
    using room fits by (simp add: PushFront_def PrependableBytes_def word_le_nat_alt load r Let_def)
  moreover have "segment ?m (rd b - unat len) (wr b) = ?xs @ contents b"
  proof -
    have "segment ?m (rd b - unat len) (rd b) = ?xs"
      using segment_poke_at [OF fits] n room by simp
    moreover have "segment ?m (rd b) (wr b) = contents b"
      using fits room n segment_poke_after [of "rd b - unat len" ?xs "rd b" "buf_data b"]
      by (simp add: contents_def)
    ultimately show ?thesis
      using inv segment_append [of "rd b - unat len" "rd b" "wr b" ?m]
      by (simp add: Buffer_inv_def)
  qed
  ultimately show ?thesis
    using inv room fits by (auto simp: contents_def [where b = "_\<lparr>reader_index := _\<rparr>"] r Buffer_inv_def)
qed

lemma WriteFd_spec:
  assumes inv: "Buffer_inv b" and sent: "out (contents b) = Write_count n"
    and kernel: "n \<le> length (contents b)"
  shows "\<exists>b'. WriteFd bld out b = Inr (of_nat n, None, b') \<and> Buffer_inv b'
           \<and> contents b' = drop n (contents b)"
proof -
  have load: "loadR (rd b) (unat (ReadableBytes b)) (buf_data b) = Inr (contents b)"
    using inv by (simp add: index_nat contents_def) (simp add: Buffer_inv_def)
  have "length (contents b) < 2 ^ 64"
    using inv by (auto simp: length_contents Buffer_inv_def vector_max_size_def)
  then have n: "unat (of_nat n :: size_t) = n"
    using kernel by (intro unat_of_nat_size_t) simp
  show ?thesis
    using MoveReadBackward_spec [OF inv, of "of_nat n" bld] kernel
    by (auto simp: WriteFd_def load sent n)
qed

subsection \<open>Reading from a descriptor\<close>

lemma less_sint_size_t:
  assumes "unat (a :: size_t) < 2 ^ 63"
  shows "int n < sint a \<longleftrightarrow> n < unat a"
proof -
  have "uint a < 2 ^ 63"
    using assms of_nat_less_iff [of "unat a" "2 ^ 63", where 'a = int] by simp
  then have "sint a = int (unat a)"
    using signed_take_bit_int_eq_self [of 63 "uint a"] uint_ge_0 [of a]
    by (simp add: sint_uint)
  then show ?thesis by (simp only: of_nat_less_iff)
qed

definition read_iov :: "Buffer \<Rightarrow> size_t list" where
  "read_iov b = (if unat (WriteableBytes b) < extra_size then [WriteableBytes b, of_nat extra_size]
                 else [WriteableBytes b])"

lemma ReadFd_direct:
  assumes inv: "Buffer_inv b" and got: "readv (read_iov b) = Read_bytes xs"
    and less: "length xs < unat (WriteableBytes b)"
  shows "\<exists>b'. ReadFd bld readv b = Inr (int (length xs), None, b') \<and> Buffer_inv b'
           \<and> contents b' = contents b @ xs \<and> reader_index b' = reader_index b
           \<and> unat (WriteableBytes b') = unat (WriteableBytes b) - length xs"
proof -
  have room: "length xs \<le> length (buf_data b) - wr b"
    using less inv by (simp add: index_nat)
  have "unat (WriteableBytes b) < 2 ^ 63"
    using inv by (auto simp: index_nat) (auto simp: Buffer_inv_def vector_max_size_def)
  then have "ReadFd bld readv b =
      bindR (MoveWriteBackward bld (of_nat (length xs)) (b\<lparr>buf_data := poke (wr b) xs (buf_data b)\<rparr>))
        (\<lambda>b2. Inr (int (length xs), None, b2))"
    using got less fill_spec(1) [OF inv room]
    by (simp add: ReadFd_def read_iov_def [symmetric] less_sint_size_t Let_def)
  moreover have "wr b + length xs < 2 ^ 64" using room inv by (auto simp: Buffer_inv_def vector_max_size_def)
  then have "unat (write_index b + of_nat (length xs)) = wr b + length xs"
    by (subst unat_add_less) (simp_all add: unat_of_nat_size_t)
  moreover have "length (poke (wr b) xs (buf_data b)) = length (buf_data b)"
    using room inv by (intro length_poke) (auto simp: Buffer_inv_def)
  ultimately show ?thesis
    using fill_spec(2-4) [OF inv room] room inv by (simp add: unat_WriteableBytes)
qed

lemma ReadFd_to_the_end:
  assumes inv: "Buffer_inv b" and got: "readv (read_iov b) = Read_bytes xs"
    and full: "unat (WriteableBytes b) \<le> length xs"
  defines "b2 \<equiv> b\<lparr>buf_data := poke (wr b) (take (unat (WriteableBytes b)) xs) (buf_data b),
                  write_index := Buffer_size b\<rparr>"
    and "extra \<equiv> poke 0 (drop (unat (WriteableBytes b)) xs) (replicate extra_size NUL)"
  shows "ReadFd bld readv b = bindR (PushBack bld extra (of_nat (length xs) - Buffer_size b) b2)
           (\<lambda>b3. Inr (int (length xs), None, b3))"
    and "Buffer_inv b2" and "wr b2 = length (buf_data b)"
    and "contents b2 = contents b @ take (unat (WriteableBytes b)) xs"
proof -
  let ?W = "unat (WriteableBytes b)"
  let ?m = "poke (wr b) (take ?W xs) (buf_data b)"
  have W: "?W = length (buf_data b) - wr b"
    using inv by (rule unat_WriteableBytes)
  have room: "length (take ?W xs) \<le> length (buf_data b) - wr b" and len: "length (take ?W xs) = ?W"
    using full W by auto
  have "?W < 2 ^ 63"
    using inv W by (auto simp: Buffer_inv_def vector_max_size_def)
  moreover have sz: "Buffer_size (b\<lparr>buf_data := ?m\<rparr>) = Buffer_size b"
    using inv len W by (simp add: Buffer_size_def Buffer_inv_def)
  ultimately show "ReadFd bld readv b = bindR (PushBack bld extra (of_nat (length xs) - Buffer_size b) b2)
           (\<lambda>b3. Inr (int (length xs), None, b3))"
    using got full fill_spec(1) [OF inv room]
    by (simp add: ReadFd_def read_iov_def [symmetric] less_sint_size_t Let_def b2_def extra_def)
  have w: "Buffer_size b = write_index b + of_nat (length (take ?W xs))"
    by (simp only: len) (simp add: WriteableBytes_def)
  show "Buffer_inv b2" and "contents b2 = contents b @ take ?W xs"
    using fill_spec(3,4) [OF inv room] by (simp_all add: b2_def w)
  show "wr b2 = length (buf_data b)"
    using inv by (simp add: b2_def unat_Buffer_size Buffer_inv_def)
qed

lemma unat_diff_wraps:
  "n < m \<Longrightarrow> m < 2 ^ 64 \<Longrightarrow> unat (of_nat n - of_nat m :: size_t) = 2 ^ 64 - (m - n)"
  by (simp add: unat_sub_if' unat_of_nat_size_t size_word_def) 

lemma ReadFd_exact_fill_faults:
  assumes inv: "Buffer_inv b" and got: "readv (read_iov b) = Read_bytes xs"
    and kernel: "length xs \<le> unat (WriteableBytes b) + extra_size"
    and full: "unat (WriteableBytes b) \<le> length xs" and short: "length xs < length (buf_data b)"
  shows "\<exists>f. ReadFd bld readv b = Inl f"
proof -
  let ?extra = "poke 0 (drop (unat (WriteableBytes b)) xs) (replicate extra_size NUL)"
  let ?len = "of_nat (length xs) - Buffer_size b"
  have "length (buf_data b) \<le> vector_max_size"
    using inv by (simp add: Buffer_inv_def)
  then have "unat ?len = 2 ^ 64 - (length (buf_data b) - length xs)"
    using short unat_diff_wraps [of "length xs" "length (buf_data b)"]
    by (simp add: Buffer_size_def vector_max_size_def)
  then have "extra_size < unat ?len"
    using inv short by (auto simp: Buffer_inv_def vector_max_size_def extra_size_def)
  moreover have "length ?extra = extra_size"
    using kernel by simp
  ultimately have "\<exists>f. PushBack bld ?extra ?len b2 = Inl f" for b2
    by (cases "EnsureWriteableBytes bld ?len b2") (auto simp: PushBack_def)
  then show ?thesis
    using ReadFd_to_the_end(1) [where readv = readv, OF inv got full] by (metis bindR.simps(1))
qed

lemma ReadFd_overflow:
  assumes inv: "Buffer_inv b" and got: "readv (read_iov b) = Read_bytes xs"
    and kernel: "length xs \<le> unat (WriteableBytes b) + extra_size"
    and full: "unat (WriteableBytes b) \<le> length xs" and long: "length (buf_data b) \<le> length xs"
    and room: "length xs \<le> vector_max_size"
  shows "\<exists>b'. ReadFd bld readv b = Inr (int (length xs), None, b') \<and> Buffer_inv b'
           \<and> contents b' = contents b @ take (length xs - wr b) xs"
proof -
  let ?W = "unat (WriteableBytes b)"
  let ?n = "length xs - length (buf_data b)"
  let ?rest = "drop ?W xs"
  let ?extra = "poke 0 ?rest (replicate extra_size NUL)"
  note end_spec = ReadFd_to_the_end [where readv = readv, OF inv got full]
  have W: "?W = length (buf_data b) - wr b" and sz: "wr b \<le> length (buf_data b)"
    using inv by (auto simp: index_nat Buffer_inv_def)
  have len: "unat (of_nat (length xs) - Buffer_size b :: size_t) = ?n"
    using long room by (subst unat_sub_le) (auto simp: Buffer_size_def unat_of_nat_size_t vector_max_size_def)
  have fits: "?n \<le> length ?extra" and "?n \<le> length ?rest"
    using kernel W sz by (auto simp: extra_size_def)
  then have "take ?n ?extra = take ?n ?rest"
    by (simp add: poke_def)
  moreover have "take ?W xs @ take ?n ?rest = take (length xs - wr b) xs"
    using W sz long by (simp add: take_add [symmetric])
  ultimately show ?thesis
    using PushBack_spec [OF end_spec(2), of "of_nat (length xs) - Buffer_size b" ?extra bld]
      end_spec long room fits len by auto
qed

subsection \<open>Searching for a line end\<close>

lemma std_search_le: "std_search xs pat \<le> length xs"
  by (induction xs) auto

lemma std_search_first: "j < std_search xs pat \<Longrightarrow> take (length pat) (drop j xs) \<noteq> pat"
  by (induction xs arbitrary: j) (auto simp: less_Suc_eq_0_disj split: if_splits)

lemma std_search_hit:
  "std_search xs pat < length xs \<Longrightarrow> take (length pat) (drop (std_search xs pat) xs) = pat"
  by (induction xs) auto

lemma length_kCRLF [simp]: "length kCRLF = 2"
  by (simp add: kCRLF_def)

lemma kCRLF_not_Nil [simp]: "kCRLF \<noteq> []"
  by (simp add: kCRLF_def)

lemma FindCRLF_spec:
  assumes inv: "Buffer_inv b"
  shows "FindCRLF b =
     (if std_search (contents b) kCRLF < length (contents b)
      then Some (of_nat (rd b + std_search (contents b) kCRLF)) else None)"
proof -
  let ?i = "std_search (contents b) kCRLF"
  have le: "rd b + ?i \<le> wr b"
    using inv std_search_le [of "contents b" kCRLF] by (auto simp: length_contents Buffer_inv_def)
  moreover have "wr b < 2 ^ 64"
    by (rule unat_size_t_less)
  ultimately have i: "unat (of_nat ?i :: size_t) = ?i"
    by (intro unat_of_nat_size_t) simp
  have "unat (reader_index b + of_nat ?i) = rd b + ?i"
    using le unat_size_t_less [of "write_index b"] by (subst unat_add_less) (auto simp: i)
  then have "reader_index b + of_nat ?i = write_index b \<longleftrightarrow> rd b + ?i = wr b"
    by (simp add: word_unat_eq_iff)
  then show ?thesis
    using le inv by (auto simp: FindCRLF_def contents_def [symmetric] Let_def length_contents)
qed

subsection \<open>A byte queue\<close>

text \<open>
  What a connection expects of its buffer: bytes come out in the order they went in. The
  reference is a string; \<open>Put\<close> appends to it and \<open>Get\<close> takes a prefix of it. The locale
  \<open>byte_queue\<close> is the contract of an implementation with a bounded load, and proves that a
  whole run of operations agrees with the reference.
\<close>

datatype queue_op = Put string | Get nat

fun spec_run :: "queue_op list \<Rightarrow> string \<Rightarrow> (string list \<times> string) option" where
  "spec_run [] s = Some ([], s)"
| "spec_run (Put xs # ops) s = spec_run ops (s @ xs)"
| "spec_run (Get n # ops) s =
     (if n \<le> length s
      then map_option (\<lambda>(outs, t). (take n s # outs, t)) (spec_run ops (drop n s)) else None)"

fun queue_run :: "(string \<Rightarrow> 'b \<Rightarrow> 'b result) \<Rightarrow> (nat \<Rightarrow> 'b \<Rightarrow> (string \<times> 'b) result) \<Rightarrow>
    queue_op list \<Rightarrow> 'b \<Rightarrow> (string list \<times> 'b) result" where
  "queue_run put get [] b = Inr ([], b)"
| "queue_run put get (Put xs # ops) b = bindR (put xs b) (queue_run put get ops)"
| "queue_run put get (Get n # ops) b =
     bindR (get n b) (\<lambda>(s, b'). bindR (queue_run put get ops b') (\<lambda>(outs, c). Inr (s # outs, c)))"

fun put_bytes :: "queue_op list \<Rightarrow> nat" where
  "put_bytes [] = 0"
| "put_bytes (Put xs # ops) = length xs + put_bytes ops"
| "put_bytes (Get n # ops) = put_bytes ops"

locale byte_queue =
  fixes inv :: "'b \<Rightarrow> bool" and view :: "'b \<Rightarrow> string" and load :: "'b \<Rightarrow> nat" and limit :: nat
    and put :: "string \<Rightarrow> 'b \<Rightarrow> 'b result" and get :: "nat \<Rightarrow> 'b \<Rightarrow> (string \<times> 'b) result"
  assumes put_view: "inv b \<Longrightarrow> load b + length xs \<le> limit \<Longrightarrow>
      \<exists>b'. put xs b = Inr b' \<and> inv b' \<and> view b' = view b @ xs \<and> load b' \<le> load b + length xs"
    and get_view: "inv b \<Longrightarrow> n \<le> length (view b) \<Longrightarrow>
      \<exists>b'. get n b = Inr (take n (view b), b') \<and> inv b' \<and> view b' = drop n (view b)
        \<and> load b' \<le> load b"
begin

lemma queue_run_refines:
  "inv b \<Longrightarrow> load b + put_bytes ops \<le> limit \<Longrightarrow> spec_run ops (view b) = Some (outs, s) \<Longrightarrow>
     \<exists>b'. queue_run put get ops b = Inr (outs, b') \<and> inv b' \<and> view b' = s"
proof (induction ops arbitrary: b outs)
  case Nil
  then show ?case by simp
next
  case (Cons op ops)
  show ?case
  proof (cases op)
    case (Put xs)
    with Cons.prems obtain b' where b': "put xs b = Inr b'" "inv b'" "view b' = view b @ xs"
        "load b' \<le> load b + length xs"
      using put_view [of b xs] by auto
    then show ?thesis
      using Cons.prems Cons.IH [of b' outs] Put by simp
  next
    case (Get n)
    with Cons.prems obtain outs' where n: "n \<le> length (view b)"
        and run: "spec_run ops (drop n (view b)) = Some (outs', s)" and outs: "outs = take n (view b) # outs'"
      by (auto split: if_splits)
    obtain b' where b': "get n b = Inr (take n (view b), b')" "inv b'" "view b' = drop n (view b)"
        "load b' \<le> load b"
      using get_view [OF Cons.prems(1) n] by blast
    then show ?thesis
      using Cons.prems Cons.IH [of b' outs'] Get run outs by auto
  qed
qed

end

definition Buffer_get :: "build \<Rightarrow> nat \<Rightarrow> Buffer \<Rightarrow> (string \<times> Buffer) result" where
  "Buffer_get bld n b = ReadToString bld (of_nat n) b"

interpretation buffer_queue: byte_queue Buffer_inv contents wr vector_max_size
    "PushBack_string bld" "Buffer_get bld"
  for bld :: build
proof unfold_locales
  fix b :: Buffer and xs :: string
  assume inv: "Buffer_inv b" and room: "wr b + length xs \<le> vector_max_size"
  have n: "unat (of_nat (length xs) :: size_t) = length xs"
    using room by (intro unat_of_nat_size_t) (simp add: vector_max_size_def)
  show "\<exists>b'. PushBack_string bld xs b = Inr b' \<and> Buffer_inv b' \<and> contents b' = contents b @ xs
      \<and> wr b' \<le> wr b + length xs"
    using PushBack_spec [OF inv, of "of_nat (length xs)" xs bld] room n
    by (simp add: PushBack_string_def)
next
  fix b :: Buffer and n :: nat
  assume inv: "Buffer_inv b" and len: "n \<le> length (contents b)"
  have n: "unat (of_nat n :: size_t) = n"
    using inv len by (intro unat_of_nat_size_t)
      (auto simp: length_contents Buffer_inv_def vector_max_size_def)
  show "\<exists>b'. Buffer_get bld n b = Inr (take n (contents b), b') \<and> Buffer_inv b'
      \<and> contents b' = drop n (contents b) \<and> wr b' \<le> wr b"
    using ReadToString_spec [OF inv, of "of_nat n" bld] len n by (simp add: Buffer_get_def)
qed

subsection \<open>Properties\<close>

text \<open>C1: A buffer is a byte queue. From a fresh buffer of any initial size, in either build, every
  sequence of appends and reads that a plain string would answer runs without a fault, returns
  the same bytes in the same order, and leaves a well-formed buffer holding the rest, whether
  \<open>MakeSpace\<close> grows the vector or moves the bytes to the front on the way.\<close>

theorem Buffer_refines_queue:
  assumes size: "unat n \<le> vector_max_size - 8" and bytes: "8 + put_bytes ops \<le> vector_max_size"
    and spec: "spec_run ops [] = Some (outs, s)"
  shows "\<exists>b. bindR (Buffer_new bld n) (queue_run (PushBack_string bld) (Buffer_get bld) ops)
           = Inr (outs, b) \<and> Buffer_inv b \<and> contents b = s"
proof -
  obtain b where b: "Buffer_new bld n = Inr b" "Buffer_inv b" "contents b = []" "wr b = 8"
    using Buffer_new_spec [OF size] by blast
  then show ?thesis
    using buffer_queue.queue_run_refines [of b ops outs s bld] bytes spec by simp
qed

theorem Buffer_refines_queue_witness:
  "\<exists>b. bindR (Buffer_new Debug 4) (queue_run (PushBack_string Debug) (Buffer_get Debug)
         [Put ''hello'', Get 2, Put '' world'', Get 5]) = Inr ([''he'', ''llo w''], b)
       \<and> Buffer_inv b \<and> contents b = ''orld''"
  using Buffer_refines_queue [of 4 "[Put ''hello'', Get 2, Put '' world'', Get 5]"
      "[''he'', ''llo w'']" "''orld''" Debug]
  by (simp add: vector_max_size_def)

text \<open>A header of at most \<open>PrependableBytes()\<close> bytes can be put in front of the unread bytes
  without moving them, and reading back as many bytes returns the header and leaves what was
  unread before.\<close>

theorem PushFront_read_back:
  assumes inv: "Buffer_inv b" and room: "length h \<le> unat (PrependableBytes b)"
  shows "\<exists>b1 b2. PushFront bld h (of_nat (length h)) b = Inr b1 \<and> contents b1 = h @ contents b
           \<and> ReadToString bld (of_nat (length h)) b1 = Inr (h, b2)
           \<and> Buffer_inv b2 \<and> contents b2 = contents b"
proof -
  have n: "unat (of_nat (length h) :: size_t) = length h"
    using room unat_size_t_less [of "PrependableBytes b"] by (intro unat_of_nat_size_t) simp
  obtain b1 where b1: "PushFront bld h (of_nat (length h)) b = Inr b1" "Buffer_inv b1"
      "contents b1 = h @ contents b"
    using PushFront_spec [OF inv, of "of_nat (length h)" h bld] room n
    by (auto simp: PrependableBytes_def)
  then show ?thesis
    using ReadToString_spec [OF b1(2), of "of_nat (length h)" bld] n by auto
qed

theorem PushFront_read_back_witness:
  "\<exists>b b1 b2. PushFront Debug ''LEN='' 4 b = Inr b1 \<and> contents b1 = ''LEN=body''
     \<and> ReadToString Debug 4 b1 = Inr (''LEN='', b2) \<and> contents b2 = ''body''"
proof -
  let ?b = "\<lparr>buf_data = replicate 8 NUL @ ''body'', reader_index = 8, write_index = 12\<rparr>"
  have "Buffer_inv ?b" "contents ?b = ''body''" "length ''LEN='' \<le> unat (PrependableBytes ?b)"
    by (simp_all add: Buffer_inv_def vector_max_size_def contents_def segment_def PrependableBytes_def)
  then show ?thesis
    using PushFront_read_back [of ?b "''LEN=''" Debug] by fastforce
qed

text \<open>\<open>ReadFd\<close> is right as long as the kernel delivers fewer bytes than the buffer has free: it
  appends exactly those bytes and returns their number; and when \<open>readv\<close> fails it returns -1,
  stores the error number and leaves the buffer alone.\<close>

theorem ReadFd_short_read:
  assumes inv: "Buffer_inv b"
  shows "case readv (read_iov b) of
           Read_failed e \<Rightarrow> ReadFd bld readv b = Inr (-1, Some e, b)
         | Read_bytes xs \<Rightarrow> length xs < unat (WriteableBytes b) \<longrightarrow>
             (\<exists>b'. ReadFd bld readv b = Inr (int (length xs), None, b') \<and> Buffer_inv b'
               \<and> contents b' = contents b @ xs)"
proof (cases "readv (read_iov b)")
  case (Read_failed e)
  then show ?thesis
    by (simp add: ReadFd_def read_iov_def [symmetric] Let_def)
next
  case (Read_bytes xs)
  then show ?thesis
    using ReadFd_direct [where readv = readv, OF inv Read_bytes, of bld] by auto
qed

theorem ReadFd_short_read_witness:
  "\<exists>b b'. contents b = [] \<and> ReadFd Debug (\<lambda>iov. Read_bytes ''GET /'') b = Inr (5, None, b')
     \<and> contents b' = ''GET /''"
proof -
  obtain b where b: "Buffer_new Debug 8 = Inr b" "Buffer_inv b" "contents b = []" "wr b = 8"
      "length (buf_data b) = 8 + unat (8 :: size_t)"
    using Buffer_new_spec [of 8 Debug] by (auto simp: vector_max_size_def)
  have "unat (WriteableBytes b) = 8"
    using b by (simp add: unat_WriteableBytes)
  then show ?thesis
    using ReadFd_short_read [where readv = "\<lambda>iov. Read_bytes ''GET /''" and bld = Debug, OF b(2)] b by auto
qed

text \<open>C34: A read that fills the free space does not work. If the kernel delivers at least
  \<open>WriteableBytes()\<close> bytes but fewer than the size of the vector, \<open>ReadFd\<close> computes
  \<open>n - write_index\<close> below zero and ends in a fault in either build; and if it delivers more,
  the call returns but \<open>write_index\<close> bytes (as many as stood below the old write index) are
  missing from the buffer.\<close>

theorem ReadFd_full_read_loses_bytes:
  assumes inv: "Buffer_inv b" and got: "readv (read_iov b) = Read_bytes xs"
    and kernel: "length xs \<le> unat (WriteableBytes b) + extra_size"
    and full: "unat (WriteableBytes b) \<le> length xs" and small: "length xs \<le> vector_max_size"
  shows "if length xs < length (buf_data b) then \<exists>f. ReadFd bld readv b = Inl f
         else \<exists>b'. ReadFd bld readv b = Inr (int (length xs), None, b')
           \<and> contents b' = contents b @ take (length xs - unat (write_index b)) xs
           \<and> length (contents b') + unat (write_index b) = length (contents b) + length xs"
proof (cases "length xs < length (buf_data b)")
  case True
  then show ?thesis
    using ReadFd_exact_fill_faults [where readv = readv, OF inv got kernel full True] by simp
next
  case False
  then have "length (buf_data b) \<le> length xs" and "wr b \<le> length xs"
    using inv by (auto simp: Buffer_inv_def)
  then show ?thesis
    using False ReadFd_overflow [where readv = readv and bld = bld, OF inv got kernel full _ small] by auto
qed

theorem ReadFd_full_read_loses_bytes_witness:
  "\<exists>b. Buffer_new Release 1024 = Inr b
     \<and> (\<exists>f. ReadFd Release (\<lambda>iov. Read_bytes (replicate 1024 (CHR ''x''))) b = Inl f)"
proof -
  obtain b where b: "Buffer_new Release 1024 = Inr b" "Buffer_inv b" "wr b = 8"
      "length (buf_data b) = 8 + unat (1024 :: size_t)"
    using Buffer_new_spec [of 1024 Release] by (auto simp: vector_max_size_def)
  have "unat (WriteableBytes b) = 1024"
    using b by (simp add: unat_WriteableBytes)
  then show ?thesis
    using b ReadFd_full_read_loses_bytes [where readv = "\<lambda>iov. Read_bytes (replicate 1024 (CHR ''x''))"
        and bld = Release and xs = "replicate 1024 (CHR ''x'')", OF b(2)]
    by (simp add: vector_max_size_def extra_size_def)
qed

text \<open>C33: Line reading. If \<open>FindCRLF\<close> returns an address, reading up to it returns a line that holds
  no line end, and the bytes left start with the two characters of \<open>kCRLF\<close>; it returns null
  exactly when no line end is among the unread bytes.\<close>

theorem FindCRLF_reads_first_line:
  assumes inv: "Buffer_inv b"
  shows "case FindCRLF b of
           None \<Rightarrow> \<forall>j. take 2 (drop j (contents b)) \<noteq> kCRLF
         | Some p \<Rightarrow> \<exists>line b'. ReadToString bld (p - reader_index b) b = Inr (line, b')
             \<and> contents b = line @ contents b' \<and> take 2 (contents b') = kCRLF
             \<and> (\<forall>j < length line. take 2 (drop j (contents b)) \<noteq> kCRLF)"
proof (cases "std_search (contents b) kCRLF < length (contents b)")
  case True
  let ?i = "std_search (contents b) kCRLF"
  have n: "unat (of_nat ?i :: size_t) = ?i"
    using True inv by (intro unat_of_nat_size_t)
      (auto simp: length_contents Buffer_inv_def vector_max_size_def)
  have "of_nat (rd b + ?i) - reader_index b = of_nat ?i"
    by simp
  then show ?thesis
    using True n ReadToString_spec [OF inv, of "of_nat ?i" bld] std_search_hit [OF True]
      std_search_first [where xs = "contents b" and pat = kCRLF]
    by (auto simp: FindCRLF_spec [OF inv])
next
  case False
  have "take 2 (drop j (contents b)) \<noteq> kCRLF" for j
    using False std_search_first [of j "contents b" kCRLF]
    by (cases "j < length (contents b)") (auto dest: sym)
  with False show ?thesis
    by (simp add: FindCRLF_spec [OF inv])
qed

theorem FindCRLF_reads_first_line_witness:
  "\<exists>b b'. FindCRLF b = Some 10 \<and> ReadToString Debug 2 b = Inr (''OK'', b')
     \<and> contents b' = kCRLF @ ''rest''"
proof -
  let ?b = "\<lparr>buf_data = replicate 8 NUL @ ''OK'' @ kCRLF @ ''rest'', reader_index = 8, write_index = 16\<rparr>"
  have inv: "Buffer_inv ?b" and c: "contents ?b = ''OK'' @ kCRLF @ ''rest''"
    by (simp_all add: Buffer_inv_def vector_max_size_def contents_def segment_def kCRLF_def)
  then have f: "FindCRLF ?b = Some 10"
    by (simp add: FindCRLF_spec) (simp add: kCRLF_def)
  obtain line b' where "ReadToString Debug 2 ?b = Inr (line, b')" "contents ?b = line @ contents b'"
      "take 2 (contents b') = kCRLF" "\<forall>j < length line. take 2 (drop j (contents ?b)) \<noteq> kCRLF"
    using FindCRLF_reads_first_line [OF inv, of Debug] f by auto
  moreover obtain c' where "ReadToString Debug 2 ?b = Inr (''OK'', c')" "contents c' = kCRLF @ ''rest''"
    using ReadToString_spec [OF inv, of 2 Debug] c by auto
  ultimately show ?thesis
    using f by blast
qed

text \<open>\<open>WriteFd\<close> hands the kernel exactly the unread bytes, and afterwards the buffer holds the
  ones the kernel did not take; a failed \<open>write\<close> changes nothing and reports the error.\<close>

theorem WriteFd_keeps_unsent:
  assumes inv: "Buffer_inv b"
    and kernel: "\<And>n. out (contents b) = Write_count n \<Longrightarrow> n \<le> length (contents b)"
  shows "case out (contents b) of
           Write_failed e \<Rightarrow> WriteFd bld out b = Inr (-1, Some e, b)
         | Write_count n \<Rightarrow> \<exists>b'. WriteFd bld out b = Inr (of_nat n, None, b')
             \<and> Buffer_inv b' \<and> contents b' = drop n (contents b)"
proof (cases "out (contents b)")
  case (Write_failed e)
  have "loadR (rd b) (unat (ReadableBytes b)) (buf_data b) = Inr (contents b)"
    using inv by (simp add: index_nat contents_def) (simp add: Buffer_inv_def)
  with Write_failed show ?thesis by (simp add: WriteFd_def)
next
  case (Write_count n)
  with kernel WriteFd_spec [where out = out and bld = bld, OF inv Write_count] show ?thesis by simp
qed

theorem WriteFd_keeps_unsent_witness:
  "\<exists>b b'. contents b = ''payload'' \<and> WriteFd Debug (\<lambda>xs. Write_count (min 3 (length xs))) b = Inr (3, None, b')
     \<and> contents b' = ''load''"
proof -
  let ?b = "\<lparr>buf_data = replicate 8 NUL @ ''payload'', reader_index = 8, write_index = 15\<rparr>"
  have "Buffer_inv ?b" "contents ?b = ''payload''"
    by (simp_all add: Buffer_inv_def vector_max_size_def contents_def segment_def)
  then show ?thesis
    using WriteFd_keeps_unsent [where b = ?b and out = "\<lambda>xs. Write_count (min 3 (length xs))" and bld = Debug] by fastforce
qed

text \<open>\<open>Swap\<close> exchanges two well-formed buffers exactly when their write indices happen to be
  equal: the write index is swapped with itself, so otherwise each buffer keeps its old one
  over the other's bytes.\<close>

theorem Swap_exchanges_iff:
  "Buffer_Swap a b = (b, a) \<longleftrightarrow> write_index a = write_index b"
  by (cases a; cases b) (auto simp: Buffer_Swap_def Let_def)

end
