(* ===== verification/Net_BufferOps.thy ===== *)
theory Net_BufferOps
  imports Net_Buffer
begin

section \<open>net/buffer: every operation on one buffer\<close>








subsection \<open>Each operation keeps a buffer well-formed\<close>









lemma length_poke_0: "length (poke 0 xs m) = max (length xs) (length m)"
  by (simp add: poke_def)






subsection \<open>What the operations mean for the bytes\<close>

text \<open>
  What a user of the class sees: the unread bytes and what the two counting methods answer. The
  reference works on that view. \<open>legal\<close> is what the assertions demand of the caller and what has to be
  readable in the memory passed; for \<open>ReadFd\<close> it is that the kernel does not fill the free bytes (what
  happens otherwise is \<open>ReadFd_full_read_loses_bytes\<close>).
\<close>

record byte_view =
  unread :: string
  writeable :: nat
  prependable :: nat

definition view :: "Buffer \<Rightarrow> byte_view" where
  "view b = \<lparr>unread = contents b, writeable = unat (WriteableBytes b), prependable = unat (PrependableBytes b)\<rparr>"

definition offered :: "byte_view \<Rightarrow> size_t list" where
  "offered v = (if writeable v < extra_size then [of_nat (writeable v), of_nat extra_size] else [of_nat (writeable v)])"





lemma view_fields [simp]:
  "unread (view b) = contents b" "writeable (view b) = unat (WriteableBytes b)"
  "prependable (view b) = unat (PrependableBytes b)"
  by (simp_all add: view_def)

lemma offered_view [simp]: "offered (view b) = read_iov b"
  by (simp add: offered_def read_iov_def)







end
