(* ===== verification/Net_Objects.thy ===== *)
theory Net_Objects
  imports Logger_Logger
begin

unbundle bit_operations_syntax

section \<open>net: channels, poller and event loop as objects in a store\<close>

text \<open>
  A \<open>Channel\<close>, the \<open>EpollPoller\<close> of a loop and the \<open>EventLoop\<close> refer to each other by pointer
  and change each other's fields, so the model keeps an explicit store: channels and loops by
  address, the poller inside the loop that owns it (\<open>std::unique_ptr\<close>; null is \<open>None\<close>), and the
  kernel. The record \<open>EpollPoller\<close> extends \<open>Poller\<close> as the class does. Dereferencing an address without an object is undefined behaviour. Callbacks
  (\<open>std::function\<close>) are identified by a number. The classes are those of \<open>src/net/channel.h\<close>,
  \<open>src/net/poller.h\<close>, \<open>src/net/epoll_poller.h\<close> and \<open>src/net/event_loop.h\<close>.
\<close>

type_synonym addr = nat

record Channel =
  ch_loop :: addr
  ch_fd :: int
  ch_events :: cint
  ch_revents :: cint
  ch_index :: int
  event_handing :: bool
  add_to_loop :: bool
  read_call_back :: "nat option"
  write_call_back :: "nat option"
  close_call_back :: "nat option"
  error_call_back :: "nat option"

record Poller =
  poller_loop :: addr
  channel_map :: "int \<rightharpoonup> addr"

record EpollPoller = Poller +
  epoll_fd :: int
  event_list :: "(cint \<times> addr) list"

record EventLoop =
  looping :: bool
  quit :: bool
  thread_id :: int
  loop_poller :: "EpollPoller option"

record 'k net =
  channels :: "addr \<rightharpoonup> Channel"
  loops :: "addr \<rightharpoonup> EventLoop"
  loop_in_thread :: "int \<rightharpoonup> addr"
  kern :: 'k

datatype epoll_op = EPOLL_CTL_ADD | EPOLL_CTL_DEL | EPOLL_CTL_MOD

text \<open>
  What a call runs in: the build, the calling thread, the log level, and the system calls
  \<open>epoll_ctl\<close>, which gets the epoll descriptor, the operation, a descriptor and an event and
  says whether it succeeded, and \<open>close\<close>.
\<close>

record 'k net_env =
  env_build :: build
  env_tid :: int
  env_level :: LogLevel
  env_epoll_ctl :: "int \<Rightarrow> epoll_op \<Rightarrow> int \<Rightarrow> cint \<times> addr \<Rightarrow> 'k \<Rightarrow> bool \<times> 'k"
  env_close :: "int \<Rightarrow> 'k \<Rightarrow> 'k"

definition get_channel :: "addr \<Rightarrow> 'k net \<Rightarrow> Channel result" where
  "get_channel p n = (case channels n p of None \<Rightarrow> Inl Undefined_behaviour | Some c \<Rightarrow> Inr c)"

definition get_loop :: "addr \<Rightarrow> 'k net \<Rightarrow> EventLoop result" where
  "get_loop l n = (case loops n l of None \<Rightarrow> Inl Undefined_behaviour | Some x \<Rightarrow> Inr x)"

definition set_channel :: "addr \<Rightarrow> Channel \<Rightarrow> 'k net \<Rightarrow> 'k net" where
  "set_channel p c n = n\<lparr>channels := (channels n)(p \<mapsto> c)\<rparr>"

definition set_loop :: "addr \<Rightarrow> EventLoop \<Rightarrow> 'k net \<Rightarrow> 'k net" where
  "set_loop l x n = n\<lparr>loops := (loops n)(l \<mapsto> x)\<rparr>"

named_theorems net_simps "reading and writing the store"

lemma get_channel_Some [net_simps]: "channels n p = Some c \<Longrightarrow> get_channel p n = Inr c"
  by (simp add: get_channel_def)

lemma get_loop_Some [net_simps]: "loops n l = Some x \<Longrightarrow> get_loop l n = Inr x"
  by (simp add: get_loop_def)

lemma set_channel_fields [net_simps]:
  "channels (set_channel p c n) = (channels n)(p \<mapsto> c)" "loops (set_channel p c n) = loops n"
  "loop_in_thread (set_channel p c n) = loop_in_thread n" "kern (set_channel p c n) = kern n"
  by (simp_all add: set_channel_def)

lemma set_loop_fields [net_simps]:
  "channels (set_loop l x n) = channels n" "loops (set_loop l x n) = (loops n)(l \<mapsto> x)"
  "loop_in_thread (set_loop l x n) = loop_in_thread n" "kern (set_loop l x n) = kern n"
  by (simp_all add: set_loop_def)

subsection \<open>Event masks\<close>

text \<open>The bits of \<open>sys/epoll.h\<close>.\<close>

definition EPOLLIN :: cint where "EPOLLIN = 0x001"
definition EPOLLPRI :: cint where "EPOLLPRI = 0x002"
definition EPOLLOUT :: cint where "EPOLLOUT = 0x004"
definition EPOLLERR :: cint where "EPOLLERR = 0x008"
definition EPOLLHUP :: cint where "EPOLLHUP = 0x010"
definition EPOLLRDHUP :: cint where "EPOLLRDHUP = 0x2000"

definition kNoneEvent :: cint where "kNoneEvent = 0"
definition kReadEvent :: cint where "kReadEvent = EPOLLIN OR EPOLLPRI"
definition kWriteEvent :: cint where "kWriteEvent = EPOLLOUT"

definition kNew :: int where "kNew = -1"
definition kAdd :: int where "kAdd = 1"
definition kDel :: int where "kDel = 2"

lemmas epoll_bits = EPOLLIN_def EPOLLPRI_def EPOLLOUT_def EPOLLERR_def EPOLLHUP_def EPOLLRDHUP_def
  kNoneEvent_def kReadEvent_def kWriteEvent_def

lemmas index_values = kNew_def kAdd_def kDel_def

subsection \<open>Channel: construction, callbacks, queries\<close>

definition Channel_new :: "addr \<Rightarrow> int \<Rightarrow> Channel" where
  "Channel_new loop fd =
     \<lparr>ch_loop = loop, ch_fd = fd, ch_events = 0, ch_revents = 0, ch_index = -1,
      event_handing = False, add_to_loop = False, read_call_back = None, write_call_back = None,
      close_call_back = None, error_call_back = None\<rparr>"

definition SetReadCallBack :: "nat option \<Rightarrow> Channel \<Rightarrow> Channel" where
  "SetReadCallBack cb c = c\<lparr>read_call_back := cb\<rparr>"

definition SetWriteCallBack :: "nat option \<Rightarrow> Channel \<Rightarrow> Channel" where
  "SetWriteCallBack cb c = c\<lparr>write_call_back := cb\<rparr>"

definition SetCloseCallBack :: "nat option \<Rightarrow> Channel \<Rightarrow> Channel" where
  "SetCloseCallBack cb c = c\<lparr>close_call_back := cb\<rparr>"

definition SetErrorCallBack :: "nat option \<Rightarrow> Channel \<Rightarrow> Channel" where
  "SetErrorCallBack cb c = c\<lparr>error_call_back := cb\<rparr>"

definition SetRevents :: "cint \<Rightarrow> Channel \<Rightarrow> Channel" where
  "SetRevents event c = c\<lparr>ch_revents := event\<rparr>"

declare SetRevents_def [net_simps]

definition GetFd :: "Channel \<Rightarrow> int" where
  [simp]: "GetFd c = ch_fd c"

definition GetEvents :: "Channel \<Rightarrow> cint" where
  [simp]: "GetEvents c = ch_events c"

definition GetIndex :: "Channel \<Rightarrow> int" where
  [simp]: "GetIndex c = ch_index c"

definition OwnerLoop :: "Channel \<Rightarrow> addr" where
  [simp]: "OwnerLoop c = ch_loop c"

definition IsNoneEvents :: "Channel \<Rightarrow> bool" where
  "IsNoneEvents c \<longleftrightarrow> ch_events c = kNoneEvent"

definition IsWriting :: "Channel \<Rightarrow> bool" where
  "IsWriting c \<longleftrightarrow> ch_events c AND kReadEvent \<noteq> 0"

definition IsReading :: "Channel \<Rightarrow> bool" where
  "IsReading c \<longleftrightarrow> ch_events c AND kWriteEvent \<noteq> 0"

text \<open>
  \<open>HandleEvent\<close> runs up to four callbacks. A callback is arbitrary code: a function on the
  whole store, given by the environment \<open>call\<close>; the channel is read again before each test.
\<close>

datatype callback = Read_event Timestamp | Write_event | Close_event | Error_event

definition fire :: "addr \<Rightarrow> (cint \<Rightarrow> bool) \<Rightarrow> (Channel \<Rightarrow> nat option) \<Rightarrow> callback
    \<Rightarrow> (callback \<Rightarrow> nat \<Rightarrow> 'k net \<Rightarrow> 'k net result) \<Rightarrow> 'k net \<Rightarrow> 'k net result" where
  "fire p test cb kind call n =
     bindR (get_channel p n) (\<lambda>c.
       if test (ch_revents c)
       then (case cb c of None \<Rightarrow> Inr n | Some f \<Rightarrow> call kind f n)
       else Inr n)"

definition set_event_handing :: "addr \<Rightarrow> bool \<Rightarrow> 'k net \<Rightarrow> 'k net result" where
  "set_event_handing p v n =
     bindR (get_channel p n) (\<lambda>c. Inr (set_channel p (c\<lparr>event_handing := v\<rparr>) n))"

definition HandleEvent :: "(callback \<Rightarrow> nat \<Rightarrow> 'k net \<Rightarrow> 'k net result) \<Rightarrow> addr \<Rightarrow> Timestamp
    \<Rightarrow> 'k net \<Rightarrow> 'k net result" where
  "HandleEvent call p receive_time n =
     bindR (set_event_handing p True n) (\<lambda>n1.
     bindR (fire p (\<lambda>r. r AND (EPOLLIN OR EPOLLPRI OR EPOLLRDHUP) \<noteq> 0) read_call_back
             (Read_event receive_time) call n1) (\<lambda>n2.
     bindR (fire p (\<lambda>r. r AND EPOLLOUT \<noteq> 0) write_call_back Write_event call n2) (\<lambda>n3.
     bindR (fire p (\<lambda>r. r AND EPOLLHUP \<noteq> 0 \<and> \<not> (r AND EPOLLIN \<noteq> 0)) close_call_back
             Close_event call n3) (\<lambda>n4.
     bindR (fire p (\<lambda>r. r AND EPOLLERR \<noteq> 0) error_call_back Error_event call n4) (\<lambda>n5.
       set_event_handing p False n5)))))"

end
