(* ===== verification/Net_Poller.thy ===== *)
theory Net_Poller
  imports Net_Objects Turbo_Steps
begin

section \<open>net/poller, net/epoll\_poller, net/event\_loop: registration of channels\<close>

text \<open>
  The call chain of the source: a \<open>Channel\<close> asks its \<open>EventLoop\<close>, which asks its \<open>Poller\<close>, which
  reads the channel back and calls \<open>epoll_ctl\<close>. The files are \<open>src/net/poller.cpp\<close>,
  \<open>src/net/epoll_poller.cpp\<close>, \<open>src/net/event_loop.cpp\<close> and the second half of
  \<open>src/net/channel.cpp\<close>.
\<close>

subsection \<open>EventLoop: threads\<close>

definition IsInLoopThread :: "'k net_env \<Rightarrow> EventLoop \<Rightarrow> bool" where
  "IsInLoopThread env x \<longleftrightarrow> thread_id x = env_tid env"

definition AbortNotInLoopThread :: "'k net_env \<Rightarrow> unit result" where
  "AbortNotInLoopThread env = log_fate (env_level env) LOG_FATAL"

definition EventLoop_AssertInLoopThread :: "'k net_env \<Rightarrow> EventLoop \<Rightarrow> unit result" where
  "EventLoop_AssertInLoopThread env x =
     (if \<not> IsInLoopThread env x then AbortNotInLoopThread env else Inr ())"

definition Poller_AssertInLoopThread :: "'k net_env \<Rightarrow> 'p Poller_scheme \<Rightarrow> 'k net \<Rightarrow> unit result" where
  "Poller_AssertInLoopThread env P n =
     bindR (get_loop (poller_loop P) n) (EventLoop_AssertInLoopThread env)"

subsection \<open>EpollPoller\<close>

definition kInitEventListSize :: nat where
  "kInitEventListSize = 16"

definition EpollPoller_new :: "'k net_env \<Rightarrow> int \<Rightarrow> addr \<Rightarrow> EpollPoller result" where
  "EpollPoller_new env epoll_create_result loop =
     bindR (if epoll_create_result < 0 then log_fate (env_level env) LOG_SYS_FATAL else Inr ()) (\<lambda>_.
       Inr \<lparr>poller_loop = loop, channel_map = Map.empty, epoll_fd = epoll_create_result,
            event_list = replicate kInitEventListSize (0, 0)\<rparr>)"

definition EpollPoller_destroy :: "'k net_env \<Rightarrow> EpollPoller \<Rightarrow> 'k \<Rightarrow> 'k" where
  "EpollPoller_destroy env P k = env_close env (epoll_fd P) k"

definition OperationToString :: "epoll_op \<Rightarrow> string" where
  "OperationToString op = (case op of
     EPOLL_CTL_ADD \<Rightarrow> ''ADD'' | EPOLL_CTL_DEL \<Rightarrow> ''DEL'' | EPOLL_CTL_MOD \<Rightarrow> ''MOD'')"

definition EpollPoller_Update :: "'k net_env \<Rightarrow> epoll_op \<Rightarrow> addr \<Rightarrow> EpollPoller \<Rightarrow> 'k net \<Rightarrow> 'k net result" where
  "EpollPoller_Update env operation p P n =
     bindR (get_channel p n) (\<lambda>c.
       let (ok, k) = env_epoll_ctl env (epoll_fd P) operation (GetFd c) (GetEvents c, p) (kern n);
           n' = n\<lparr>kern := k\<rparr>
       in if ok then Inr n'
          else if operation = EPOLL_CTL_DEL
          then bindR (log_fate (env_level env) LOG_SYS_ERROR) (\<lambda>_. Inr n')
          else bindR (log_fate (env_level env) LOG_SYS_FATAL) (\<lambda>_. Inr n'))"

definition SetIndex :: "addr \<Rightarrow> int \<Rightarrow> 'k net \<Rightarrow> 'k net result" where
  "SetIndex p index n =
     bindR (get_channel p n) (\<lambda>c. Inr (set_channel p (c\<lparr>ch_index := index\<rparr>) n))"

definition EpollPoller_UpdateChannel :: "'k net_env \<Rightarrow> addr \<Rightarrow> EpollPoller \<times> 'k net
    \<Rightarrow> (EpollPoller \<times> 'k net) result" where
  "EpollPoller_UpdateChannel env p = (\<lambda>(P, n).
     bindR (Poller_AssertInLoopThread env P n) (\<lambda>_.
     bindR (get_channel p n) (\<lambda>c.
       let index = GetIndex c; fd = GetFd c; bld = env_build env in
       if index = kNew \<or> index = kDel
       then bindR (if index = kNew
                   then bindR (assertR bld (channel_map P fd = None)) (\<lambda>_.
                          Inr (P\<lparr>channel_map := (channel_map P)(fd \<mapsto> p)\<rparr>))
                   else bindR (assertR bld (channel_map P fd \<noteq> None)) (\<lambda>_.
                        bindR (assertR bld (channel_map P fd = Some p)) (\<lambda>_. Inr P))) (\<lambda>P'.
            bindR (SetIndex p kAdd n) (\<lambda>n1.
            bindR (EpollPoller_Update env EPOLL_CTL_ADD p P' n1) (\<lambda>n2. Inr (P', n2))))
       else bindR (assertR bld (channel_map P fd \<noteq> None)) (\<lambda>_.
            bindR (assertR bld (channel_map P fd = Some p)) (\<lambda>_.
              if IsNoneEvents c
              then bindR (EpollPoller_Update env EPOLL_CTL_DEL p P n) (\<lambda>n1.
                   bindR (SetIndex p kDel n1) (\<lambda>n2. Inr (P, n2)))
              else bindR (EpollPoller_Update env EPOLL_CTL_MOD p P n) (\<lambda>n1. Inr (P, n1)))))))"

text \<open>
  The erasure of the map entry is written inside an \<open>assert\<close>: in a Release build the whole
  expression disappears and the entry stays.
\<close>

definition EpollPoller_RemoveChannel :: "'k net_env \<Rightarrow> addr \<Rightarrow> EpollPoller \<times> 'k net
    \<Rightarrow> (EpollPoller \<times> 'k net) result" where
  "EpollPoller_RemoveChannel env p = (\<lambda>(P, n).
     bindR (Poller_AssertInLoopThread env P n) (\<lambda>_.
     bindR (get_channel p n) (\<lambda>c.
       let fd = GetFd c; bld = env_build env; index = GetIndex c in
       bindR (assertR bld (channel_map P fd \<noteq> None)) (\<lambda>_.
       bindR (assertR bld (channel_map P fd = Some p)) (\<lambda>_.
       bindR (assertR bld (IsNoneEvents c)) (\<lambda>_.
       bindR (assertR bld (index = kAdd \<or> index = kDel)) (\<lambda>_.
       bindR (if bld = Debug
              then bindR (assertR bld (channel_map P fd \<noteq> None)) (\<lambda>_.
                     Inr (P\<lparr>channel_map := (channel_map P)(fd := None)\<rparr>))
              else Inr P) (\<lambda>P'.
       bindR (if index = kAdd then EpollPoller_Update env EPOLL_CTL_DEL p P' n else Inr n) (\<lambda>n1.
       bindR (SetIndex p kNew n1) (\<lambda>n2. Inr (P', n2))))))))))) "

definition Poller_HaveChannel :: "'k net_env \<Rightarrow> addr \<Rightarrow> 'p Poller_scheme \<Rightarrow> 'k net \<Rightarrow> bool result" where
  "Poller_HaveChannel env p P n =
     bindR (Poller_AssertInLoopThread env P n) (\<lambda>_.
     bindR (get_channel p n) (\<lambda>c. Inr (channel_map P (GetFd c) = Some p)))"

text \<open>\<open>FillActiveChannels\<close> works on the first \<open>num_events\<close> entries of the event list.\<close>

fun set_all_revents :: "(cint \<times> addr) list \<Rightarrow> 'k net \<Rightarrow> 'k net result" where
  "set_all_revents [] n = Inr n"
| "set_all_revents ((ev, p) # evs) n =
     bindR (get_channel p n) (\<lambda>c.
       set_all_revents evs (set_channel p (SetRevents ev c) n))"

definition FillActiveChannels :: "'k net_env \<Rightarrow> nat \<Rightarrow> EpollPoller \<Rightarrow> addr list \<Rightarrow> 'k net
    \<Rightarrow> (addr list \<times> 'k net) result" where
  "FillActiveChannels env num_events P active n =
     bindR (assertR (env_build env) (num_events < length (event_list P))) (\<lambda>_.
     bindR (loadR 0 num_events (event_list P)) (\<lambda>evs.
     bindR (set_all_revents evs n) (\<lambda>n'. Inr (active @ map snd evs, n'))))"

text \<open>\<open>epoll_wait\<close> fills a prefix of the event list, or fails with an error number.\<close>

datatype wait_result = Wait_events "(cint \<times> addr) list" | Wait_failed int

definition EINTR :: int where
  "EINTR = 4"

definition EpollPoller_Poll :: "'k net_env \<Rightarrow> int \<Rightarrow> wait_result \<Rightarrow> addr list \<Rightarrow> EpollPoller \<times> 'k net
    \<Rightarrow> (Timestamp \<times> addr list \<times> EpollPoller \<times> 'k net) result" where
  "EpollPoller_Poll env clock w active_channels = (\<lambda>(P, n).
     let now = Timestamp_Now clock in
     case w of
       Wait_events evs \<Rightarrow>
         if evs \<noteq> []
         then bindR (storeR 0 evs (event_list P)) (\<lambda>m.
                let P1 = P\<lparr>event_list := m\<rparr> in
                bindR (FillActiveChannels env (length evs) P1 active_channels n) (\<lambda>(active, n1).
                  if length evs = length (event_list P1)
                  then Inr (now, active, P1\<lparr>event_list := m @ replicate (length m) (0, 0)\<rparr>, n1)
                  else Inr (now, active, P1, n1)))
         else Inr (now, active_channels, P, n)
     | Wait_failed errno_info \<Rightarrow>
         if errno_info \<noteq> EINTR
         then bindR (log_fate (env_level env) LOG_SYS_ERROR) (\<lambda>_. Inr (now, active_channels, P, n))
         else Inr (now, active_channels, P, n))"

subsection \<open>EventLoop\<close>

definition EventLoop_new :: "'k net_env \<Rightarrow> addr \<Rightarrow> 'k net \<Rightarrow> 'k net result" where
  "EventLoop_new env l n =
     (let n1 = set_loop l \<lparr>looping = False, quit = False, thread_id = env_tid env, loop_poller = None\<rparr> n
      in case loop_in_thread n (env_tid env) of
           Some other \<Rightarrow> bindR (log_fate (env_level env) LOG_FATAL) (\<lambda>_. Inr n1)
         | None \<Rightarrow> Inr (n1\<lparr>loop_in_thread := (loop_in_thread n1)(env_tid env \<mapsto> l)\<rparr>))"

definition EventLoop_destroy :: "'k net_env \<Rightarrow> addr \<Rightarrow> 'k net \<Rightarrow> 'k net result" where
  "EventLoop_destroy env l n =
     bindR (get_loop l n) (\<lambda>x.
     bindR (assertR (env_build env) (\<not> looping x)) (\<lambda>_.
       Inr (n\<lparr>loop_in_thread := (loop_in_thread n)(env_tid env := None), loops := (loops n)(l := None),
              kern := (case loop_poller x of None \<Rightarrow> kern n | Some P \<Rightarrow> EpollPoller_destroy env P (kern n))\<rparr>)))"

definition GetEventLoopCurrentThread :: "'k net_env \<Rightarrow> 'k net \<Rightarrow> addr option" where
  "GetEventLoopCurrentThread env n = loop_in_thread n (env_tid env)"

text \<open>\<open>Loop\<close> does not poll its channels yet: it waits five seconds.\<close>

definition EventLoop_Loop :: "'k net_env \<Rightarrow> addr \<Rightarrow> 'k net \<Rightarrow> 'k net result" where
  "EventLoop_Loop env l n =
     bindR (get_loop l n) (\<lambda>x.
     bindR (assertR (env_build env) (\<not> looping x)) (\<lambda>_.
     bindR (EventLoop_AssertInLoopThread env x) (\<lambda>_.
       let n1 = set_loop l (x\<lparr>looping := True, quit := False\<rparr>) n in
       bindR (get_loop l n1) (\<lambda>x1. Inr (set_loop l (x1\<lparr>looping := False\<rparr>) n1)))))"

text \<open>The three forwarding operations share their guards; \<open>poller_->\<close> dereferences the pointer.\<close>

definition assert_owner :: "'k net_env \<Rightarrow> addr \<Rightarrow> addr \<Rightarrow> 'k net \<Rightarrow> unit result" where
  "assert_owner env l p n =
     (if env_build env = Debug then bindR (get_channel p n) (\<lambda>c. assertR Debug (OwnerLoop c = l)) else Inr ())"

definition with_poller :: "'k net_env \<Rightarrow> addr \<Rightarrow> addr \<Rightarrow> (EpollPoller \<times> 'k net \<Rightarrow> 'a result)
    \<Rightarrow> 'k net \<Rightarrow> 'a result" where
  "with_poller env l p f n =
     bindR (get_loop l n) (\<lambda>x.
     bindR (assert_owner env l p n) (\<lambda>_.
     bindR (EventLoop_AssertInLoopThread env x) (\<lambda>_.
       case loop_poller x of None \<Rightarrow> Inl Undefined_behaviour | Some P \<Rightarrow> f (P, n))))"

definition store_poller :: "addr \<Rightarrow> EpollPoller \<times> 'k net \<Rightarrow> 'k net result" where
  "store_poller l = (\<lambda>(P, n).
     bindR (get_loop l n) (\<lambda>x. Inr (set_loop l (x\<lparr>loop_poller := Some P\<rparr>) n)))"

definition EventLoop_UpdateChannel :: "'k net_env \<Rightarrow> addr \<Rightarrow> addr \<Rightarrow> 'k net \<Rightarrow> 'k net result" where
  "EventLoop_UpdateChannel env l p n =
     with_poller env l p (\<lambda>Pn. bindR (EpollPoller_UpdateChannel env p Pn) (store_poller l)) n"

definition EventLoop_RemoveChannel :: "'k net_env \<Rightarrow> addr \<Rightarrow> addr \<Rightarrow> 'k net \<Rightarrow> 'k net result" where
  "EventLoop_RemoveChannel env l p n =
     with_poller env l p (\<lambda>Pn. bindR (EpollPoller_RemoveChannel env p Pn) (store_poller l)) n"

definition EventLoop_HaveChannel :: "'k net_env \<Rightarrow> addr \<Rightarrow> addr \<Rightarrow> 'k net \<Rightarrow> bool result" where
  "EventLoop_HaveChannel env l p n =
     with_poller env l p (\<lambda>(P, n'). Poller_HaveChannel env p P n') n"

subsection \<open>Channel: operations that reach the loop\<close>

definition Channel_Update :: "'k net_env \<Rightarrow> addr \<Rightarrow> 'k net \<Rightarrow> 'k net result" where
  "Channel_Update env p n =
     bindR (get_channel p n) (\<lambda>c.
       EventLoop_UpdateChannel env (ch_loop c) p (set_channel p (c\<lparr>add_to_loop := True\<rparr>) n))"

definition Channel_Remove :: "'k net_env \<Rightarrow> addr \<Rightarrow> 'k net \<Rightarrow> 'k net result" where
  "Channel_Remove env p n =
     bindR (get_channel p n) (\<lambda>c.
     bindR (assertR (env_build env) (\<not> IsNoneEvents c)) (\<lambda>_.
       EventLoop_RemoveChannel env (ch_loop c) p (set_channel p (c\<lparr>add_to_loop := False\<rparr>) n)))"

definition change_events :: "'k net_env \<Rightarrow> (cint \<Rightarrow> cint) \<Rightarrow> addr \<Rightarrow> 'k net \<Rightarrow> 'k net result" where
  "change_events env f p n =
     bindR (get_channel p n) (\<lambda>c.
       Channel_Update env p (set_channel p (c\<lparr>ch_events := f (ch_events c)\<rparr>) n))"

definition EnableReading :: "'k net_env \<Rightarrow> addr \<Rightarrow> 'k net \<Rightarrow> 'k net result" where
  "EnableReading env = change_events env (\<lambda>e. e OR kReadEvent)"

definition DisableReading :: "'k net_env \<Rightarrow> addr \<Rightarrow> 'k net \<Rightarrow> 'k net result" where
  "DisableReading env = change_events env (\<lambda>e. e AND NOT kReadEvent)"

definition EnableWriting :: "'k net_env \<Rightarrow> addr \<Rightarrow> 'k net \<Rightarrow> 'k net result" where
  "EnableWriting env = change_events env (\<lambda>e. e OR kWriteEvent)"

definition DisableWriting :: "'k net_env \<Rightarrow> addr \<Rightarrow> 'k net \<Rightarrow> 'k net result" where
  "DisableWriting env = change_events env (\<lambda>e. e AND NOT kWriteEvent)"

definition DisableAll :: "'k net_env \<Rightarrow> addr \<Rightarrow> 'k net \<Rightarrow> 'k net result" where
  "DisableAll env = change_events env (\<lambda>_. kNoneEvent)"

definition Channel_destroy :: "'k net_env \<Rightarrow> addr \<Rightarrow> 'k net \<Rightarrow> 'k net result" where
  "Channel_destroy env p n =
     bindR (get_channel p n) (\<lambda>c.
     bindR (assertR (env_build env) (\<not> event_handing c)) (\<lambda>_.
     bindR (assertR (env_build env) (\<not> add_to_loop c)) (\<lambda>_.
     bindR (get_loop (ch_loop c) n) (\<lambda>x.
     bindR (if IsInLoopThread env x \<and> env_build env = Debug
            then bindR (EventLoop_HaveChannel env (ch_loop c) p n) (\<lambda>h. assertR Debug (\<not> h))
            else Inr ()) (\<lambda>_.
       Inr (n\<lparr>channels := (channels n)(p := None)\<rparr>))))))"

subsection \<open>The kernel's interest list\<close>

text \<open>
  What \<open>epoll_ctl(2)\<close> documents for descriptors that are open and limits that are not reached: adding
  a registered descriptor fails, so does changing or deleting an unregistered one, and every
  other call takes effect on the interest list of its epoll descriptor.
\<close>

fun epoll_map :: "epoll_op \<Rightarrow> int \<Rightarrow> cint \<times> addr \<Rightarrow> (int \<rightharpoonup> cint \<times> addr) \<Rightarrow> (int \<rightharpoonup> cint \<times> addr) option" where
  "epoll_map EPOLL_CTL_ADD fd ev m = (if m fd = None then Some (m(fd \<mapsto> ev)) else None)"
| "epoll_map EPOLL_CTL_MOD fd ev m = (if m fd = None then None else Some (m(fd \<mapsto> ev)))"
| "epoll_map EPOLL_CTL_DEL fd ev m = (if m fd = None then None else Some (m(fd := None)))"

type_synonym 'k interest = "'k \<Rightarrow> int \<Rightarrow> int \<rightharpoonup> cint \<times> addr"

definition epoll_documented :: "'k net_env \<Rightarrow> 'k interest \<Rightarrow> bool" where
  "epoll_documented env interest \<longleftrightarrow> (\<forall>ep op fd ev k.
     case epoll_map op fd ev (interest k ep) of
       None \<Rightarrow> \<not> fst (env_epoll_ctl env ep op fd ev k)
         \<and> interest (snd (env_epoll_ctl env ep op fd ev k)) = interest k
     | Some m \<Rightarrow> fst (env_epoll_ctl env ep op fd ev k)
         \<and> interest (snd (env_epoll_ctl env ep op fd ev k)) = (interest k)(ep := m))"

lemma EpollPoller_Update_ok:
  assumes kernel: "epoll_documented env interest" and c: "channels n p = Some c"
    and ok: "epoll_map op (ch_fd c) (ch_events c, p) (interest (kern n) (epoll_fd P)) = Some m"
  shows "\<exists>k. EpollPoller_Update env op p P n = Inr (n\<lparr>kern := k\<rparr>)
     \<and> interest k = (interest (kern n))(epoll_fd P := m)"
proof -
  let ?r = "env_epoll_ctl env (epoll_fd P) op (ch_fd c) (ch_events c, p) (kern n)"
  have "fst ?r \<and> interest (snd ?r) = (interest (kern n))(epoll_fd P := m)"
    using kernel [unfolded epoll_documented_def, rule_format,
        where ep = "epoll_fd P" and op = op and fd = "ch_fd c"
          and ev = "(ch_events c, p)" and k = "kern n"] by (simp add: ok)
  then show ?thesis
    by (auto simp: EpollPoller_Update_def net_simps c split_beta Let_def)
qed

subsection \<open>The invariant of a poller\<close>

text \<open>
  \<open>regs p\<close> are the events last given to the kernel for channel \<open>p\<close>. The map holds exactly the
  channels whose index is \<open>kAdd\<close> or \<open>kDel\<close>, under their descriptor, and the kernel watches exactly
  those with index \<open>kAdd\<close>; channels of one loop have distinct descriptors.
\<close>

definition watch_entry :: "(addr \<Rightarrow> cint) \<Rightarrow> (addr \<rightharpoonup> Channel) \<Rightarrow> addr \<Rightarrow> (cint \<times> addr) option" where
  "watch_entry regs chans p =
     (case chans p of None \<Rightarrow> None | Some c \<Rightarrow> if ch_index c = kAdd then Some (regs p, p) else None)"

definition poller_inv :: "'k interest \<Rightarrow> addr \<Rightarrow> (addr \<Rightarrow> cint) \<Rightarrow> EpollPoller \<Rightarrow> 'k net \<Rightarrow> bool" where
  "poller_inv interest l regs P n \<longleftrightarrow> poller_loop P = l
     \<and> (\<forall>fd p. channel_map P fd = Some p \<longrightarrow> (\<exists>c. channels n p = Some c \<and> ch_fd c = fd \<and> ch_loop c = l
          \<and> (ch_index c = kAdd \<or> ch_index c = kDel \<and> regs p = 0)))
     \<and> (\<forall>p c. channels n p = Some c \<and> ch_loop c = l \<longrightarrow>
          ch_index c = kNew \<or> channel_map P (ch_fd c) = Some p)
     \<and> (\<forall>fd. interest (kern n) (epoll_fd P) fd = Option.bind (channel_map P fd) (watch_entry regs (channels n)))
     \<and> (\<forall>p q c d. channels n p = Some c \<and> channels n q = Some d \<and> ch_loop c = l \<and> ch_loop d = l
          \<and> ch_fd c = ch_fd d \<longrightarrow> p = q)"

lemma poller_inv_map:
  assumes "poller_inv interest l regs P n" and "channel_map P fd = Some p"
  obtains c where "channels n p = Some c" "ch_fd c = fd" "ch_loop c = l"
    "ch_index c = kAdd \<or> ch_index c = kDel \<and> regs p = 0"
  using assms unfolding poller_inv_def by blast

lemma poller_inv_fd:
  assumes "poller_inv interest l regs P n"
  shows "channels n p = Some c \<Longrightarrow> channels n q = Some d \<Longrightarrow> ch_loop c = l \<Longrightarrow> ch_loop d = l
     \<Longrightarrow> ch_fd c = ch_fd d \<Longrightarrow> p = q"
  using assms unfolding poller_inv_def by blast

lemma poller_inv_index:
  assumes "poller_inv interest l regs P n"
  shows "channels n p = Some c \<Longrightarrow> ch_loop c = l \<Longrightarrow> ch_index c = kNew \<or> channel_map P (ch_fd c) = Some p"
  using assms unfolding poller_inv_def by blast

lemma poller_inv_channel:
  assumes "poller_inv interest l regs P n" and "channels n p = Some c" and "ch_loop c = l"
  shows "ch_index c = kNew \<and> channel_map P (ch_fd c) = None
     \<or> (ch_index c = kAdd \<or> ch_index c = kDel \<and> regs p = 0) \<and> channel_map P (ch_fd c) = Some p"
proof (cases "channel_map P (ch_fd c)")
  case None
  with poller_inv_index [OF assms] show ?thesis by simp
next
  case (Some q)
  then obtain d where d: "channels n q = Some d" "ch_fd d = ch_fd c" "ch_loop d = l"
      "ch_index d = kAdd \<or> ch_index d = kDel \<and> regs q = 0"
    by (rule poller_inv_map [OF assms(1)])
  moreover have "q = p"
    using poller_inv_fd [OF assms(1)] assms(2,3) d by blast
  ultimately show ?thesis
    using Some assms(2) by simp
qed

lemma poller_inv_interest:
  assumes "poller_inv interest l regs P n"
  shows "interest (kern n) (epoll_fd P) fd = Option.bind (channel_map P fd) (watch_entry regs (channels n))"
  using assms unfolding poller_inv_def by blast

lemma watch_entry_other:
  "q \<noteq> p \<Longrightarrow> watch_entry (regs(p := e)) (chans(p \<mapsto> c)) q = watch_entry regs chans q"
  by (simp add: watch_entry_def cong: option.case_cong if_cong)

text \<open>One lemma covers the four ways the bookkeeping of a channel changes.\<close>

lemma poller_inv_change:
  assumes inv: "poller_inv interest l regs P n" and c: "channels n p = Some c" and l: "ch_loop c = l"
    and P': "poller_loop P' = l" "epoll_fd P' = epoll_fd P"
    and map: "channel_map P' = (channel_map P)(ch_fd c := if i = kNew then None else Some p)"
    and i: "i = kNew \<or> i = kAdd \<or> i = kDel \<and> ch_events c = 0"
    and k: "interest k = (interest (kern n))(epoll_fd P :=
        (interest (kern n) (epoll_fd P))(ch_fd c := if i = kAdd then Some (ch_events c, p) else None))"
  shows "poller_inv interest l (regs(p := ch_events c)) P' (set_channel p (c\<lparr>ch_index := i\<rparr>) (n\<lparr>kern := k\<rparr>))"
proof -
  have other: "q \<noteq> p" if "channel_map P fd = Some q" "fd \<noteq> ch_fd c" for q fd
    using poller_inv_map [OF inv that(1)] that(2) c by fastforce
  have k': "interest k (epoll_fd P') fd = Option.bind (channel_map P' fd)
      (watch_entry (regs(p := ch_events c)) (channels (set_channel p (c\<lparr>ch_index := i\<rparr>) (n\<lparr>kern := k\<rparr>))))" for fd
  proof (cases "channel_map P fd")
    case None
    then show ?thesis
      using poller_inv_interest [OF inv, of fd] i
      by (auto simp: k map P' net_simps watch_entry_def index_values)
  next
    case (Some q)
    show ?thesis
    proof (cases "fd = ch_fd c")
      case True
      then show ?thesis
        using i by (auto simp: k map P' net_simps watch_entry_def index_values)
    next
      case False
      then show ?thesis
        using Some poller_inv_interest [OF inv, of fd] other [of fd q]
        by (simp add: k map P' net_simps watch_entry_other)
    qed
  qed
  have "interest (kern (set_channel p (c\<lparr>ch_index := i\<rparr>) (n\<lparr>kern := k\<rparr>))) (epoll_fd P') fd = Option.bind (channel_map P' fd)
      (watch_entry (regs(p := ch_events c)) (channels (set_channel p (c\<lparr>ch_index := i\<rparr>) (n\<lparr>kern := k\<rparr>))))" for fd
    using k' [of fd] by (simp add: net_simps)
  moreover have "\<exists>d. channels (set_channel p (c\<lparr>ch_index := i\<rparr>) (n\<lparr>kern := k\<rparr>)) q = Some d \<and> ch_fd d = fd
      \<and> ch_loop d = l \<and> (ch_index d = kAdd \<or> ch_index d = kDel \<and> (regs(p := ch_events c)) q = 0)"
    if "channel_map P' fd = Some q" for fd q
  proof (cases "fd = ch_fd c")
    case True
    then show ?thesis
      using that i l by (auto simp: map net_simps split: if_splits)
  next
    case False
    then have q: "channel_map P fd = Some q" using that map by simp
    obtain d where "channels n q = Some d" "ch_fd d = fd" "ch_loop d = l"
        "ch_index d = kAdd \<or> ch_index d = kDel \<and> regs q = 0"
      by (rule poller_inv_map [OF inv q])
    then show ?thesis
      using other [OF q False] by (simp add: net_simps)
  qed
  moreover have "ch_index d = kNew \<or> channel_map P' (ch_fd d) = Some q"
    if "channels (set_channel p (c\<lparr>ch_index := i\<rparr>) (n\<lparr>kern := k\<rparr>)) q = Some d" "ch_loop d = l" for q d
    using that poller_inv_index [OF inv, of q d] poller_inv_fd [OF inv c, of q d] l
    by (cases "q = p") (auto simp: net_simps map)
  moreover have "q = q'"
    if "channels (set_channel p (c\<lparr>ch_index := i\<rparr>) (n\<lparr>kern := k\<rparr>)) q = Some d"
      "channels (set_channel p (c\<lparr>ch_index := i\<rparr>) (n\<lparr>kern := k\<rparr>)) q' = Some d'"
      "ch_loop d = l" "ch_loop d' = l" "ch_fd d = ch_fd d'" for q q' d d'
  proof -
    note two = that
    have old: "\<exists>e. channels n r = Some e \<and> ch_fd e = ch_fd f \<and> ch_loop e = ch_loop f"
      if "channels (set_channel p (c\<lparr>ch_index := i\<rparr>) (n\<lparr>kern := k\<rparr>)) r = Some f" for r f
      using that c by (auto simp: net_simps split: if_splits)
    obtain e e' where "channels n q = Some e" "channels n q' = Some e'" "ch_fd e = ch_fd e'"
        "ch_loop e = l" "ch_loop e' = l"
      using old [OF two(1)] old [OF two(2)] two(3-5) by auto
    then show ?thesis by (intro poller_inv_fd [OF inv, of q e q' e'])
  qed
  ultimately show ?thesis
    using P'(1) unfolding poller_inv_def by blast
qed

subsection \<open>EpollPoller: what UpdateChannel and RemoveChannel do\<close>

lemma poller_inv_watch:
  assumes inv: "poller_inv interest l regs P n" and c: "channels n p = Some c" and l: "ch_loop c = l"
  shows "interest (kern n) (epoll_fd P) (ch_fd c) = (if ch_index c = kAdd then Some (regs p, p) else None)"
  using poller_inv_interest [OF inv, of "ch_fd c"] poller_inv_channel [OF inv c l] c
  by (auto simp: watch_entry_def index_values)

lemma set_channel_twice [net_simps]:
  "set_channel p d ((set_channel p c n)\<lparr>kern := k\<rparr>) = set_channel p d (n\<lparr>kern := k\<rparr>)"
  "(set_channel p c n)\<lparr>kern := k\<rparr> = set_channel p c (n\<lparr>kern := k\<rparr>)"
  "channels n p = Some c \<Longrightarrow> set_channel p c n = n"
  by (simp_all add: set_channel_def fun_upd_idem)

lemma EpollPoller_guards:
  assumes "poller_inv interest l regs P n" and "loops n l = Some x" and "thread_id x = env_tid env"
  shows "poller_loop P = l" "Poller_AssertInLoopThread env P n = Inr ()"
  using assms by (auto simp: Poller_AssertInLoopThread_def EventLoop_AssertInLoopThread_def
      IsInLoopThread_def poller_inv_def net_simps)

text \<open>What \<open>UpdateChannel\<close> has achieved when it returns.\<close>

definition updated :: "'k net_env \<Rightarrow> 'k interest \<Rightarrow> addr \<Rightarrow> (addr \<Rightarrow> cint) \<Rightarrow> EpollPoller \<Rightarrow> addr \<Rightarrow> Channel
    \<Rightarrow> 'k net \<Rightarrow> EpollPoller \<Rightarrow> int \<Rightarrow> 'k \<Rightarrow> bool" where
  "updated env interest l regs P p c n P' i k \<longleftrightarrow>
     EpollPoller_UpdateChannel env p (P, n) = Inr (P', set_channel p (c\<lparr>ch_index := i\<rparr>) (n\<lparr>kern := k\<rparr>))
     \<and> i \<noteq> kNew \<and> epoll_fd P' = epoll_fd P
     \<and> poller_inv interest l (regs(p := ch_events c)) P' (set_channel p (c\<lparr>ch_index := i\<rparr>) (n\<lparr>kern := k\<rparr>))"

lemma EpollPoller_UpdateChannel_add:
  assumes kernel: "epoll_documented env interest" and inv: "poller_inv interest l regs P n"
    and c: "channels n p = Some c" and own: "ch_loop c = l"
    and x: "loops n l = Some x" and thread: "thread_id x = env_tid env"
    and i: "ch_index c = kNew \<or> ch_index c = kDel"
  shows "\<exists>P' k. updated env interest l regs P p c n P' kAdd k"
proof -
  let ?P = "if ch_index c = kNew then P\<lparr>channel_map := (channel_map P)(ch_fd c \<mapsto> p)\<rparr> else P"
    and ?c = "c\<lparr>ch_index := kAdd\<rparr>"
  note known = poller_inv_channel [OF inv c own] and guards = EpollPoller_guards [OF inv x thread]
  have "epoll_map EPOLL_CTL_ADD (ch_fd ?c) (ch_events ?c, p) (interest (kern (set_channel p ?c n)) (epoll_fd ?P))
      = Some ((interest (kern n) (epoll_fd P))(ch_fd c \<mapsto> (ch_events c, p)))"
    using poller_inv_watch [OF inv c own] i by (auto simp: net_simps index_values)
  moreover have "channels (set_channel p ?c n) p = Some ?c" by (simp add: net_simps)
  moreover have same: "epoll_fd ?P = epoll_fd P" by simp
  ultimately obtain k where k: "EpollPoller_Update env EPOLL_CTL_ADD p ?P (set_channel p ?c n)
        = Inr (set_channel p ?c (n\<lparr>kern := k\<rparr>))"
      "interest k = (interest (kern n))(epoll_fd P := (interest (kern n) (epoll_fd P))(ch_fd c \<mapsto> (ch_events c, p)))"
    using EpollPoller_Update_ok [OF kernel, of "set_channel p ?c n" p ?c EPOLL_CTL_ADD ?P]
    unfolding set_channel_twice(2) set_channel_fields same by blast
  have "EpollPoller_UpdateChannel env p (P, n) = Inr (?P, set_channel p ?c (n\<lparr>kern := k\<rparr>))"
    using i k(1) known c guards(2)
    by (auto simp: EpollPoller_UpdateChannel_def SetIndex_def net_simps Let_def index_values)
  moreover have "poller_inv interest l (regs(p := ch_events c)) ?P (set_channel p ?c (n\<lparr>kern := k\<rparr>))"
    using i known
    by (intro poller_inv_change [OF inv c own]) (auto simp: guards(1) k index_values fun_upd_idem)
  ultimately show ?thesis by (intro exI [of _ ?P] exI [of _ k]) (simp add: updated_def index_values)
qed

lemma EpollPoller_UpdateChannel_none:
  assumes kernel: "epoll_documented env interest" and inv: "poller_inv interest l regs P n"
    and c: "channels n p = Some c" and own: "ch_loop c = l"
    and x: "loops n l = Some x" and thread: "thread_id x = env_tid env"
    and i: "ch_index c = kAdd" and none: "ch_events c = 0"
  shows "\<exists>P' k. updated env interest l regs P p c n P' kDel k"
proof -
  note known = poller_inv_channel [OF inv c own] and guards = EpollPoller_guards [OF inv x thread]
  have "epoll_map EPOLL_CTL_DEL (ch_fd c) (ch_events c, p) (interest (kern n) (epoll_fd P))
      = Some ((interest (kern n) (epoll_fd P))(ch_fd c := None))"
    using poller_inv_watch [OF inv c own] i by (simp add: index_values)
  from EpollPoller_Update_ok [OF kernel c this]
  obtain k where k: "EpollPoller_Update env EPOLL_CTL_DEL p P n = Inr (n\<lparr>kern := k\<rparr>)"
      "interest k = (interest (kern n))(epoll_fd P := (interest (kern n) (epoll_fd P))(ch_fd c := None))"
    by blast
  have "EpollPoller_UpdateChannel env p (P, n) = Inr (P, set_channel p (c\<lparr>ch_index := kDel\<rparr>) (n\<lparr>kern := k\<rparr>))"
    using i none k(1) known c guards(2)
    by (simp add: EpollPoller_UpdateChannel_def SetIndex_def net_simps Let_def index_values IsNoneEvents_def
        kNoneEvent_def)
  moreover have "poller_inv interest l (regs(p := ch_events c)) P (set_channel p (c\<lparr>ch_index := kDel\<rparr>) (n\<lparr>kern := k\<rparr>))"
    using i known none
    by (intro poller_inv_change [OF inv c own]) (auto simp: guards(1) k index_values fun_upd_idem)
  ultimately show ?thesis by (intro exI [of _ P] exI [of _ k]) (simp add: updated_def index_values)
qed

lemma EpollPoller_UpdateChannel_mod:
  assumes kernel: "epoll_documented env interest" and inv: "poller_inv interest l regs P n"
    and c: "channels n p = Some c" and own: "ch_loop c = l"
    and x: "loops n l = Some x" and thread: "thread_id x = env_tid env"
    and i: "ch_index c = kAdd" and some: "ch_events c \<noteq> 0"
  shows "\<exists>P' k. updated env interest l regs P p c n P' kAdd k"
proof -
  note known = poller_inv_channel [OF inv c own] and guards = EpollPoller_guards [OF inv x thread]
  have same: "c\<lparr>ch_index := kAdd\<rparr> = c" by (simp add: i [symmetric])
  have "epoll_map EPOLL_CTL_MOD (ch_fd c) (ch_events c, p) (interest (kern n) (epoll_fd P))
      = Some ((interest (kern n) (epoll_fd P))(ch_fd c \<mapsto> (ch_events c, p)))"
    using poller_inv_watch [OF inv c own] i by (simp add: index_values)
  from EpollPoller_Update_ok [OF kernel c this]
  obtain k where k: "EpollPoller_Update env EPOLL_CTL_MOD p P n = Inr (n\<lparr>kern := k\<rparr>)"
      "interest k = (interest (kern n))(epoll_fd P := (interest (kern n) (epoll_fd P))(ch_fd c \<mapsto> (ch_events c, p)))"
    by blast
  have "EpollPoller_UpdateChannel env p (P, n) = Inr (P, set_channel p (c\<lparr>ch_index := kAdd\<rparr>) (n\<lparr>kern := k\<rparr>))"
    using i some k(1) known c guards(2) unfolding same
    by (simp add: EpollPoller_UpdateChannel_def net_simps Let_def index_values IsNoneEvents_def kNoneEvent_def)
  moreover have "poller_inv interest l (regs(p := ch_events c)) P (set_channel p (c\<lparr>ch_index := kAdd\<rparr>) (n\<lparr>kern := k\<rparr>))"
    using i known
    by (intro poller_inv_change [OF inv c own]) (auto simp: guards(1) k index_values fun_upd_idem)
  ultimately show ?thesis by (intro exI [of _ P] exI [of _ k]) (simp add: updated_def index_values)
qed

lemma EpollPoller_UpdateChannel_ok:
  assumes kernel: "epoll_documented env interest" and inv: "poller_inv interest l regs P n"
    and c: "channels n p = Some c" and own: "ch_loop c = l"
    and x: "loops n l = Some x" and thread: "thread_id x = env_tid env"
  shows "\<exists>P' i k. updated env interest l regs P p c n P' i k"
proof -
  note cases = EpollPoller_UpdateChannel_add [OF assms] EpollPoller_UpdateChannel_none [OF assms]
    EpollPoller_UpdateChannel_mod [OF assms]
  show ?thesis using poller_inv_channel [OF inv c own] cases by blast
qed

subsection \<open>Channels through their loop\<close>

definition owned :: "addr \<Rightarrow> 'k net \<Rightarrow> addr \<Rightarrow> bool" where
  "owned l n p \<longleftrightarrow> (case channels n p of None \<Rightarrow> False | Some c \<Rightarrow> ch_loop c = l)"

definition events_of :: "'k net \<Rightarrow> addr \<Rightarrow> cint" where
  "events_of n p = (case channels n p of None \<Rightarrow> 0 | Some c \<Rightarrow> ch_events c)"

text \<open>The events the kernel reports for channel \<open>p\<close>, on the poller of its loop.\<close>

definition watched :: "'k interest \<Rightarrow> addr \<Rightarrow> 'k net \<Rightarrow> addr \<Rightarrow> cint" where
  "watched interest l n p =
     (case (loops n l, channels n p) of
        (Some x, Some c) \<Rightarrow>
          (case loop_poller x of
             None \<Rightarrow> 0
           | Some P \<Rightarrow> (case interest (kern n) (epoll_fd P) (ch_fd c) of
                          Some (ev, q) \<Rightarrow> if q = p then ev else 0
                        | None \<Rightarrow> 0))
      | _ \<Rightarrow> 0)"

text \<open>A loop at rest, in its own thread: it has a poller, and the kernel knows the events of every channel.\<close>

definition loop_inv :: "'k net_env \<Rightarrow> 'k interest \<Rightarrow> addr \<Rightarrow> 'k net \<Rightarrow> bool" where
  "loop_inv env interest l n \<longleftrightarrow> (\<exists>x P. loops n l = Some x \<and> thread_id x = env_tid env \<and> loop_poller x = Some P
     \<and> poller_inv interest l (events_of n) P n
     \<and> (\<forall>p c. channels n p = Some c \<and> ch_loop c = l \<and> ch_index c = kNew \<longrightarrow> ch_events c = 0))"

lemma poller_inv_events:
  assumes inv: "poller_inv interest l regs P n" and c: "channels n p = Some c"
    and same: "ch_fd c' = ch_fd c" "ch_loop c' = ch_loop c" "ch_index c' = ch_index c"
  shows "poller_inv interest l regs P (set_channel p c' n)"
proof -
  let ?n = "set_channel p c' n"
  have old: "\<exists>e. channels n r = Some e \<and> ch_fd e = ch_fd f \<and> ch_loop e = ch_loop f \<and> ch_index e = ch_index f"
    if "channels ?n r = Some f" for r f
    using that c same by (auto simp: net_simps split: if_splits)
  have new: "\<exists>e. channels ?n r = Some e \<and> ch_fd e = ch_fd f \<and> ch_loop e = ch_loop f \<and> ch_index e = ch_index f"
    if "channels n r = Some f" for r f
    using that c same by (auto simp: net_simps)
  have "watch_entry regs (channels ?n) = watch_entry regs (channels n)"
    using c same by (auto simp: watch_entry_def net_simps fun_eq_iff split: option.splits)
  then have "interest (kern ?n) (epoll_fd P) fd = Option.bind (channel_map P fd) (watch_entry regs (channels ?n))" for fd
    using poller_inv_interest [OF inv, of fd] by (simp add: net_simps)
  moreover have "\<exists>e. channels ?n r = Some e \<and> ch_fd e = fd \<and> ch_loop e = l
      \<and> (ch_index e = kAdd \<or> ch_index e = kDel \<and> regs r = 0)" if m: "channel_map P fd = Some r" for fd r
  proof -
    obtain d where d: "channels n r = Some d" "ch_fd d = fd" "ch_loop d = l"
        "ch_index d = kAdd \<or> ch_index d = kDel \<and> regs r = 0"
      by (rule poller_inv_map [OF inv m])
    then show ?thesis using new [OF d(1)] by auto
  qed
  moreover have "ch_index f = kNew \<or> channel_map P (ch_fd f) = Some r"
    if "channels ?n r = Some f" "ch_loop f = l" for r f
    using old [OF that(1)] poller_inv_index [OF inv, of r] that(2) by force
  moreover have "q = r" if two: "channels ?n q = Some d" "channels ?n r = Some f"
      "ch_loop d = l" "ch_loop f = l" "ch_fd d = ch_fd f" for q r d f
  proof -
    obtain e g where "channels n q = Some e" "channels n r = Some g" "ch_loop e = l" "ch_loop g = l"
        "ch_fd e = ch_fd g"
      using old [OF two(1)] old [OF two(2)] two(3-5) by auto
    then show ?thesis by (intro poller_inv_fd [OF inv, of q e r g])
  qed
  moreover have "poller_loop P = l" using inv by (simp add: poller_inv_def)
  ultimately show ?thesis unfolding poller_inv_def by blast
qed

lemma poller_inv_loop_field [net_simps]: "poller_inv interest l regs P (set_loop l' x n) = poller_inv interest l regs P n"
  by (simp add: poller_inv_def net_simps)

lemma set_channel_again [net_simps]: "set_channel p d (set_channel p c n) = set_channel p d n"
  by (simp add: set_channel_def)

lemma change_events_ok:
  assumes kernel: "epoll_documented env interest" and inv: "loop_inv env interest l n" and own: "owned l n p"
  shows "\<exists>n'. change_events env f p n = Inr n' \<and> loop_inv env interest l n' \<and> owned l n' = owned l n
    \<and> events_of n' = (events_of n)(p := f (events_of n p))"
proof -
  obtain c where c: "channels n p = Some c" "ch_loop c = l" using own by (auto simp: owned_def split: option.splits)
  obtain x P where x: "loops n l = Some x" "thread_id x = env_tid env" "loop_poller x = Some P"
    and P: "poller_inv interest l (events_of n) P n"
    and fresh: "\<forall>p c. channels n p = Some c \<and> ch_loop c = l \<and> ch_index c = kNew \<longrightarrow> ch_events c = 0"
    using inv by (auto simp: loop_inv_def)
  let ?c = "c\<lparr>ch_events := f (ch_events c), add_to_loop := True\<rparr>"
  let ?n = "set_channel p ?c n"
  have "poller_inv interest l (events_of n) P ?n"
    by (rule poller_inv_events [OF P c(1)]) simp_all
  moreover have "channels ?n p = Some ?c" "ch_loop ?c = l" "loops ?n l = Some x"
    by (simp_all add: net_simps c x)
  ultimately obtain P' i k where u: "updated env interest l (events_of n) P p ?c ?n P' i k"
    using EpollPoller_UpdateChannel_ok [OF kernel, of l "events_of n" P ?n p ?c x] x(2) by blast
  let ?m = "set_loop l (x\<lparr>loop_poller := Some P'\<rparr>) (set_channel p (?c\<lparr>ch_index := i\<rparr>) (?n\<lparr>kern := k\<rparr>))"
  have "change_events env f p n = Inr ?m"
    using u c x
    by (simp add: updated_def change_events_def Channel_Update_def EventLoop_UpdateChannel_def with_poller_def
        assert_owner_def EventLoop_AssertInLoopThread_def IsInLoopThread_def store_poller_def net_simps)
  moreover have ev: "events_of ?m = (events_of n)(p := f (events_of n p))"
    by (auto simp: events_of_def net_simps c fun_eq_iff)
  moreover have "owned l ?m = owned l n"
    by (auto simp: owned_def net_simps c fun_eq_iff)
  moreover have "poller_inv interest l (events_of ?m) P' ?m"
    using u unfolding ev by (simp add: updated_def net_simps events_of_def c)
  then have "loop_inv env interest l ?m"
    using x fresh u by (auto simp: loop_inv_def net_simps updated_def)
  ultimately show ?thesis by blast
qed

lemma watched_events:
  assumes inv: "loop_inv env interest l n" and own: "owned l n p"
  shows "watched interest l n p = events_of n p"
proof -
  obtain c where c: "channels n p = Some c" "ch_loop c = l" using own by (auto simp: owned_def split: option.splits)
  obtain x P where x: "loops n l = Some x" "loop_poller x = Some P"
    and P: "poller_inv interest l (events_of n) P n"
    and fresh: "\<forall>p c. channels n p = Some c \<and> ch_loop c = l \<and> ch_index c = kNew \<longrightarrow> ch_events c = 0"
    using inv by (auto simp: loop_inv_def)
  show ?thesis
    using poller_inv_watch [OF P c] poller_inv_channel [OF P c] fresh c
    by (auto simp: watched_def x events_of_def)
qed

subsection \<open>The contract of event registration\<close>

text \<open>
  What a channel relies on: a change of its events succeeds, leaves every other channel's
  events alone, and what is watched is what the channel asked for.
\<close>

fun run_changes :: "('e \<Rightarrow> addr \<Rightarrow> 's \<Rightarrow> 's result) \<Rightarrow> ('e \<times> addr) list \<Rightarrow> 's \<Rightarrow> 's result" where
  "run_changes change [] s = Inr s"
| "run_changes change ((e, p) # es) s = bindR (change e p s) (run_changes change es)"

fun final_events :: "('e \<Rightarrow> cint \<Rightarrow> cint) \<Rightarrow> ('e \<times> addr) list \<Rightarrow> (addr \<Rightarrow> cint) \<Rightarrow> addr \<Rightarrow> cint" where
  "final_events f [] evs = evs"
| "final_events f ((e, p) # es) evs = final_events f es (evs(p := f e (evs p)))"

lemma final_events_at: "f q = g q \<Longrightarrow> final_events h es f q = final_events h es g q"
proof (induction es arbitrary: f g)
  case (Cons ep es)
  obtain e p where "ep = (e, p)" by (cases ep)
  moreover have "final_events h es (f(p := h e (f p))) q = final_events h es (g(p := h e (g p))) q"
    by (rule Cons.IH) (use Cons.prems in auto)
  ultimately show ?case by simp
qed simp

locale event_registry =
  fixes inv :: "'s \<Rightarrow> bool" and member :: "'s \<Rightarrow> addr \<Rightarrow> bool" and wanted :: "'s \<Rightarrow> addr \<Rightarrow> cint"
    and delivered :: "'s \<Rightarrow> addr \<Rightarrow> cint" and apply_event :: "'e \<Rightarrow> cint \<Rightarrow> cint"
    and change :: "'e \<Rightarrow> addr \<Rightarrow> 's \<Rightarrow> 's result"
  assumes change_ok: "inv s \<Longrightarrow> member s p \<Longrightarrow> \<exists>t. change e p s = Inr t \<and> inv t \<and> member t = member s
      \<and> wanted t = (wanted s)(p := apply_event e (wanted s p))"
    and in_step: "inv s \<Longrightarrow> member s p \<Longrightarrow> delivered s p = wanted s p"
begin

lemma run_changes_ok:
  "inv s \<Longrightarrow> \<forall>(e, p) \<in> set es. member s p \<Longrightarrow> \<exists>t. run_changes change es s = Inr t \<and> inv t \<and> member t = member s
     \<and> wanted t = final_events apply_event es (wanted s)"
proof (induction es arbitrary: s)
  case (Cons ep es)
  obtain e p where ep: "ep = (e, p)" by (cases ep)
  obtain u where u: "change e p s = Inr u" "inv u" "member u = member s"
      "wanted u = (wanted s)(p := apply_event e (wanted s p))"
    using change_ok [OF Cons.prems(1), of p e] Cons.prems(2) ep by auto
  have "\<forall>(e, p) \<in> set es. member u p" using Cons.prems(2) u(3) by auto
  from Cons.IH [OF u(2) this] show ?case using u ep by (simp del: fun_upd_apply)
qed simp

lemma delivered_after:
  assumes "inv s" and "\<forall>(e, p) \<in> set es. member s p"
  shows "\<exists>t. run_changes change es s = Inr t \<and> inv t \<and> (\<forall>q. member s q \<longrightarrow> delivered t q = final_events apply_event es (wanted s) q)"
  using run_changes_ok [OF assms] in_step by metis

end

text \<open>The five operations of a channel, and what each asks for.\<close>

datatype channel_op = Enable_reading | Disable_reading | Enable_writing | Disable_writing | Disable_all

fun op_events :: "channel_op \<Rightarrow> cint \<Rightarrow> cint" where
  "op_events Enable_reading e = e OR kReadEvent"
| "op_events Disable_reading e = e AND NOT kReadEvent"
| "op_events Enable_writing e = e OR kWriteEvent"
| "op_events Disable_writing e = e AND NOT kWriteEvent"
| "op_events Disable_all e = kNoneEvent"

fun channel_call :: "'k net_env \<Rightarrow> channel_op \<Rightarrow> addr \<Rightarrow> 'k net \<Rightarrow> 'k net result" where
  "channel_call env Enable_reading = EnableReading env"
| "channel_call env Disable_reading = DisableReading env"
| "channel_call env Enable_writing = EnableWriting env"
| "channel_call env Disable_writing = DisableWriting env"
| "channel_call env Disable_all = DisableAll env"

lemma channel_call_change: "channel_call env e = change_events env (op_events e)"
  by (cases e) (simp_all add: EnableReading_def DisableReading_def EnableWriting_def DisableWriting_def
      DisableAll_def op_events.simps [abs_def] fun_eq_iff)

interpretation epoll_registry: event_registry
    "\<lambda>n. epoll_documented env interest \<and> loop_inv env interest l n" "owned l" "events_of" "watched interest l"
    op_events "channel_call env"
  for env :: "'k net_env" and interest l
proof
  show "\<exists>t. channel_call env e p s = Inr t \<and> (epoll_documented env interest \<and> loop_inv env interest l t)
      \<and> owned l t = owned l s \<and> events_of t = (events_of s)(p := op_events e (events_of s p))"
    if "epoll_documented env interest \<and> loop_inv env interest l s" and "owned l s p" for s p e
    using change_events_ok [of env interest l s p "op_events e"] that by (simp add: channel_call_change)
qed (blast intro: watched_events)

subsection \<open>The start: a loop, its channels, and the poller it lacks\<close>

text \<open>
  Channels as the program makes them: constructed for a loop, with callbacks set or not, one for
  each descriptor.
\<close>

definition made_channels :: "addr \<Rightarrow> (addr \<rightharpoonup> Channel) \<Rightarrow> bool" where
  "made_channels l cs \<longleftrightarrow>
     (\<forall>p c. cs p = Some c \<and> ch_loop c = l \<longrightarrow> (\<exists>r w cl e fd. c = SetReadCallBack r (SetWriteCallBack w
        (SetCloseCallBack cl (SetErrorCallBack e (Channel_new l fd))))))
     \<and> (\<forall>p q c d. cs p = Some c \<and> cs q = Some d \<and> ch_loop c = l \<and> ch_loop d = l \<and> ch_fd c = ch_fd d \<longrightarrow> p = q)"

text \<open>
  No line of the source creates the poller of a loop. To say what the chain does that is written
  for it, the statements below add the missing line at the end of the constructor: a poller made by
  the constructor of \<open>EpollPoller\<close>, with the answer \<open>fd\<close> of \<open>epoll_create1\<close>, is stored in \<open>poller_\<close>.
\<close>

definition supply_poller :: "'k net_env \<Rightarrow> int \<Rightarrow> addr \<Rightarrow> 'k net \<Rightarrow> 'k net result" where
  "supply_poller env fd l n =
     bindR (get_loop l n) (\<lambda>x. bindR (EpollPoller_new env fd l) (\<lambda>P.
       Inr (set_loop l (x\<lparr>loop_poller := Some P\<rparr>) n)))"

lemma EventLoop_new_loop:
  assumes "EventLoop_new env l n = Inr n1"
  shows "loops n1 l = Some \<lparr>looping = False, quit = False, thread_id = env_tid env, loop_poller = None\<rparr>"
  using assms by (auto simp: EventLoop_new_def Let_def net_simps result_simps log_fate_def split: option.splits)

lemma made_channel_fresh:
  assumes "made_channels l cs" and "cs p = Some c" and "ch_loop c = l"
  shows "ch_index c = kNew" and "ch_events c = 0"
proof -
  have "\<exists>r w cl e fd. c = SetReadCallBack r (SetWriteCallBack w (SetCloseCallBack cl (SetErrorCallBack e (Channel_new l fd))))"
    using assms unfolding made_channels_def by blast
  then show "ch_index c = kNew" "ch_events c = 0"
    by (auto simp: SetReadCallBack_def SetWriteCallBack_def SetCloseCallBack_def SetErrorCallBack_def
        Channel_new_def kNew_def)
qed

lemma supply_poller_start:
  assumes new: "EventLoop_new env l n0 = Inr n1" and made: "made_channels l cs"
    and k: "interest (kern n1) fd = Map.empty" and give: "supply_poller env fd l (n1\<lparr>channels := cs\<rparr>) = Inr n"
  shows "loop_inv env interest l n" and "owned l n = owned l (n1\<lparr>channels := cs\<rparr>)"
    and "owned l n p \<Longrightarrow> events_of n p = 0" and "channels n = cs"
proof -
  note x = EventLoop_new_loop [OF new]
  obtain P where P: "EpollPoller_new env fd l = Inr P"
      and n: "n = set_loop l \<lparr>looping = False, quit = False, thread_id = env_tid env, loop_poller = Some P\<rparr> (n1\<lparr>channels := cs\<rparr>)"
    using give x by (auto simp: supply_poller_def get_loop_def result_simps)
  have "P = \<lparr>poller_loop = l, channel_map = Map.empty, epoll_fd = fd,
      event_list = replicate kInitEventListSize (0, 0)\<rparr>"
    using P by (auto simp: EpollPoller_new_def result_simps)
  moreover have "p = q" if "cs p = Some c" "cs q = Some d" "ch_loop c = l" "ch_loop d = l" "ch_fd c = ch_fd d" for p q c d
    using made that unfolding made_channels_def by blast
  ultimately have "poller_inv interest l (events_of n) P n"
    using k made_channel_fresh(1) [OF made] unfolding poller_inv_def n
    by (simp add: net_simps) blast
  then show "loop_inv env interest l n"
    using made_channel_fresh(2) [OF made] unfolding loop_inv_def n by (simp add: net_simps) blast
  show "owned l n = owned l (n1\<lparr>channels := cs\<rparr>)" by (simp add: owned_def n net_simps fun_eq_iff)
  show "channels n = cs" by (simp add: n net_simps)
  show "owned l n p \<Longrightarrow> events_of n p = 0"
    using made_channel_fresh(2) [OF made, of p] by (auto simp: owned_def events_of_def n net_simps split: option.splits)
qed

text \<open>A kernel that does what the manual says, for the concrete runs.\<close>

definition model_epoll_ctl :: "int \<Rightarrow> epoll_op \<Rightarrow> int \<Rightarrow> cint \<times> addr
    \<Rightarrow> (int \<Rightarrow> int \<rightharpoonup> cint \<times> addr) \<Rightarrow> bool \<times> (int \<Rightarrow> int \<rightharpoonup> cint \<times> addr)" where
  "model_epoll_ctl ep op fd ev k =
     (case epoll_map op fd ev (k ep) of None \<Rightarrow> (False, k) | Some m \<Rightarrow> (True, k(ep := m)))"

definition model_env :: "build \<Rightarrow> (int \<Rightarrow> int \<rightharpoonup> cint \<times> addr) net_env" where
  "model_env b = \<lparr>env_build = b, env_tid = 100, env_level = INFO, env_epoll_ctl = model_epoll_ctl,
     env_close = (\<lambda>ep k. k(ep := Map.empty))\<rparr>"

lemma model_documented: "epoll_documented (model_env b) (\<lambda>k. k)"
  by (auto simp: epoll_documented_def model_env_def model_epoll_ctl_def split: option.split)

definition model_net :: "(int \<Rightarrow> int \<rightharpoonup> cint \<times> addr) net" where
  "model_net = \<lparr>channels = [1 \<mapsto> Channel_new 9 5, 2 \<mapsto> Channel_new 9 6],
     loops = [9 \<mapsto> \<lparr>looping = False, quit = False, thread_id = 100,
        loop_poller = Some \<lparr>poller_loop = 9, channel_map = Map.empty, epoll_fd = 3,
          event_list = replicate kInitEventListSize (0, 0)\<rparr>\<rparr>],
     loop_in_thread = [100 \<mapsto> 9], kern = (\<lambda>_. Map.empty)\<rparr>"

definition model_no_loop :: "(int \<Rightarrow> int \<rightharpoonup> cint \<times> addr) net" where
  "model_no_loop = model_net\<lparr>loops := Map.empty, loop_in_thread := Map.empty\<rparr>"

text \<open>The state of a program that made its loop and two channels, and the same with the poller.\<close>

definition model_start :: "(int \<Rightarrow> int \<rightharpoonup> cint \<times> addr) net" where
  "model_start = model_net\<lparr>loops := [9 \<mapsto> \<lparr>looping = False, quit = False, thread_id = 100, loop_poller = None\<rparr>]\<rparr>"

lemma model_start_new: "EventLoop_new (model_env b) 9 model_no_loop = Inr model_start"
  by (simp add: EventLoop_new_def model_no_loop_def model_start_def model_net_def model_env_def set_loop_def)

lemma model_supply: "supply_poller (model_env b) 3 9 model_start = Inr model_net"
  by (simp add: supply_poller_def get_loop_def model_start_def model_net_def EpollPoller_new_def set_loop_def)

lemma made_plain: "\<exists>r w cl e fd'. Channel_new l fd = SetReadCallBack r (SetWriteCallBack w (SetCloseCallBack cl
    (SetErrorCallBack e (Channel_new l fd'))))"
  by (intro exI [of _ None] exI [of _ fd])
    (simp add: SetReadCallBack_def SetWriteCallBack_def SetCloseCallBack_def SetErrorCallBack_def Channel_new_def)

lemma model_made: "made_channels 9 (channels model_net)"
proof -
  have "p = 1 \<and> c = Channel_new 9 5 \<or> p = 2 \<and> c = Channel_new 9 6" if "channels model_net p = Some c" for p c
    using that by (auto simp: model_net_def split: if_splits)
  note one = this
  have fd: "ch_fd (Channel_new 9 5) = 5" "ch_fd (Channel_new 9 6) = 6" by (simp_all add: Channel_new_def)
  have "p = q" if "channels model_net p = Some c" "channels model_net q = Some d" "ch_fd c = ch_fd d" for p q c d
    using one [OF that(1)] one [OF that(2)] that(3) fd by auto
  moreover have "\<exists>r w cl e fd. c = SetReadCallBack r (SetWriteCallBack w (SetCloseCallBack cl (SetErrorCallBack e (Channel_new 9 fd))))"
    if "channels model_net p = Some c" for p c
    using one [OF that] made_plain [of 9 5] made_plain [of 9 6] by blast
  ultimately show ?thesis unfolding made_channels_def by blast
qed

lemma model_start_channels [simp]: "model_start\<lparr>channels := channels model_net\<rparr> = model_start"
  by (simp add: model_start_def model_net_def)

lemma model_start_kern [simp]: "kern model_start 3 = Map.empty" by (simp add: model_start_def model_net_def)

lemma model_net_inv: "loop_inv (model_env b) (\<lambda>k. k) 9 model_net"
  using supply_poller_start(1) [OF model_start_new model_made, of "\<lambda>k. k" 3] model_supply by simp

lemma model_net_owned: "owned 9 model_net 1" "owned 9 model_net 2"
  by (simp_all add: owned_def model_net_def Channel_new_def)

subsection \<open>Properties\<close>

subsection \<open>Removal\<close>

text \<open>
  What a poller knows after \<open>RemoveChannel\<close>: the erasure from the map happens only where the
  assertion around it is compiled.
\<close>

lemma EpollPoller_RemoveChannel_ok:
  assumes kernel: "epoll_documented env interest" and inv: "poller_inv interest l regs P n"
    and c: "channels n p = Some c" and own: "ch_loop c = l"
    and x: "loops n l = Some x" and thread: "thread_id x = env_tid env"
    and used: "ch_index c \<noteq> kNew" and none: "ch_events c = 0"
  shows "\<exists>k. EpollPoller_RemoveChannel env p (P, n) =
       Inr (if env_build env = Debug then P\<lparr>channel_map := (channel_map P)(ch_fd c := None)\<rparr> else P,
            set_channel p (c\<lparr>ch_index := kNew\<rparr>) (n\<lparr>kern := k\<rparr>))
     \<and> interest k (epoll_fd P) (ch_fd c) = None"
proof -
  note known = poller_inv_channel [OF inv c own] and guards = EpollPoller_guards [OF inv x thread]
  let ?P = "if env_build env = Debug then P\<lparr>channel_map := (channel_map P)(ch_fd c := None)\<rparr> else P"
  have fd: "epoll_fd ?P = epoll_fd P" by simp
  consider (add) "ch_index c = kAdd" | (del) "ch_index c = kDel" using known used by blast
  then show ?thesis
  proof cases
    case add
    have "epoll_map EPOLL_CTL_DEL (ch_fd c) (ch_events c, p) (interest (kern n) (epoll_fd ?P))
        = Some ((interest (kern n) (epoll_fd P))(ch_fd c := None))"
      unfolding fd using poller_inv_watch [OF inv c own] add by (simp add: index_values)
    from EpollPoller_Update_ok [OF kernel c this]
    obtain k where k: "EpollPoller_Update env EPOLL_CTL_DEL p ?P n = Inr (n\<lparr>kern := k\<rparr>)"
        "interest k = (interest (kern n))(epoll_fd ?P := (interest (kern n) (epoll_fd P))(ch_fd c := None))"
      by blast
    have "EpollPoller_RemoveChannel env p (P, n) = Inr (?P, set_channel p (c\<lparr>ch_index := kNew\<rparr>) (n\<lparr>kern := k\<rparr>))"
      using add none used known c guards(2) k(1)
      by (cases "env_build env")
        (simp_all add: EpollPoller_RemoveChannel_def SetIndex_def net_simps Let_def index_values IsNoneEvents_def kNoneEvent_def)
    then show ?thesis using k(2) unfolding fd by auto
  next
    case del
    have "EpollPoller_RemoveChannel env p (P, n) = Inr (?P, set_channel p (c\<lparr>ch_index := kNew\<rparr>) (n\<lparr>kern := kern n\<rparr>))"
      using del none used known c guards(2)
      by (cases "env_build env")
        (simp_all add: EpollPoller_RemoveChannel_def SetIndex_def net_simps Let_def index_values IsNoneEvents_def kNoneEvent_def)
    then show ?thesis
      using poller_inv_watch [OF inv c own] del by (intro exI [of _ "kern n"]) (simp add: index_values)
  qed
qed

text \<open>
  RemoveChannel of a channel with no events succeeds in the loop's thread and takes its
  descriptor off the kernel's list, in either build; but HaveChannel still answers yes in a
  Release build, because the erasure from the map is written inside an assert.
\<close>

theorem RemoveChannel_forgets_iff:
  assumes "epoll_documented env interest" and "loop_inv env interest l n"
    and "channels n p = Some c" and "ch_loop c = l" and "ch_index c \<noteq> kNew" and "IsNoneEvents c"
  shows "\<exists>n'. EventLoop_RemoveChannel env l p n = Inr n' \<and> watched interest l n' p = 0
     \<and> EventLoop_HaveChannel env l p n' = Inr (env_build env = Release)"
proof -
  obtain x P where x: "loops n l = Some x" "thread_id x = env_tid env" "loop_poller x = Some P"
    and P: "poller_inv interest l (events_of n) P n"
    using assms(2) by (auto simp: loop_inv_def)
  note guards = EpollPoller_guards [OF P x(1,2)]
  have mem: "channel_map P (ch_fd c) = Some p" using poller_inv_channel [OF P assms(3,4)] assms(5) by simp
  let ?P = "if env_build env = Debug then P\<lparr>channel_map := (channel_map P)(ch_fd c := None)\<rparr> else P"
  have none: "ch_events c = 0" using assms(6) by (simp add: IsNoneEvents_def kNoneEvent_def)
  obtain k where k: "EpollPoller_RemoveChannel env p (P, n) = Inr (?P, set_channel p (c\<lparr>ch_index := kNew\<rparr>) (n\<lparr>kern := k\<rparr>))"
      "interest k (epoll_fd P) (ch_fd c) = None"
    using EpollPoller_RemoveChannel_ok [OF assms(1) P assms(3,4) x(1,2) assms(5) none] by blast
  let ?n = "set_loop l (x\<lparr>loop_poller := Some ?P\<rparr>) (set_channel p (c\<lparr>ch_index := kNew\<rparr>) (n\<lparr>kern := k\<rparr>))"
  have "EventLoop_RemoveChannel env l p n = Inr ?n"
    unfolding EventLoop_RemoveChannel_def with_poller_def using x k(1) assms(3,4)
    by (simp add: assert_owner_def EventLoop_AssertInLoopThread_def IsInLoopThread_def store_poller_def net_simps)
  moreover have "watched interest l ?n p = 0"
    using k(2) by (simp add: watched_def net_simps)
  moreover have "EventLoop_HaveChannel env l p ?n = Inr (env_build env = Release)"
    using x assms(3,4) mem guards(1)
    by (cases "env_build env")
      (simp_all add: EventLoop_HaveChannel_def with_poller_def assert_owner_def EventLoop_AssertInLoopThread_def
        IsInLoopThread_def Poller_HaveChannel_def Poller_AssertInLoopThread_def net_simps)
  ultimately show ?thesis by blast
qed

definition model_registered :: "(int \<Rightarrow> int \<rightharpoonup> cint \<times> addr) net" where
  "model_registered = \<lparr>channels = [1 \<mapsto> (Channel_new 9 5)\<lparr>ch_index := kDel, add_to_loop := True\<rparr>],
     loops = [9 \<mapsto> \<lparr>looping = False, quit = False, thread_id = 100,
        loop_poller = Some \<lparr>poller_loop = 9, channel_map = [5 \<mapsto> 1], epoll_fd = 3,
          event_list = replicate kInitEventListSize (0, 0)\<rparr>\<rparr>],
     loop_in_thread = [100 \<mapsto> 9], kern = (\<lambda>_. Map.empty)\<rparr>"

lemma model_registered_inv: "loop_inv (model_env b) (\<lambda>k. k) 9 model_registered"
  by (auto simp: loop_inv_def poller_inv_def model_registered_def model_env_def Channel_new_def events_of_def
      watch_entry_def index_values split: if_splits)

theorem RemoveChannel_forgets_iff_witness:
  "\<exists>n'. EventLoop_RemoveChannel (model_env Release) 9 1 model_registered = Inr n'
     \<and> EventLoop_HaveChannel (model_env Release) 9 1 n' = Inr True"
  using RemoveChannel_forgets_iff [OF model_documented [of Release] model_registered_inv,
      of 1 "(Channel_new 9 5)\<lparr>ch_index := kDel, add_to_loop := True\<rparr>"]
  by (auto simp: model_registered_def model_env_def Channel_new_def index_values IsNoneEvents_def kNoneEvent_def)

text \<open>
  In a Debug build \<open>Channel::Remove\<close> never returns, in any state: it asserts that the
  channel still has events, and the poller it calls asserts that it has none.
\<close>

theorem Channel_Remove_never_returns:
  assumes "env_build env = Debug"
  shows "\<nexists>n'. Channel_Remove env p n = Inr n'"
proof
  assume "\<exists>n'. Channel_Remove env p n = Inr n'"
  then obtain c P n' where "\<not> IsNoneEvents c"
    "EpollPoller_RemoveChannel env p (P, set_channel p (c\<lparr>add_to_loop := False\<rparr>) n) = Inr n'"
    using assms
    by (auto simp: Channel_Remove_def EventLoop_RemoveChannel_def with_poller_def result_simps split: option.splits)
  then show False
    using assms by (auto simp: EpollPoller_RemoveChannel_def result_simps net_simps IsNoneEvents_def Let_def)
qed

theorem Channel_Remove_never_returns_witness:
  "\<nexists>n'. Channel_Remove (model_env Debug) 1 model_registered = Inr n'"
  by (rule Channel_Remove_never_returns) (simp add: model_env_def)

subsection \<open>Loops and threads\<close>

lemma log_fate_LOG_FATAL: "log_fate lvl LOG_FATAL = Inl Process_aborted"
  by (simp add: log_fate_def)

text \<open>
  Registration from a thread that is not the loop's own ends the process before the poller
  is touched, whatever the build and the log level.
\<close>

theorem wrong_thread_aborts:
  assumes "channels n p = Some c" and "loops n (ch_loop c) = Some x" and "thread_id x \<noteq> env_tid env"
  shows "channel_call env e p n = Inl Process_aborted
    \<and> EventLoop_RemoveChannel env (ch_loop c) p n = Inl Process_aborted
    \<and> EventLoop_HaveChannel env (ch_loop c) p n = Inl Process_aborted"
  using assms
  by (simp add: channel_call_change change_events_def Channel_Update_def EventLoop_UpdateChannel_def
      EventLoop_RemoveChannel_def EventLoop_HaveChannel_def with_poller_def assert_owner_def
      EventLoop_AssertInLoopThread_def IsInLoopThread_def AbortNotInLoopThread_def log_fate_LOG_FATAL net_simps)

theorem wrong_thread_aborts_witness:
  "channel_call ((model_env Release)\<lparr>env_tid := 7\<rparr>) Enable_reading 1 model_net = Inl Process_aborted"
  using wrong_thread_aborts [of model_net 1 "Channel_new 9 5" _ "(model_env Release)\<lparr>env_tid := 7\<rparr>" Enable_reading]
  by (simp add: model_net_def Channel_new_def model_env_def)

text \<open>
  The constructor never creates a poller, so in the loop's own thread every change of events
  and every query of a channel follows a null pointer; a Debug build cannot even destroy a
  channel of the loop.
\<close>

theorem new_loop_has_no_poller:
  assumes "EventLoop_new env l n = Inr n1" and "channels n1 p = Some c" and "ch_loop c = l"
  shows "channel_call env e p n1 = Inl Undefined_behaviour
    \<and> EventLoop_HaveChannel env l p n1 = Inl Undefined_behaviour
    \<and> (env_build env = Debug \<and> \<not> event_handing c \<and> \<not> add_to_loop c
        \<longrightarrow> Channel_destroy env p n1 = Inl Undefined_behaviour)"
proof -
  obtain x where "loops n1 l = Some x" "thread_id x = env_tid env" "loop_poller x = None"
    using assms(1) by (auto simp: EventLoop_new_def Let_def net_simps result_simps split: option.splits)
  with assms show ?thesis
    by (simp add: channel_call_change change_events_def Channel_Update_def EventLoop_UpdateChannel_def
      EventLoop_HaveChannel_def with_poller_def assert_owner_def Channel_destroy_def
      EventLoop_AssertInLoopThread_def IsInLoopThread_def net_simps)
qed

theorem new_loop_has_no_poller_witness:
  "\<exists>n1. EventLoop_new (model_env Debug) 9 model_no_loop = Inr n1
     \<and> channel_call (model_env Debug) Enable_reading 1 n1 = Inl Undefined_behaviour
     \<and> Channel_destroy (model_env Debug) 1 n1 = Inl Undefined_behaviour"
proof -
  obtain n1 where n1: "EventLoop_new (model_env Debug) 9 model_no_loop = Inr n1"
      "channels n1 1 = Some (Channel_new 9 5)"
    by (auto simp: EventLoop_new_def model_no_loop_def model_net_def net_simps Let_def)
  then show ?thesis
    using new_loop_has_no_poller [OF n1, of Enable_reading] by (simp add: Channel_new_def model_env_def del: channel_call.simps)
qed

text \<open>
  C3: Registration, in the code as it is and with the poller it lacks. A loop is constructed and
  channels are constructed for it. As the code stands every EnableReading, DisableReading,
  EnableWriting, DisableWriting and DisableAll then follows the null pointer \<open>poller_\<close>, which nothing
  sets. If the constructor also stored a fresh \<open>EpollPoller\<close>, then whatever sequence of these calls the
  channels run in the loop's thread, in a Debug or a Release build, no assertion would fail and no call
  to \<open>epoll_ctl\<close> be rejected, and afterwards the kernel would watch every channel of the loop for exactly
  the events the calls ask for, in their order.
\<close>

theorem registration_in_step:
  assumes "epoll_documented env interest" and "EventLoop_new env l n0 = Inr n1" and "made_channels l cs"
    and "n = n1\<lparr>channels := cs\<rparr>" and "\<forall>(e, p) \<in> set ops. owned l n p"
    and "interest (kern n) fd = Map.empty" and "supply_poller env fd l n = Inr n2"
  shows "(\<forall>e p. owned l n p \<longrightarrow> channel_call env e p n = Inl Undefined_behaviour)
     \<and> (\<exists>n'. run_changes (channel_call env) ops n2 = Inr n'
       \<and> (\<forall>q. owned l n q \<longrightarrow> watched interest l n' q = final_events op_events ops (\<lambda>_. 0) q))"
proof
  have "channel_call env e p n = Inl Undefined_behaviour" if "owned l n p" for e p
    using that EventLoop_new_loop [OF assms(2)] assms(4)
    by (auto simp: owned_def channel_call_change change_events_def Channel_Update_def EventLoop_UpdateChannel_def
      with_poller_def assert_owner_def EventLoop_AssertInLoopThread_def IsInLoopThread_def net_simps split: option.splits)
  then show "\<forall>e p. owned l n p \<longrightarrow> channel_call env e p n = Inl Undefined_behaviour" by blast
next
  have give: "interest (kern n1) fd = Map.empty" "supply_poller env fd l (n1\<lparr>channels := cs\<rparr>) = Inr n2"
    using assms(4,6,7) by simp_all
  note start = supply_poller_start [where interest = interest, OF assms(2,3) give]
  have own: "owned l n2 = owned l n" using start(2) assms(4) by simp
  have "\<forall>(e, p) \<in> set ops. owned l n2 p" using assms(5) own by simp
  then obtain n' where n': "run_changes (channel_call env) ops n2 = Inr n'"
      "\<forall>q. owned l n2 q \<longrightarrow> watched interest l n' q = final_events op_events ops (events_of n2) q"
    using epoll_registry.delivered_after [of env interest l n2 ops] assms(1) start(1) by blast
  have "final_events op_events ops (events_of n2) q = final_events op_events ops (\<lambda>_. 0) q" if "owned l n q" for q
    by (rule final_events_at) (use start(3) that own in simp)
  then show "\<exists>n'. run_changes (channel_call env) ops n2 = Inr n'
      \<and> (\<forall>q. owned l n q \<longrightarrow> watched interest l n' q = final_events op_events ops (\<lambda>_. 0) q)"
    using n' own by auto
qed

theorem registration_in_step_witness:
  "channel_call (model_env Debug) Enable_reading 1 model_start = Inl Undefined_behaviour
   \<and> supply_poller (model_env Debug) 3 9 model_start = Inr model_net
   \<and> (\<exists>n'. run_changes (channel_call (model_env Debug)) [(Enable_reading, 1), (Enable_writing, 2), (Disable_all, 1)] model_net
       = Inr n' \<and> watched (\<lambda>k. k) 9 n' 1 = 0 \<and> watched (\<lambda>k. k) 9 n' 2 = EPOLLOUT)"
proof -
  let ?ops = "[(Enable_reading, 1), (Enable_writing, 2), (Disable_all, 1)]"
  have own: "owned 9 model_start 1" "owned 9 model_start 2"
    by (simp_all add: owned_def model_start_def model_net_def Channel_new_def)
  then have "\<forall>(e, p) \<in> set ?ops. owned 9 model_start p" by simp
  from registration_in_step [OF model_documented [of Debug] model_start_new model_made
      model_start_channels [symmetric] this _ model_supply] own model_supply show ?thesis
    by (auto simp: epoll_bits simp del: channel_call.simps)
qed

text \<open>Loops come and go, each in its own thread.\<close>

inductive loop_step :: "build \<Rightarrow> 'k net \<Rightarrow> 'k net \<Rightarrow> bool" for b :: build where
  loop_create: "env_build env = b \<Longrightarrow> loops n l = None \<Longrightarrow> EventLoop_new env l n = Inr n' \<Longrightarrow> loop_step b n n'"
| loop_run: "env_build env = b \<Longrightarrow> EventLoop_Loop env l n = Inr n' \<Longrightarrow> loop_step b n n'"
| loop_destroy: "env_build env = b \<Longrightarrow> loops n l = Some x \<Longrightarrow> thread_id x = env_tid env
    \<Longrightarrow> EventLoop_destroy env l n = Inr n' \<Longrightarrow> loop_step b n n'"

inductive_cases loop_stepE: "loop_step b n n'"

definition no_loops :: "'k net \<Rightarrow> bool" where
  "no_loops n \<longleftrightarrow> loops n = Map.empty \<and> loop_in_thread n = Map.empty"

definition one_per_thread :: "'k net \<Rightarrow> bool" where
  "one_per_thread n \<longleftrightarrow> (\<forall>t l. loop_in_thread n t = Some l \<longleftrightarrow> (\<exists>x. loops n l = Some x \<and> thread_id x = t))"

lemma one_per_thread_step:
  assumes inv: "one_per_thread n" and step: "loop_step b n n'"
  shows "one_per_thread n'"
  using step
proof (rule loop_stepE)
  fix env :: "'a net_env" and l
  assume free: "loops n l = None" and "EventLoop_new env l n = Inr n'"
  then have none: "loop_in_thread n (env_tid env) = None"
    and n': "loops n' = (loops n)(l \<mapsto> \<lparr>looping = False, quit = False, thread_id = env_tid env, loop_poller = None\<rparr>)"
      "loop_in_thread n' = (loop_in_thread n)(env_tid env \<mapsto> l)"
    by (auto simp: EventLoop_new_def Let_def net_simps log_fate_LOG_FATAL split: option.splits)
  have "thread_id x \<noteq> env_tid env" if "loops n k = Some x" for k x
    using inv none that unfolding one_per_thread_def by (metis option.distinct(1))
  with inv free show ?thesis by (auto simp: one_per_thread_def n')
next
  fix env :: "'a net_env" and l
  assume "EventLoop_Loop env l n = Inr n'"
  then obtain x where "loops n l = Some x" "n' = set_loop l (x\<lparr>quit := False, looping := False\<rparr>) n"
    by (auto simp: EventLoop_Loop_def get_loop_def Let_def result_simps set_loop_def split: option.splits)
  then show ?thesis using inv by (auto simp: one_per_thread_def net_simps)
next
  fix env :: "'a net_env" and l x
  assume x: "loops n l = Some x" "thread_id x = env_tid env" and "EventLoop_destroy env l n = Inr n'"
  then have n': "loops n' = (loops n)(l := None)" "loop_in_thread n' = (loop_in_thread n)(env_tid env := None)"
    by (auto simp: EventLoop_destroy_def net_simps result_simps)
  have "loop_in_thread n t = Some l \<longleftrightarrow> t = env_tid env" for t
    using inv x by (auto simp: one_per_thread_def)
  moreover have "k = l" if "loops n k = Some y" "thread_id y = env_tid env" for k y
    using inv x that unfolding one_per_thread_def by (metis option.inject)
  ultimately show ?thesis using inv by (auto simp: one_per_thread_def n') 
qed

interpretation loop_threads: invariant_system no_loops "loop_step b" one_per_thread for b
proof
  show "one_per_thread n" if "no_loops n" for n :: "'a net"
    using that by (simp add: no_loops_def one_per_thread_def)
qed (rule one_per_thread_step)

text \<open>
  C38: While loops are created, run and destroyed by their own threads, there is never more than
  one loop in a thread, and GetEventLoopCurrentThread answers that loop; a second one
  constructed in the same thread ends the process.
\<close>

theorem one_loop_per_thread:
  assumes "reach no_loops (loop_step b) n" and "loops n l = Some x"
  shows "GetEventLoopCurrentThread (env\<lparr>env_tid := thread_id x\<rparr>) n = Some l
    \<and> EventLoop_new (env\<lparr>env_tid := thread_id x\<rparr>) l' n = Inl Process_aborted
    \<and> (loops n l' = Some x' \<and> thread_id x = thread_id x' \<longrightarrow> l = l')"
proof -
  have inv: "one_per_thread n" using assms(1) by (rule loop_threads.reach_inv)
  then have "loop_in_thread n (thread_id x) = Some l" using assms(2) by (auto simp: one_per_thread_def)
  moreover have "l = l'" if "loops n l' = Some x'" "thread_id x = thread_id x'"
    using inv assms(2) that unfolding one_per_thread_def by (metis option.inject)
  ultimately show ?thesis
    by (auto simp: EventLoop_new_def GetEventLoopCurrentThread_def log_fate_LOG_FATAL Let_def)
qed

theorem one_loop_per_thread_witness:
  "\<exists>n1. reach no_loops (loop_step Debug) n1
     \<and> EventLoop_new ((model_env Debug)\<lparr>env_tid := 100\<rparr>) 8 n1 = Inl Process_aborted"
proof -
  obtain n1 x where n1: "EventLoop_new (model_env Debug) 9 model_no_loop = Inr n1" "loops n1 9 = Some x"
      "thread_id x = 100"
    by (auto simp: EventLoop_new_def model_no_loop_def model_env_def net_simps Let_def)
  have "loop_step Debug model_no_loop n1"
    by (rule loop_create [OF _ _ n1(1)]) (simp_all add: model_env_def model_no_loop_def)
  moreover have "no_loops model_no_loop" by (simp add: no_loops_def model_no_loop_def)
  ultimately have "reach no_loops (loop_step Debug) n1" by (blast intro: reach_step reach_init)
  then show ?thesis
    using one_loop_per_thread [of Debug n1 9 x "model_env Debug" 8 x] n1 by auto
qed

subsection \<open>Polling\<close>

text \<open>The store after the events of a poll are recorded: a later event of a channel overwrites an earlier one.\<close>

fun record_events :: "(cint \<times> addr) list \<Rightarrow> (addr \<rightharpoonup> Channel) \<Rightarrow> (addr \<rightharpoonup> Channel)" where
  "record_events [] cs = cs"
| "record_events ((ev, p) # evs) cs =
     record_events evs (cs(p := map_option (\<lambda>c. c\<lparr>ch_revents := ev\<rparr>) (cs p)))"

lemma record_events_other: "p \<notin> snd ` set evs \<Longrightarrow> record_events evs cs p = cs p"
  by (induction evs cs rule: record_events.induct) auto

lemma record_events_hit:
  "distinct (map snd evs) \<Longrightarrow> (ev, p) \<in> set evs \<Longrightarrow> record_events evs cs p = map_option (\<lambda>c. c\<lparr>ch_revents := ev\<rparr>) (cs p)"
  by (induction evs cs rule: record_events.induct) (auto simp: record_events_other image_iff)

lemma set_all_revents_ok:
  "\<forall>(ev, p) \<in> set evs. channels n p \<noteq> None \<Longrightarrow> set_all_revents evs n = Inr (n\<lparr>channels := record_events evs (channels n)\<rparr>)"
proof (induction evs n rule: set_all_revents.induct)
  case (2 ev p evs n)
  then obtain c where c: "channels n p = Some c" by auto
  have "\<forall>(ev', q) \<in> set evs. channels (set_channel p (SetRevents ev c) n) q \<noteq> None"
    using "2.prems" by (auto simp: net_simps)
  from "2.IH" [OF this] c show ?case by (simp add: net_simps set_channel_def fun_upd_def)
qed simp

lemma Poll_spec:
  assumes "evs \<noteq> []" and "length evs \<le> length (event_list P)" and "distinct (map snd evs)"
    and "\<forall>(ev, p) \<in> set evs. channels n p \<noteq> None"
  shows "if env_build env = Debug \<and> length evs = length (event_list P)
     then EpollPoller_Poll env clock (Wait_events evs) active (P, n) = Inl Assertion_failed
     else \<exists>P' n'. EpollPoller_Poll env clock (Wait_events evs) active (P, n) = Inr (Timestamp_Now clock, active @ map snd evs, P', n')
       \<and> length (event_list P') = (if length evs = length (event_list P) then 2 else 1) * length (event_list P)
       \<and> channel_map P' = channel_map P
       \<and> (\<forall>(ev, p) \<in> set evs. channels n' p = map_option (\<lambda>c. c\<lparr>ch_revents := ev\<rparr>) (channels n p))
       \<and> (\<forall>q. q \<notin> snd ` set evs \<longrightarrow> channels n' q = channels n q)"
proof -
  let ?m = "poke 0 evs (event_list P)" and ?n = "n\<lparr>channels := record_events evs (channels n)\<rparr>"
  have len: "length ?m = length (event_list P)" using assms(2) by (simp add: memory_simps poke_def)
  have seg: "segment ?m 0 (length evs) = evs" by (simp add: segment_def poke_def)
  have fill: "FillActiveChannels env (length evs) (P\<lparr>event_list := ?m\<rparr>) active n
      = (if env_build env = Debug \<and> length evs = length (event_list P) then Inl Assertion_failed
         else Inr (active @ map snd evs, ?n))"
    using assms(2,4) by (auto simp: FillActiveChannels_def len seg set_all_revents_ok assertR_def)
  have hit: "\<forall>(ev, p) \<in> set evs. channels ?n p = map_option (\<lambda>c. c\<lparr>ch_revents := ev\<rparr>) (channels n p)"
    using assms(3) by (auto simp: record_events_hit)
  have miss: "\<forall>q. q \<notin> snd ` set evs \<longrightarrow> channels ?n q = channels n q"
    by (simp add: record_events_other)
  show ?thesis
    using assms(1,2) fill hit miss by (auto simp: EpollPoller_Poll_def Let_def len)
qed

text \<open>
  C27: When epoll_wait reports events for live channels, Poll answers the time of the report, appends those channels in the order
  of the report, records the reported events in them and nowhere else, and doubles the event
  list exactly when it was full -- except that a Debug build stops at an assertion in that case,
  since it demands strictly fewer events than the list has room for.
\<close>

theorem Poll_reports:
  assumes "evs \<noteq> []" and "length evs \<le> length (event_list P)" and "distinct (map snd evs)"
    and "\<forall>(ev, p) \<in> set evs. channels n p \<noteq> None"
  shows "if env_build env = Debug \<and> length evs = length (event_list P)
     then EpollPoller_Poll env clock (Wait_events evs) active (P, n) = Inl Assertion_failed
     else \<exists>P' n'. EpollPoller_Poll env clock (Wait_events evs) active (P, n) = Inr (Timestamp_Now clock, active @ map snd evs, P', n')
       \<and> length (event_list P') = (if length evs = length (event_list P) then 2 else 1) * length (event_list P)
       \<and> channel_map P' = channel_map P
       \<and> (\<forall>(ev, p) \<in> set evs. channels n' p = map_option (\<lambda>c. c\<lparr>ch_revents := ev\<rparr>) (channels n p))
       \<and> (\<forall>q. q \<notin> snd ` set evs \<longrightarrow> channels n' q = channels n q)"
  by (rule Poll_spec [OF assms])

definition two_slots :: EpollPoller where
  "two_slots = \<lparr>poller_loop = 9, channel_map = Map.empty, epoll_fd = 3, event_list = replicate 2 (0, 0)\<rparr>"

theorem Poll_reports_witness:
  "(\<exists>P' n'. EpollPoller_Poll (model_env Release) 70 (Wait_events [(1, 2), (4, 1)]) [] (two_slots, model_net) = Inr (Timestamp 70, [2, 1], P', n')
     \<and> length (event_list P') = 4)
   \<and> EpollPoller_Poll (model_env Debug) 70 (Wait_events [(1, 2), (4, 1)]) [] (two_slots, model_net) = Inl Assertion_failed"
  using Poll_reports [of "[(1, 2), (4, 1)]" two_slots model_net "model_env Release" 70 "[]"]
    Poll_reports [of "[(1, 2), (4, 1)]" two_slots model_net "model_env Debug" 70 "[]"]
  by (auto simp: Timestamp_Now_def two_slots_def model_net_def model_env_def)

text \<open>
  When there is nothing to report, after the time limit or an interruption, Poll changes nothing;
  any other failure of \<open>epoll_wait\<close> ends the process.
\<close>

lemma Poll_without_events:
  "EpollPoller_Poll env clock (Wait_events []) active (P, n) = Inr (Timestamp_Now clock, active, P, n)"
  "EpollPoller_Poll env clock (Wait_failed EINTR) active (P, n) = Inr (Timestamp_Now clock, active, P, n)"
  "errno_info \<noteq> EINTR \<Longrightarrow> EpollPoller_Poll env clock (Wait_failed errno_info) active (P, n) = Inl Process_aborted"
  by (simp_all add: EpollPoller_Poll_def log_fate_def)

subsection \<open>Dispatch\<close>

text \<open>The callbacks due for a channel, in the order of the source.\<close>

definition due_callbacks :: "Timestamp \<Rightarrow> Channel \<Rightarrow> (callback \<times> nat) list" where
  "due_callbacks t c =
     (let r = ch_revents c;
          due = (\<lambda>test cb kind. if test then (case cb of None \<Rightarrow> [] | Some f \<Rightarrow> [(kind, f)]) else [])
      in due (r AND EPOLLIN \<noteq> 0 \<or> r AND EPOLLPRI \<noteq> 0 \<or> r AND EPOLLRDHUP \<noteq> 0) (read_call_back c) (Read_event t)
         @ due (r AND EPOLLOUT \<noteq> 0) (write_call_back c) Write_event
         @ due (r AND EPOLLHUP \<noteq> 0 \<and> r AND EPOLLIN = 0) (close_call_back c) Close_event
         @ due (r AND EPOLLERR \<noteq> 0) (error_call_back c) Error_event)"

fun run_callbacks :: "(callback \<Rightarrow> nat \<Rightarrow> 'k net \<Rightarrow> 'k net result) \<Rightarrow> (callback \<times> nat) list \<Rightarrow> 'k net \<Rightarrow> 'k net result" where
  "run_callbacks call [] n = Inr n"
| "run_callbacks call ((kind, f) # fs) n = bindR (call kind f n) (run_callbacks call fs)"

lemma run_callbacks_append:
  "run_callbacks call (fs @ gs) n = bindR (run_callbacks call fs n) (run_callbacks call gs)"
proof (induction call fs n rule: run_callbacks.induct)
  case (2 call kind f fs n)
  then show ?case by (cases "call kind f n") simp_all
qed simp

text \<open>
  What a dispatch reads of its channel: the received events and the four callbacks. A callback is free
  to change everything else of the store, the events its channel asks for and its index included.
\<close>

definition same_dispatch :: "Channel \<Rightarrow> Channel \<Rightarrow> bool" where
  "same_dispatch c d \<longleftrightarrow> ch_revents d = ch_revents c \<and> read_call_back d = read_call_back c
     \<and> write_call_back d = write_call_back c \<and> close_call_back d = close_call_back c
     \<and> error_call_back d = error_call_back c"

definition keeps_dispatch :: "(callback \<Rightarrow> nat \<Rightarrow> 'k net \<Rightarrow> 'k net result) \<Rightarrow> addr \<Rightarrow> bool" where
  "keeps_dispatch call p \<longleftrightarrow> (\<forall>kind f m m' c. channels m p = Some c \<and> call kind f m = Inr m'
     \<longrightarrow> (\<exists>d. channels m' p = Some d \<and> same_dispatch c d))"

lemma run_callbacks_keeps:
  assumes "keeps_dispatch call p"
  shows "channels n p = Some c \<Longrightarrow> run_callbacks call fs n = Inr n' \<Longrightarrow> \<exists>d. channels n' p = Some d \<and> same_dispatch c d"
proof (induction fs arbitrary: n c)
  case (Cons kf fs)
  obtain kind f m where m: "kf = (kind, f)" "call kind f n = Inr m" "run_callbacks call fs m = Inr n'"
    using Cons.prems(2) by (cases kf) (auto simp: result_simps)
  then obtain d where "channels m p = Some d" "same_dispatch c d"
    using assms Cons.prems(1) unfolding keeps_dispatch_def by blast
  with Cons.IH [of m d] m(3) show ?case by (auto simp: same_dispatch_def)
qed (simp add: same_dispatch_def)

lemma fire_due:
  "channels n p = Some c \<Longrightarrow> fire p test cb kind call n
     = run_callbacks call (if test (ch_revents c) then (case cb c of None \<Rightarrow> [] | Some f \<Rightarrow> [(kind, f)]) else []) n"
  by (auto simp: fire_def net_simps bindR_Inr_right run_callbacks.simps(1) [abs_def] split: option.split)

text \<open>
  C28: HandleEvent runs exactly the callbacks the received events call for, in the order read,
  write, close, error (a hang-up closes only when nothing is left to read), with the handling
  flag set before and reset at the end, and a fault of a callback is the fault of the dispatch. This
  holds for callbacks that leave the channel in existence with its received events and its four
  callbacks; they may do anything else, for example disable writing on the channel.
\<close>

theorem HandleEvent_dispatch:
  assumes "channels n p = Some c" and "keeps_dispatch call p"
  shows "HandleEvent call p t n =
     bindR (run_callbacks call (due_callbacks t c) (set_channel p (c\<lparr>event_handing := True\<rparr>) n))
       (set_event_handing p False)"
proof -
  let ?c = "c\<lparr>event_handing := True\<rparr>" and ?n = "set_channel p (c\<lparr>event_handing := True\<rparr>) n"
  have start: "channels ?n p = Some ?c" by (simp add: net_simps)
  have seq: "bindR (run_callbacks call fs m) (\<lambda>m'. bindR (fire p test cb kind call m') g)
      = bindR (run_callbacks call (fs @ (if test (ch_revents c) then (case cb ?c of None \<Rightarrow> [] | Some f \<Rightarrow> [(kind, f)]) else [])) m) g"
    if "channels m p = Some ?c" and cb: "\<And>d. same_dispatch ?c d \<Longrightarrow> cb d = cb ?c"
    for fs m test cb kind and g :: "'a net \<Rightarrow> 'a net result"
  proof (cases "run_callbacks call fs m")
    case (Inr m')
    with run_callbacks_keeps [OF assms(2) that(1)] obtain d where d: "channels m' p = Some d" "same_dispatch ?c d" by blast
    have "ch_revents d = ch_revents c" using d(2) by (simp add: same_dispatch_def)
    with fire_due [OF d(1)] cb [OF d(2)] show ?thesis by (simp add: run_callbacks_append Inr)
  qed (simp add: run_callbacks_append)
  have bits: "r AND (EPOLLIN OR EPOLLPRI OR EPOLLRDHUP) \<noteq> 0
      \<longleftrightarrow> r AND EPOLLIN \<noteq> 0 \<or> r AND EPOLLPRI \<noteq> 0 \<or> r AND EPOLLRDHUP \<noteq> 0" for r
    by (simp add: bit.conj_disj_distrib or_eq_0_iff)
  have cbs: "same_dispatch ?c d \<Longrightarrow> read_call_back d = read_call_back ?c"
    "same_dispatch ?c d \<Longrightarrow> write_call_back d = write_call_back ?c"
    "same_dispatch ?c d \<Longrightarrow> close_call_back d = close_call_back ?c"
    "same_dispatch ?c d \<Longrightarrow> error_call_back d = error_call_back ?c" for d
    by (simp_all add: same_dispatch_def)
  have "HandleEvent call p t n = bindR (run_callbacks call [] ?n) (\<lambda>n1.
     bindR (fire p (\<lambda>r. r AND (EPOLLIN OR EPOLLPRI OR EPOLLRDHUP) \<noteq> 0) read_call_back (Read_event t) call n1) (\<lambda>n2.
     bindR (fire p (\<lambda>r. r AND EPOLLOUT \<noteq> 0) write_call_back Write_event call n2) (\<lambda>n3.
     bindR (fire p (\<lambda>r. r AND EPOLLHUP \<noteq> 0 \<and> \<not> (r AND EPOLLIN \<noteq> 0)) close_call_back Close_event call n3) (\<lambda>n4.
     bindR (fire p (\<lambda>r. r AND EPOLLERR \<noteq> 0) error_call_back Error_event call n4) (set_event_handing p False)))))"
    using assms(1) by (simp add: HandleEvent_def set_event_handing_def [abs_def] net_simps)
  also have "\<dots> = bindR (run_callbacks call (due_callbacks t c) ?n) (set_event_handing p False)"
    by (simp only: seq [where cb = read_call_back, OF start cbs(1)] seq [where cb = write_call_back, OF start cbs(2)]
        seq [where cb = close_call_back, OF start cbs(3)] seq [where cb = error_call_back, OF start cbs(4)]
        append_Nil append_assoc due_callbacks_def Let_def bits not_not) simp
  finally show ?thesis .
qed

text \<open>
  A dispatch that records what it runs, on a channel that is readable, writable and hung up. The
  callbacks are not idle: each takes the write events off the list its channel asks for.
\<close>

definition trace_call :: "callback \<Rightarrow> nat \<Rightarrow> (callback \<times> nat) list net \<Rightarrow> (callback \<times> nat) list net result" where
  "trace_call kind f n = Inr (n\<lparr>kern := kern n @ [(kind, f)],
     channels := map_option (\<lambda>c. c\<lparr>ch_events := ch_events c AND NOT kWriteEvent\<rparr>) \<circ> channels n\<rparr>)"

definition busy_channel :: Channel where
  "busy_channel = SetReadCallBack (Some 7) (SetWriteCallBack (Some 8) (SetCloseCallBack (Some 9)
     ((Channel_new 9 5)\<lparr>ch_events := 7, ch_revents := 0x15\<rparr>)))"

theorem HandleEvent_dispatch_witness:
  "map_sum (\<lambda>e. e) (\<lambda>n. (kern n, map_option ch_events (channels n 1))) (HandleEvent trace_call 1 (Timestamp 5)
      \<lparr>channels = [1 \<mapsto> busy_channel], loops = Map.empty, loop_in_thread = Map.empty, kern = []\<rparr>)
    = Inr ([(Read_event (Timestamp 5), 7), (Write_event, 8)], Some 3)"
proof -
  let ?n = "\<lparr>channels = [1 \<mapsto> busy_channel], loops = Map.empty, loop_in_thread = Map.empty, kern = []\<rparr>"
  have "keeps_dispatch trace_call 1" by (auto simp: keeps_dispatch_def trace_call_def same_dispatch_def)
  then have "HandleEvent trace_call 1 (Timestamp 5) ?n =
     bindR (run_callbacks trace_call (due_callbacks (Timestamp 5) busy_channel)
        (set_channel 1 (busy_channel\<lparr>event_handing := True\<rparr>) ?n)) (set_event_handing 1 False)"
    by (intro HandleEvent_dispatch) simp_all
  moreover have "due_callbacks (Timestamp 5) busy_channel = [(Read_event (Timestamp 5), 7), (Write_event, 8)]"
    by (simp add: due_callbacks_def busy_channel_def SetReadCallBack_def SetWriteCallBack_def SetCloseCallBack_def
        Channel_new_def epoll_bits Let_def)
  moreover have "ch_events busy_channel = 7"
    by (simp add: busy_channel_def SetReadCallBack_def SetWriteCallBack_def SetCloseCallBack_def)
  ultimately show ?thesis
    by (simp add: trace_call_def set_channel_def set_event_handing_def get_channel_def epoll_bits)
qed

lemma channel_after:
  assumes "epoll_documented env interest" and "loop_inv env interest l n" and "owned l n p"
  shows "\<exists>n' c. run_changes (channel_call env) [(Disable_all, p), (e, p)] n = Inr n'
     \<and> channels n' p = Some c \<and> ch_events c = op_events e kNoneEvent"
proof -
  obtain n' where n': "run_changes (channel_call env) [(Disable_all, p), (e, p)] n = Inr n'"
      "owned l n' = owned l n" "events_of n' = final_events op_events [(Disable_all, p), (e, p)] (events_of n)"
    using epoll_registry.run_changes_ok [of env interest l n "[(Disable_all, p), (e, p)]"] assms by auto
  have "owned l n' p" using assms(3) n'(2) by simp
  then obtain c where "channels n' p = Some c" by (auto simp: owned_def split: option.splits)
  moreover have "events_of n' p = op_events e kNoneEvent" using n'(3) by simp
  ultimately show ?thesis using n'(1) by (auto simp: events_of_def)
qed

text \<open>
  The two queries are exchanged: a channel that asked for read events only answers yes to
  IsWriting and no to IsReading, and one that asked for write events only the other way round.
\<close>

theorem IsReading_IsWriting_exchanged:
  assumes "epoll_documented env interest" and "loop_inv env interest l n" and "owned l n p"
  shows "\<exists>n1 n2 c1 c2. run_changes (channel_call env) [(Disable_all, p), (Enable_reading, p)] n = Inr n1
     \<and> channels n1 p = Some c1 \<and> IsWriting c1 \<and> \<not> IsReading c1
     \<and> run_changes (channel_call env) [(Disable_all, p), (Enable_writing, p)] n = Inr n2
     \<and> channels n2 p = Some c2 \<and> \<not> IsWriting c2 \<and> IsReading c2"
proof -
  obtain n1 c1 where "run_changes (channel_call env) [(Disable_all, p), (Enable_reading, p)] n = Inr n1"
      "channels n1 p = Some c1" "ch_events c1 = kReadEvent"
    using channel_after [OF assms, of Enable_reading] by (auto simp: kNoneEvent_def)
  moreover obtain n2 c2 where "run_changes (channel_call env) [(Disable_all, p), (Enable_writing, p)] n = Inr n2"
      "channels n2 p = Some c2" "ch_events c2 = kWriteEvent"
    using channel_after [OF assms, of Enable_writing] by (auto simp: kNoneEvent_def)
  ultimately show ?thesis by (simp add: IsReading_def IsWriting_def epoll_bits)
qed

theorem IsReading_IsWriting_exchanged_witness:
  "\<exists>n1 c1. run_changes (channel_call (model_env Release)) [(Disable_all, 1), (Enable_reading, 1)] model_net = Inr n1
     \<and> channels n1 1 = Some c1 \<and> \<not> IsReading c1"
  using IsReading_IsWriting_exchanged [OF model_documented [of Release] model_net_inv model_net_owned(1)] by blast

end
