(* ===== verification/Net_Reactor.thy ===== *)
theory Net_Reactor
  imports Net_Poller
begin

section \<open>net: from a registration to its callbacks\<close>

text \<open>
  The parts of \<open>net\<close> put together: channels ask for events (\<open>src/net/channel.cpp\<close>), the poller
  registers them (\<open>src/net/epoll_poller.cpp\<close>), \<open>epoll_wait\<close> reports some, \<open>Poll\<close> hands the channels
  over and \<open>HandleEvent\<close> runs their callbacks. What \<open>epoll_wait\<close> may report is its documentation.
\<close>

text \<open>
  \<open>epoll_wait(2)\<close>: an entry is for a descriptor of the interest list, carries the data registered with
  it, and has no events but the registered ones, \<open>EPOLLERR\<close> and \<open>EPOLLHUP\<close>; there is one entry for a
  descriptor, and no more entries than there is room for.
\<close>

definition reported_as :: "(int \<rightharpoonup> cint \<times> addr) \<Rightarrow> int \<Rightarrow> cint \<times> addr \<Rightarrow> bool" where
  "reported_as registered fd entry \<longleftrightarrow>
     (case registered fd of
        None \<Rightarrow> False
      | Some (ev, p) \<Rightarrow> snd entry = p \<and> fst entry AND NOT (ev OR EPOLLERR OR EPOLLHUP) = 0)"

definition wait_documented :: "(int \<rightharpoonup> cint \<times> addr) \<Rightarrow> nat \<Rightarrow> (cint \<times> addr) list \<Rightarrow> bool" where
  "wait_documented registered max_events evs \<longleftrightarrow>
     length evs \<le> max_events \<and> (\<exists>fds. distinct fds \<and> list_all2 (reported_as registered) fds evs)"

subsection \<open>What a loop has registered\<close>

lemma registered_channel:
  assumes P: "poller_inv interest l (events_of n) P n" and reg: "interest (kern n) (epoll_fd P) fd = Some (ev, p)"
  shows "\<exists>c. channels n p = Some c \<and> ch_loop c = l \<and> ch_fd c = fd \<and> ev = ch_events c"
proof -
  obtain q where q: "channel_map P fd = Some q" "watch_entry (events_of n) (channels n) q = Some (ev, p)"
    using poller_inv_interest [OF P, of fd] reg by (cases "channel_map P fd") auto
  obtain c where c: "channels n q = Some c" "ch_fd c = fd" "ch_loop c = l"
    by (rule poller_inv_map [OF P q(1)])
  then show ?thesis using q(2) by (auto simp: watch_entry_def events_of_def split: if_splits)
qed

lemma reported_channels:
  assumes P: "poller_inv interest l (events_of n) P n"
    and wait: "wait_documented (interest (kern n) (epoll_fd P)) max_events evs"
  shows "distinct (map snd evs)"
    and "\<forall>(r, p) \<in> set evs. \<exists>c. channels n p = Some c \<and> ch_loop c = l \<and> r AND NOT (ch_events c OR EPOLLERR OR EPOLLHUP) = 0"
proof -
  obtain fds where fds: "distinct fds" "list_all2 (reported_as (interest (kern n) (epoll_fd P))) fds evs"
    using wait by (auto simp: wait_documented_def)
  have entry: "\<exists>c. channels n (snd e) = Some c \<and> ch_loop c = l \<and> ch_fd c = fd \<and> fst e AND NOT (ch_events c OR EPOLLERR OR EPOLLHUP) = 0"
    if rep: "reported_as (interest (kern n) (epoll_fd P)) fd e" for fd e
  proof -
    from rep obtain ev where ev: "interest (kern n) (epoll_fd P) fd = Some (ev, snd e)" "fst e AND NOT (ev OR EPOLLERR OR EPOLLHUP) = 0"
      by (auto simp: reported_as_def split: option.splits)
    then show ?thesis using registered_channel [OF P ev(1)] by auto
  qed
  from fds(2) have "\<forall>e \<in> set evs. \<exists>fd. reported_as (interest (kern n) (epoll_fd P)) fd e"
    by (metis in_set_conv_nth list_all2_conv_all_nth)
  then show "\<forall>(r, p) \<in> set evs. \<exists>c. channels n p = Some c \<and> ch_loop c = l \<and> r AND NOT (ch_events c OR EPOLLERR OR EPOLLHUP) = 0"
    using entry by fastforce
  show "distinct (map snd evs)"
    unfolding distinct_conv_nth
  proof (intro allI impI)
    fix i j
    assume ij: "i < length (map snd evs)" "j < length (map snd evs)" "i \<noteq> j"
    then have len: "i < length fds" "j < length fds" using fds(2) by (auto simp: list_all2_lengthD)
    then have "fds ! i \<noteq> fds ! j" using fds(1) ij(3) by (simp add: nth_eq_iff_index_eq)
    moreover have "\<exists>c. channels n (snd (evs ! k)) = Some c \<and> ch_fd c = fds ! k" if "k < length fds" for k
      using entry list_all2_nthD [OF fds(2) that] by blast
    ultimately show "map snd evs ! i \<noteq> map snd evs ! j" using len ij by (metis length_map nth_map option.inject)
  qed
qed

subsection \<open>Events a channel can ask for\<close>

definition asked_for :: "callback \<Rightarrow> cint \<Rightarrow> bool" where
  "asked_for kind ev = (case kind of
     Read_event t \<Rightarrow> ev AND kReadEvent \<noteq> 0
   | Write_event \<Rightarrow> ev AND kWriteEvent \<noteq> 0
   | _ \<Rightarrow> True)"

definition plain_events :: "cint \<Rightarrow> bool" where
  "plain_events ev \<longleftrightarrow> ev AND NOT (kReadEvent OR kWriteEvent) = 0"

lemma subset_mask: "r AND NOT m = 0 \<Longrightarrow> r AND x = r AND (m AND x)" for r m x :: cint
  by (metis (no_types, opaque_lifting) and.assoc and.right_neutral bit.conj_disj_distrib bit.disj_cancel_right or.left_neutral or.commute)

lemma plain_op_events: "plain_events ev \<Longrightarrow> plain_events (op_events x ev)"
  by (cases x) (auto simp: plain_events_def kNoneEvent_def bit_eq_iff bit_simps)

lemma plain_final: "\<forall>p. plain_events (f p) \<Longrightarrow> plain_events (final_events op_events ops f p)"
proof (induction ops arbitrary: f)
  case (Cons xp ops)
  obtain x q where xp: "xp = (x, q)" by (cases xp)
  show ?case unfolding xp final_events.simps by (rule Cons.IH) (use Cons.prems in \<open>simp add: plain_op_events\<close>)
qed simp

lemma due_one:
  "x \<in> set (if b then (case cb of None \<Rightarrow> [] | Some f \<Rightarrow> [(k, f)]) else []) \<longleftrightarrow> b \<and> (\<exists>f. cb = Some f \<and> x = (k, f))"
  by (cases b; cases cb; simp)

lemma due_asked_for:
  assumes sub: "ch_revents c AND NOT (ch_events c OR EPOLLERR OR EPOLLHUP) = 0" and plain: "plain_events (ch_events c)"
    and due: "(kind, f) \<in> set (due_callbacks t c)"
  shows "asked_for kind (ch_events c)"
proof -
  let ?r = "ch_revents c" and ?e = "ch_events c"
  have low: "?r AND x = ?r AND (?e AND x)" if "(EPOLLERR OR EPOLLHUP) AND x = 0" for x
    using subset_mask [OF sub, of x] that by (simp add: bit.conj_disj_distrib2 or.assoc)
  have "?e AND EPOLLRDHUP = 0"
    using subset_mask [OF plain [unfolded plain_events_def], of EPOLLRDHUP] by (simp add: epoll_bits)
  then have hup: "?r AND EPOLLRDHUP = 0" using low [of EPOLLRDHUP] by (simp add: epoll_bits)
  have "?r AND EPOLLIN = ?r AND (?e AND EPOLLIN)" "?r AND EPOLLPRI = ?r AND (?e AND EPOLLPRI)"
      "?r AND EPOLLOUT = ?r AND (?e AND EPOLLOUT)"
    by (rule low; simp add: epoll_bits)+
  then have reading: "?r AND EPOLLIN \<noteq> 0 \<Longrightarrow> ?e AND EPOLLIN \<noteq> 0" "?r AND EPOLLPRI \<noteq> 0 \<Longrightarrow> ?e AND EPOLLPRI \<noteq> 0"
      and writing: "?r AND EPOLLOUT \<noteq> 0 \<Longrightarrow> ?e AND EPOLLOUT \<noteq> 0" by force+
  have "?e AND kReadEvent \<noteq> 0 \<longleftrightarrow> ?e AND EPOLLIN \<noteq> 0 \<or> ?e AND EPOLLPRI \<noteq> 0"
    by (simp add: kReadEvent_def bit.conj_disj_distrib or_eq_0_iff)
  moreover have "kind = Read_event t \<and> (?r AND EPOLLIN \<noteq> 0 \<or> ?r AND EPOLLPRI \<noteq> 0)
      \<or> kind = Write_event \<and> ?r AND EPOLLOUT \<noteq> 0 \<or> kind = Close_event \<or> kind = Error_event"
    using due hup unfolding due_callbacks_def Let_def set_append Un_iff due_one by auto
  ultimately show ?thesis using reading writing unfolding asked_for_def kWriteEvent_def by auto
qed

subsection \<open>A dispatch uses only the callbacks its events call for\<close>

text \<open>
  A callback may do anything to the store but write the received events of the channel whose
  dispatch runs it: only the poller writes those.
\<close>

definition keeps_revents :: "(callback \<Rightarrow> nat \<Rightarrow> 'k net \<Rightarrow> 'k net result) \<Rightarrow> addr \<Rightarrow> bool" where
  "keeps_revents call p \<longleftrightarrow> (\<forall>kind f m m' c d. channels m p = Some c \<and> call kind f m = Inr m'
     \<and> channels m' p = Some d \<longrightarrow> ch_revents d = ch_revents c)"

definition revents_at :: "addr \<Rightarrow> cint \<Rightarrow> 'k net \<Rightarrow> bool" where
  "revents_at p r n \<longleftrightarrow> (\<forall>c. channels n p = Some c \<longrightarrow> ch_revents c = r)"

lemma bindR_agree: "(\<And>y. x = Inr y \<Longrightarrow> f y = g y) \<Longrightarrow> bindR x f = bindR x g"
  by (cases x) simp_all

lemma fire_revents:
  assumes "keeps_revents call p" and "revents_at p r n" and "fire p test cb kind call n = Inr n'"
  shows "revents_at p r n'"
  using assms unfolding keeps_revents_def revents_at_def fire_def
  by (auto simp: result_simps get_channel_def split: option.splits if_splits)

lemma fire_agree:
  assumes "revents_at p r n" and "\<And>f. test r \<Longrightarrow> call' kind f = call kind f"
  shows "fire p test cb kind call' n = fire p test cb kind call n"
  using assms unfolding revents_at_def fire_def
  by (auto simp: get_channel_def split: option.split)

lemma fire_then_agree:
  assumes "keeps_revents call p" and "revents_at p r n" and "\<And>f. test r \<Longrightarrow> call' kind f = call kind f"
    and "\<And>n'. revents_at p r n' \<Longrightarrow> g' n' = g n'"
  shows "bindR (fire p test cb kind call' n) g' = bindR (fire p test cb kind call n) g"
  unfolding fire_agree [where test = test and call' = call' and call = call and kind = kind, OF assms(2,3), simplified]
  by (rule bindR_agree) (use fire_revents [OF assms(1,2)] assms(4) in blast)

lemma HandleEvent_agree:
  assumes keeps: "keeps_revents call p" and c: "channels n p = Some c"
    and due: "\<And>kind f d. ch_revents d = ch_revents c \<Longrightarrow> (kind, f) \<in> set (due_callbacks t d) \<Longrightarrow> call' kind = call kind"
  shows "HandleEvent call' p t n = HandleEvent call p t n"
proof -
  let ?r = "ch_revents c"
  let ?d = "c\<lparr>read_call_back := Some 0, write_call_back := Some 0, close_call_back := Some 0, error_call_back := Some 0\<rparr>"
  have agree: "call' kind = call kind" if "(kind, 0) \<in> set (due_callbacks t ?d)" for kind
    by (rule due [where d = ?d and f = 0]) (use that in simp_all)
  have bits: "?r AND (EPOLLIN OR EPOLLPRI OR EPOLLRDHUP) \<noteq> 0
      \<longleftrightarrow> ?r AND EPOLLIN \<noteq> 0 \<or> ?r AND EPOLLPRI \<noteq> 0 \<or> ?r AND EPOLLRDHUP \<noteq> 0"
    by (simp add: bit.conj_disj_distrib or_eq_0_iff)
  have "?r AND (EPOLLIN OR EPOLLPRI OR EPOLLRDHUP) \<noteq> 0 \<Longrightarrow> call' (Read_event t) = call (Read_event t)"
    "?r AND EPOLLOUT \<noteq> 0 \<Longrightarrow> call' Write_event = call Write_event"
    "?r AND EPOLLHUP \<noteq> 0 \<and> \<not> (?r AND EPOLLIN \<noteq> 0) \<Longrightarrow> call' Close_event = call Close_event"
    "?r AND EPOLLERR \<noteq> 0 \<Longrightarrow> call' Error_event = call Error_event"
    unfolding bits by (rule agree, unfold due_callbacks_def Let_def set_append Un_iff due_one, simp)+
  note on = this
  have start: "revents_at p ?r n'" if "set_event_handing p True n = Inr n'" for n'
    using that c by (auto simp: set_event_handing_def get_channel_def revents_at_def net_simps)
  show ?thesis
    unfolding HandleEvent_def
    apply (rule bindR_agree)
    apply (drule start)
    apply (erule fire_then_agree [OF keeps])
     apply (simp add: on(1))
    apply (erule fire_then_agree [OF keeps])
     apply (simp add: on(2))
    apply (erule fire_then_agree [OF keeps])
     apply (simp add: on(3))
    apply (erule fire_then_agree [OF keeps])
     apply (simp_all add: on(4))
    done
qed

subsection \<open>Properties\<close>

text \<open>
  C29: Callbacks run only for what was asked for. A loop and its channels are constructed, the loop is
  given the poller its constructor omits, the channels run any sequence of Enable and Disable calls,
  \<open>epoll_wait\<close> reports anything its documentation allows and Poll hands the channels over: then every
  channel handed over belongs to the loop, and HandleEvent uses a read callback of it only if the calls
  left reading enabled, a write callback only if they left writing enabled: any other callbacks may be
  put in the places it does not use, and it does the same. (The callbacks leave the received
  events of the channel alone.)
\<close>

theorem only_requested_callbacks:
  assumes "epoll_documented env interest" and "EventLoop_new env l n0 = Inr n1" and "made_channels l cs"
    and "\<forall>(x, p) \<in> set ops. owned l (n1\<lparr>channels := cs\<rparr>) p"
    and "interest (kern n1) fd = Map.empty" and "supply_poller env fd l (n1\<lparr>channels := cs\<rparr>) = Inr n2"
    and "run_changes (channel_call env) ops n2 = Inr n" and "loops n l = Some x" and "loop_poller x = Some P"
    and "wait_documented (interest (kern n) (epoll_fd P)) (length (event_list P)) evs" and "evs \<noteq> []"
    and "EpollPoller_Poll env clock (Wait_events evs) [] (P, n) = Inr (t, active, P', n')"
    and "p \<in> set active" and "keeps_revents call p"
    and "\<And>kind. asked_for kind (final_events op_events ops (\<lambda>_. 0) p) \<Longrightarrow> call' kind = call kind"
  shows "owned l n' p \<and> HandleEvent call' p t n' = HandleEvent call p t n'"
proof -
  note start = supply_poller_start [where interest = interest, OF assms(2,3,5,6)]
  have own: "\<forall>(x, p) \<in> set ops. owned l n2 p" using assms(4) start(2) by simp
  obtain m where m: "run_changes (channel_call env) ops n2 = Inr m" "loop_inv env interest l m"
      "owned l m = owned l n2" "events_of m = final_events op_events ops (events_of n2)"
    using epoll_registry.run_changes_ok [of env interest l n2 ops] assms(1) start(1) own by blast
  then have inv: "loop_inv env interest l n" "owned l n = owned l n2"
      "events_of n = final_events op_events ops (events_of n2)" using assms(7) by simp_all
  have P: "poller_inv interest l (events_of n) P n" using inv(1) assms(8,9) by (auto simp: loop_inv_def)
  note rep = reported_channels [OF P assms(10)]
  have live: "\<forall>(ev, p) \<in> set evs. channels n p \<noteq> None" using rep(2) by fastforce
  have room: "length evs \<le> length (event_list P)" using assms(10) by (simp add: wait_documented_def)
  from Poll_spec [OF assms(11) room rep(1) live, of env clock "[]"] assms(12)
  have out: "active = map snd evs" "\<forall>(ev, p) \<in> set evs. channels n' p = map_option (\<lambda>c. c\<lparr>ch_revents := ev\<rparr>) (channels n p)"
    by (auto split: if_splits)
  obtain r where r: "(r, p) \<in> set evs" using assms(13) by (auto simp: out(1))
  then obtain c where c: "channels n p = Some c" "ch_loop c = l" "r AND NOT (ch_events c OR EPOLLERR OR EPOLLHUP) = 0"
    using rep(2) by fastforce
  have c': "channels n' p = Some (c\<lparr>ch_revents := r\<rparr>)" using out(2) r c(1) by fastforce
  have "owned l n p" using c by (simp add: owned_def)
  then have "owned l n2 p" using inv(2) by simp
  then have "final_events op_events ops (events_of n2) p = final_events op_events ops (\<lambda>_. 0) p"
    by (intro final_events_at) (rule start(3))
  then have ev: "ch_events c = final_events op_events ops (\<lambda>_. 0) p"
    using inv(3) c(1) by (metis events_of_def option.simps(5))
  have plain: "plain_events (ch_events c)" unfolding ev by (rule plain_final) (simp add: plain_events_def)
  have "call' kind = call kind"
    if d: "ch_revents d = ch_revents (c\<lparr>ch_revents := r\<rparr>)"
      and due: "(kind, f) \<in> set (due_callbacks t d)" for kind f d
  proof -
    have "due_callbacks t (d\<lparr>ch_events := ch_events c\<rparr>) = due_callbacks t d" by (simp add: due_callbacks_def)
    then have "asked_for kind (ch_events c)"
      using due_asked_for [of "d\<lparr>ch_events := ch_events c\<rparr>" kind f t] c(3) plain due d by simp
    then show ?thesis using assms(15) ev by simp
  qed
  then have "HandleEvent call' p t n' = HandleEvent call p t n'"
    by (rule HandleEvent_agree [OF assms(14) c'])
  then show ?thesis using c' c(2) by (simp add: owned_def)
qed

definition reading_net :: "(int \<Rightarrow> int \<rightharpoonup> cint \<times> addr) net" where
  "reading_net = \<lparr>channels = [1 \<mapsto> (Channel_new 9 5)\<lparr>ch_events := kReadEvent, ch_index := kAdd, add_to_loop := True\<rparr>,
        2 \<mapsto> Channel_new 9 6],
     loops = [9 \<mapsto> \<lparr>looping = False, quit = False, thread_id = 100,
        loop_poller = Some \<lparr>poller_loop = 9, channel_map = [5 \<mapsto> 1], epoll_fd = 3,
          event_list = replicate kInitEventListSize (0, 0)\<rparr>\<rparr>],
     loop_in_thread = [100 \<mapsto> 9], kern = (\<lambda>_. Map.empty)(3 := [5 \<mapsto> (kReadEvent, 1)])\<rparr>"

lemma reading_net_run: "run_changes (channel_call (model_env Release)) [(Enable_reading, 1)] model_net = Inr reading_net"
  by (simp add: EnableReading_def change_events_def Channel_Update_def EventLoop_UpdateChannel_def with_poller_def
      assert_owner_def EventLoop_AssertInLoopThread_def IsInLoopThread_def store_poller_def EpollPoller_UpdateChannel_def
      Poller_AssertInLoopThread_def EpollPoller_Update_def SetIndex_def get_channel_def get_loop_def set_channel_def
      set_loop_def model_net_def model_env_def model_epoll_ctl_def reading_net_def Channel_new_def index_values Let_def
      fun_upd_twist)

text \<open>Two sets of callbacks that differ for writing only: the first ends the process then.\<close>

definition strict_call :: "callback \<Rightarrow> nat \<Rightarrow> 'k net \<Rightarrow> 'k net result" where
  "strict_call kind f n = (case kind of Write_event \<Rightarrow> Inl Process_aborted | _ \<Rightarrow> Inr n)"

definition lax_call :: "callback \<Rightarrow> nat \<Rightarrow> 'k net \<Rightarrow> 'k net result" where
  "lax_call kind f n = Inr n"

theorem only_requested_callbacks_witness:
  "\<exists>n P t P' n'. supply_poller (model_env Release) 3 9 model_start = Inr model_net
     \<and> run_changes (channel_call (model_env Release)) [(Enable_reading, 1)] model_net = Inr n
     \<and> EpollPoller_Poll (model_env Release) 70 (Wait_events [(EPOLLIN OR EPOLLHUP, 1)]) [] (P, n) = Inr (t, [1], P', n')
     \<and> owned 9 n' 1 \<and> HandleEvent strict_call 1 t n' = HandleEvent lax_call 1 t n'"
proof -
  let ?ops = "[(Enable_reading, 1)]" and ?evs = "[(EPOLLIN OR EPOLLHUP, 1)]"
  have ops: "\<forall>(x, p) \<in> set ?ops. owned 9 (model_start\<lparr>channels := channels model_net\<rparr>) p"
    by (simp add: owned_def model_net_def Channel_new_def)
  let ?P = "\<lparr>poller_loop = 9, channel_map = [5 \<mapsto> 1], epoll_fd = 3, event_list = replicate kInitEventListSize (0, 0)\<rparr>"
  let ?n = "reading_net"
  have run: "run_changes (channel_call (model_env Release)) ?ops model_net = Inr ?n" by (rule reading_net_run)
  have x: "loops ?n 9 = Some \<lparr>looping = False, quit = False, thread_id = 100, loop_poller = Some ?P\<rparr>"
    by (simp add: reading_net_def)
  have wait: "wait_documented (kern ?n (epoll_fd ?P)) (length (event_list ?P)) ?evs"
    unfolding wait_documented_def
    by (intro conjI exI [of _ "[5]"]) (simp_all add: reading_net_def reported_as_def epoll_bits kInitEventListSize_def)
  have live: "\<forall>(ev, p) \<in> set ?evs. channels ?n p \<noteq> None" by (simp add: reading_net_def)
  obtain P' n' where poll: "EpollPoller_Poll (model_env Release) 70 (Wait_events ?evs) [] (?P, ?n) = Inr (Timestamp_Now 70, [1], P', n')"
    using Poll_spec [of ?evs ?P ?n "model_env Release" 70 "[]"] live by (auto simp: model_env_def kInitEventListSize_def)
  have keeps: "keeps_revents lax_call 1" by (auto simp: keeps_revents_def lax_call_def)
  have same: "strict_call kind = lax_call kind"
    if "asked_for kind (final_events op_events ?ops (\<lambda>_. 0) 1)" for kind
    using that by (cases kind) (simp_all add: asked_for_def epoll_bits strict_call_def lax_call_def fun_eq_iff)
  have give: "supply_poller (model_env Release) 3 9 (model_start\<lparr>channels := channels model_net\<rparr>) = Inr model_net"
    by (simp add: model_supply)
  have "owned 9 n' 1 \<and> HandleEvent strict_call 1 (Timestamp_Now 70) n' = HandleEvent lax_call 1 (Timestamp_Now 70) n'"
    by (rule only_requested_callbacks [OF model_documented [of Release] model_start_new model_made ops _ give run x _ wait _ poll _ keeps same])
      simp_all
  then show ?thesis using run poll model_supply by auto
qed

end
