(* ===== verification/Spec2Isabelle.thy ===== *)
theory Spec2Isabelle
  imports Turbo_Prelude Turbo_Numerals Turbo_Steps Base_Timestamp Base_CurrentThread Base_Condition Base_Sync
    Base_Thread Base_ThreadPool Base_Future Base_Singleton Logger_Stream Logger_Logger Logger_File Logger_Async Logger_Default Logger_System
    Net_Endian Net_Inet Net_Socket Net_Buffer Net_BufferOps Net_Objects Net_Poller Net_Reactor
begin

text \<open>
  \<^bold>\<open>TurboNet: a verified model of the library under \<open>src/src\<close>.\<close>

  TurboNet is a C++20 network library in three layers. \<open>base\<close> has time stamps, the cached thread id,
  a mutex that knows its holder, a condition, a latch, threads, a thread pool and a singleton.
  \<open>logger\<close> formats a log line into a fixed buffer and hands it to an output function; one of these
  queues the line for a background thread that writes rolling log files. \<open>net\<close> has a byte buffer,
  socket addresses and socket calls, and channels that are registered with the epoll poller of an
  event loop. The development follows the code function by function; each theory opens with what
  it holds.

  \<^bold>\<open>How the code is modelled.\<close> A class is a record, an enum a datatype, an operation a function that
  returns the changed object, all executable. Whatever is not a normal return is a value:
  \<open>fault + 'a\<close> with a failed \<open>assert\<close>, \<open>abort\<close>, undefined behaviour, or an exception of the standard
  library (\<open>Turbo_Prelude\<close>). The build type is a parameter, because the default build defines
  \<open>NDEBUG\<close> and some assertions of the code have an effect. Sizes and indices of buffers are 64-bit
  words and event masks 32-bit words, with the wrap-around of the code; \<open>count_\<close> of a log file is a
  32-bit word too, since it is never set back; the number of bytes written to a stream and the counters
  of a latch and of a pool, which go up and down by one, are mathematical integers. Memory is a list of bytes with checked
  loads and stores. Objects that refer to each other are in a store by address (\<open>Net_Objects\<close>).
  Code that runs in several threads is a step relation: one step is one access to shared state, or
  one critical section where the code holds a mutex throughout, and the theorems speak about all
  interleavings. Fields of a record that only record history say so where they are declared.

  \<^bold>\<open>Which theory models what.\<close>
  \<^item> \<open>Turbo_Prelude\<close>: faults, assertions, raw memory, words. \<open>Turbo_Numerals\<close>: decimal and other
    numerals and how they read back. \<open>Turbo_Steps\<close>: reachable states and invariants.
  \<^item> \<open>Base_Timestamp\<close>: \<open>base/timestamp\<close> and the comparison templates of \<open>base/public_define.h\<close>.
    \<open>Base_CurrentThread\<close>: \<open>base/current_thread\<close>.
  \<^item> \<open>Base_Condition\<close>: \<open>base/mutex\<close> and \<open>base/condition\<close>, a machine of any number of threads that
    lock, wait with or without a time limit and notify. \<open>Base_Sync\<close>: \<open>base/count_down_latch\<close>, a
    machine that refines the former. \<open>Base_Thread\<close>: \<open>base/thread\<close>, the code of the owner and of
    the new thread, composed with the machine of the latch. \<open>Base_ThreadPool\<close>: \<open>base/thread_pool\<close>,
    its workers, monitor, \<open>Commit\<close>, \<open>ShutDown\<close> and destructor. \<open>Base_Future\<close>: the packaged tasks and
    futures of \<open>Commit\<close>, over the machine of the pool. \<open>Base_Singleton\<close>: \<open>base/singleton\<close>, threads
    that call \<open>Instance\<close> while the process may exit, up to the destructor of the static pointer.
  \<^item> \<open>Logger_Stream\<close>: \<open>logger/fixed_buffer\<close>, \<open>logger/log_stream\<close>. \<open>Logger_Logger\<close>: \<open>logger/logger\<close>,
    from the macros to the finished line. \<open>Logger_File\<close>: \<open>logger/file_util\<close>, \<open>logger/log_file\<close>
    over an explicit operating system with the buffer of the open stream. \<open>Logger_Async\<close>:
    \<open>logger/async_logging\<close>. \<open>Logger_Default\<close>: output and flush functions, the default
    asynchronous logger (a singleton), and whole log statements. \<open>Logger_System\<close>: a program whose threads
    log through the default logger, composed of the four before.
  \<^item> \<open>Net_Buffer\<close>, \<open>Net_BufferOps\<close>: \<open>net/buffer\<close>. \<open>Net_Endian\<close>, \<open>Net_Inet\<close>, \<open>Net_Socket\<close>:
    \<open>net/inet_endian.h\<close>, \<open>net/inet_address\<close>, \<open>net/socket_ops\<close> and \<open>net/socket\<close>. \<open>Net_Objects\<close>,
    \<open>Net_Poller\<close>: \<open>net/channel\<close>, \<open>net/poller\<close>, \<open>net/epoll_poller\<close>, \<open>net/event_loop\<close>. \<open>Net_Reactor\<close>: these
    from a registration over the report of the kernel to the callbacks.

  \<^bold>\<open>Interfaces.\<close> What one part promises another is a locale, proved once and interpreted on the
  model of the code:
  \<^item> \<open>invariant_system\<close> and its extension \<open>monotone_system\<close> (\<open>Turbo_Steps\<close>): an invariant holds in all
    reachable states; interpreted for the condition, the latch, threads, the pool (running, closed,
    closing, without workers, the names of its threads), its futures, singletons, the answers of a latch, the logging queue, the logging program and the loops of
    a process.
  \<^item> \<open>digit_system\<close>: numerals read back; for decimal and hexadecimal digits. \<open>comparable\<close>: what the
    templates derive from \<open>==\<close> and \<open><\<close>; for time stamps, which become a \<open>linorder\<close>.
  \<^item> \<open>log_sink\<close>: items are stored whole or not at all; for streams and for log lines.
    \<open>line_store\<close>: appends accumulate; for log files, used by the logging queue.
  \<^item> \<open>byte_queue\<close>: puts and gets as on a list; for buffers. \<open>network_integer\<close>: conversions invert
    each other; for 16, 32 and 64 bits. \<open>event_registry\<close>: what registering events means; for epoll.
\<close>

text \<open>
  \<^bold>\<open>What the theorems show.\<close>
  \<^item> Buffers: a buffer is a byte queue, whatever its reallocations; every sequence of operations
    means on the unread bytes what its reference on strings says, in both builds, with lengths the
    assertions allow and as long as no read fills the free bytes (what happens then is a theorem of its
    own); every operation that gets through keeps the indices in order, \<open>MoveWriteBackward\<close> in a
    Release build if its argument fits; headers in front, line search, reading from a descriptor.
  \<^item> Registration: the constructor of the event loop leaves \<open>poller_\<close> null, so that every registration
    dereferences a null pointer. Of the loop that is given the poller it lacks (\<open>supply_poller\<close>): the kernel
    watches exactly the events a channel asked for; polling and dispatch; callbacks run only for what
    was asked for. At most one loop per thread.
  \<^item> Logging: a statement writes one line of a fixed layout; numbers read back; lines are stored
    whole or not at all; the queue is first-in first-out in every interleaving and never faults;
    in a whole program the files and the queue hold exactly what remains of the lines of all
    statements (\<open>remains_of\<close>: all of a line of at most 3952 characters, the parts that fit of a longer
    one), and the background thread alone can bring them all to the files; Stop comes back; log files
    hold everything in order across rolls, with at most 64 KB outside the files; where messages are
    lost.
  \<^item> Threads: mutual exclusion, also across waits; the latch refines the condition, releases its
    waiters neither too early nor never; Start returns, and only after the new thread is ready;
    Join is safe; tasks of a pool are run once and in order and can always be finished, their
    futures hold what they returned or threw, the counters are exact, and a pool with at least one
    core thread that is shut down and then destroyed finishes within a bound and keeps all its promises,
    without a fault if no worker was surplus; otherwise its destructor and its monitor race, and a
    second Join or an erased element is a fault of the model. Without ShutDown the destructor hangs. A
    singleton is one object for all threads, made once even if constructors throw, destroyed at most
    once by the exit handler or the destructor of its static pointer, and no call of \<open>Instance\<close> is stuck.
  \<^item> Addresses: text and back for IPv4 and IPv6, on hosts of either byte order.

  \<^bold>\<open>What is assumed.\<close> System and C library calls are parameters: \<open>gettid\<close>, \<open>localtime\<close>,
  \<open>strerror_r\<close>, the text of a double, \<open>readv\<close>, \<open>write\<close>, \<open>fopen\<close>, \<open>fwrite\<close>, \<open>epoll_ctl\<close>,
  \<open>epoll_wait\<close>, \<open>inet_pton\<close>, \<open>inet_ntop\<close>, the resolver and the socket calls. Theorems that need
  them to behave name it: \<open>epoll_documented\<close> and \<open>wait_documented\<close> (the manual pages of \<open>epoll_ctl\<close>
  and \<open>epoll_wait\<close>), \<open>os_ok\<close> (files open, writes make progress, the clock is past 1970),
  \<open>log_context\<close> (the time is known and the thread's cache of it is sound), \<open>inet_documented\<close>. Flushing and closing a stream write out its buffer.
  Callbacks of channels are functions on the store that, where the theorems say so, leave the channel's
  received events (\<open>keeps_revents\<close>), and its callbacks (\<open>keeps_dispatch\<close>), as they are. A process does not
  exit while a thread makes a singleton, nor is one used before its static pointer is initialised.

  \<^bold>\<open>Bounds.\<close> No definition needs fuel: loops are structural or have a measure. \<open>work_left\<close> bounds the
  steps of a pool that closes, \<open>worker_left\<close> those of the logging thread after Stop. A log line has
  at most 4000 bytes and a buffer of the queue 4000000; the queue drops buffers when more than 25
  wait; a vector is shorter than \<open>2 ^ 63\<close> bytes. A log file counts fewer than \<open>2 ^ 31\<close> messages; the code's
  counter overflows there, the model's wraps around.

  \<^bold>\<open>Not modelled.\<close> The test programs, which only print and assert. The \<open>std::unique_lock\<close> of a
  condition, which hands the waits on to the mutex (\<open>Base_Condition\<close>). How long a wait of
  \<open>base/thread_pool\<close> or \<open>base/condition\<close> lasts: when it times out is a choice of the scheduler. How
  the operating system runs a new thread, beyond that it runs. \<open>implicit_cast\<close>, the concept
  \<open>HasNoDestroy\<close> (a parameter of the singleton) and the macro against copying have no run-time
  meaning; a pointer cast of \<open>net/socket_ops\<close> is the same block of memory. The debug output of the poller and the loop is left out; statements whose
  level ends the process are kept for that effect.
\<close>

end
